(* ===== verification/Prelude.thy ===== *)
theory Prelude
  imports Main "HOL-Library.Word" "HOL-Library.Sublist" "HOL-Library.Multiset"
begin

text \<open>
  Shared vocabulary of the development: the Go types the logger is written in (64-bit
  integers, byte strings, instants, errors), the few functions of Go's standard library
  whose behaviour matters to the proofs (decimal printing and parsing, string splitting,
  ASCII case folding and trimming), the record \<open>golib\<close> of the library functions the model
  takes as parameters, and generic facts on lists and index arithmetic that the component
  theories share.
\<close>

section \<open>Types\<close>

text \<open>
  A Go string or byte slice is a list of bytes, and an HOL \<^typ>\<open>char\<close> is a byte. 64-bit
  integers are \<open>64 word\<close>, read by \<^const>\<open>uint\<close>/\<^const>\<open>unat\<close> as \<open>uint64\<close> and by \<^const>\<open>sint\<close>
  as \<open>int64\<close>. A \<open>time.Time\<close> is the instant in nanoseconds since the zero time (January 1
  of year 1, UTC), so that \<open>IsZero\<close> is \<open>= 0\<close>; the location only matters to formatting,
  which is a parameter. An error is represented by the text its \<open>Error\<close> method returns.
\<close>

type_synonym bytes = string
type_synonym u64 = "64 word"
type_synonym gtime = int

datatype goerr = GoErr (err_text: string)

section \<open>Rule collections\<close>

named_theorems level_defs \<open>the numeric values of the level anchors\<close>
named_theorems inv_intros \<open>preservation of component invariants\<close>
named_theorems line_safe \<open>output fragments free of line breaks\<close>
named_theorems json_ok \<open>output fragments that satisfy the JSON grammar\<close>

section \<open>Bytes\<close>

abbreviation byte :: "char \<Rightarrow> nat" where
  "byte c \<equiv> of_char c"

abbreviation NL :: char where
  "NL \<equiv> CHR 0x0A"

abbreviation CR :: char where
  "CR \<equiv> CHR 0x0D"

abbreviation TAB :: char where
  "TAB \<equiv> CHR 0x09"

abbreviation DQ :: char where
  "DQ \<equiv> CHR 0x22"

abbreviation BSL :: char where
  "BSL \<equiv> CHR 0x5C"

abbreviation SP :: char where
  "SP \<equiv> CHR 0x20"

text \<open>\<open>strings.ToLower\<close> and \<open>strings.TrimSpace\<close> restricted to ASCII input.\<close>

definition isASCII :: "string \<Rightarrow> bool" where
  "isASCII s = list_all (\<lambda>c. byte c < 128) s"

definition lower_byte :: "char \<Rightarrow> char" where
  "lower_byte c = (if 65 \<le> byte c \<and> byte c \<le> 90 then char_of (byte c + 32) else c)"

definition asciiSpace :: "char \<Rightarrow> bool" where
  "asciiSpace c = (c \<in> {TAB, NL, CHR 0x0B, CHR 0x0C, CR, SP})"

definition trimASCII :: "string \<Rightarrow> string" where
  "trimASCII s = rev (dropWhile asciiSpace (rev (dropWhile asciiSpace s)))"

text \<open>\<open>strings.TrimRight(s, "\n")\<close> and the loops that cut trailing newlines.\<close>

definition trimNL :: "string \<Rightarrow> string" where
  "trimNL s = rev (dropWhile (\<lambda>c. c = NL) (rev s))"

lemma trimNL_snoc_NL [simp]: "trimNL (s @ [NL]) = trimNL s"
  by (simp add: trimNL_def)

lemma trimNL_id: "NL \<notin> set s \<Longrightarrow> trimNL s = s"
  by (cases s rule: rev_cases) (auto simp: trimNL_def)

section \<open>Decimal numerals\<close>

text \<open>\<open>strconv.AppendUint(b, n, 10)\<close> and its reading by \<open>strconv.ParseUint\<close>.\<close>

definition digit :: "nat \<Rightarrow> char" where
  "digit d = char_of (48 + d)"

definition digit_val :: "char \<Rightarrow> nat option" where
  "digit_val c = (if 48 \<le> byte c \<and> byte c \<le> 57 then Some (byte c - 48) else None)"

fun dec :: "nat \<Rightarrow> string" where
  "dec n = (if n < 10 then [digit n] else dec (n div 10) @ [digit (n mod 10)])"

declare dec.simps [simp del]

fun undec_aux :: "nat \<Rightarrow> string \<Rightarrow> nat option" where
  "undec_aux acc [] = Some acc"
| "undec_aux acc (c # cs) =
     (case digit_val c of None \<Rightarrow> None | Some d \<Rightarrow> undec_aux (10 * acc + d) cs)"

definition undec :: "string \<Rightarrow> nat option" where
  "undec s = (if s = [] then None else undec_aux 0 s)"

lemma digit_val_digit [simp]: "d < 10 \<Longrightarrow> digit_val (digit d) = Some d"
  by (simp add: digit_val_def digit_def)

lemma byte_digit [simp]: "d < 10 \<Longrightarrow> byte (digit d) = 48 + d"
  by (simp add: digit_def)

lemma undec_aux_append:
  "undec_aux a (xs @ ys) = Option.bind (undec_aux a xs) (\<lambda>b. undec_aux b ys)"
  by (induction xs arbitrary: a) (auto split: option.splits)

lemma undec_aux_dec: "undec_aux 0 (dec n) = Some n"
proof (induction n rule: dec.induct)
  case (1 n)
  then show ?case
    by (cases "n < 10") (simp_all add: dec.simps [of n] undec_aux_append)
qed

lemma dec_nonempty [simp]: "dec n \<noteq> []"
  by (subst dec.simps) simp

lemma undec_dec [simp]: "undec (dec n) = Some n"
  by (simp add: undec_def undec_aux_dec)

lemma dec_inject [simp]: "dec m = dec n \<longleftrightarrow> m = n"
  by (metis undec_dec option.inject)

lemma set_dec: "c \<in> set (dec n) \<Longrightarrow> 48 \<le> byte c \<and> byte c \<le> 57"
proof (induction n rule: dec.induct)
  case (1 n)
  show ?case
  proof (cases "n < 10")
    case True
    with "1.prems" show ?thesis by (simp add: dec.simps [of n])
  next
    case False
    with "1" show ?thesis by (auto simp: dec.simps [of n])
  qed
qed

lemma dec_free: "\<not> (48 \<le> byte c \<and> byte c \<le> 57) \<Longrightarrow> c \<notin> set (dec n)"
  using set_dec by blast

text \<open>\<open>strconv.AppendInt\<close> on the integer value.\<close>

definition dec_int :: "int \<Rightarrow> string" where
  "dec_int i = (if i < 0 then CHR ''-'' # dec (nat (- i)) else dec (nat i))"

text \<open>\<open>strconv.ParseUint(s, 10, 64)\<close>: digits only, at least one, at most \<open>2^64 - 1\<close>.\<close>

definition ParseUint :: "string \<Rightarrow> nat option" where
  "ParseUint s = (case undec s of None \<Rightarrow> None | Some n \<Rightarrow> if n < 2 ^ 64 then Some n else None)"

text \<open>\<open>strconv.Atoi\<close>: an optional sign, digits, and the value in the range of \<open>int\<close>.\<close>

definition Atoi :: "string \<Rightarrow> int option" where
  "Atoi s =
     (let (neg, ds) = (case s of
          [] \<Rightarrow> (False, s)
        | c # cs \<Rightarrow> if c = CHR ''-'' then (True, cs) else if c = CHR ''+'' then (False, cs)
                   else (False, s))
      in case undec ds of None \<Rightarrow> None
         | Some n \<Rightarrow> (let i = (if neg then - int n else int n)
                    in if - (2 ^ 63) \<le> i \<and> i < 2 ^ 63 then Some i else None))"

section \<open>Splitting strings\<close>

text \<open>\<open>strings.Split(s, sep)\<close> for a one-byte separator: never the empty list.\<close>

fun split_on :: "char \<Rightarrow> string \<Rightarrow> string list" where
  "split_on d [] = [[]]"
| "split_on d (c # cs) =
     (if c = d then [] # split_on d cs
      else (case split_on d cs of [] \<Rightarrow> [[c]] | w # ws \<Rightarrow> (c # w) # ws))"

fun join_with :: "char \<Rightarrow> string list \<Rightarrow> string" where
  "join_with d [] = []"
| "join_with d [w] = w"
| "join_with d (w # v # ws) = w @ d # join_with d (v # ws)"

lemma join_with_Cons: "join_with d (w # ws) = w @ concat (map (\<lambda>v. d # v) ws)"
  by (induction ws arbitrary: w) auto

lemma split_on_nonempty [simp]: "split_on d s \<noteq> []"
  by (cases s) (auto split: list.splits)

lemma join_split [simp]: "join_with d (split_on d s) = s"
proof (induction s)
  case (Cons c cs)
  then show ?case
    by (cases "split_on d cs" rule: remdups_adj.cases) (auto split: list.splits)
qed simp

lemma split_on_free: "w \<in> set (split_on d s) \<Longrightarrow> d \<notin> set w"
proof (induction s arbitrary: w)
  case (Cons c cs)
  then show ?case
    by (cases "split_on d cs") (auto split: if_splits)
qed simp

lemma split_on_prefix: "d \<notin> set w \<Longrightarrow> split_on d (w @ d # s) = w # split_on d s"
  by (induction w) auto

lemma split_on_id: "d \<notin> set w \<Longrightarrow> split_on d w = [w]"
  by (induction w) auto

lemma split_join:
  "ws \<noteq> [] \<Longrightarrow> (\<And>w. w \<in> set ws \<Longrightarrow> d \<notin> set w) \<Longrightarrow> split_on d (join_with d ws) = ws"
  by (induction d ws rule: join_with.induct) (auto simp: split_on_prefix split_on_id)

text \<open>\<open>strings.SplitN(s, sep, n)\<close> with \<open>n > 0\<close>: at most \<open>n\<close> pieces, the last unsplit.\<close>

fun cut_at :: "char \<Rightarrow> string \<Rightarrow> (string \<times> string) option" where
  "cut_at d [] = None"
| "cut_at d (c # cs) =
     (if c = d then Some ([], cs)
      else (case cut_at d cs of None \<Rightarrow> None | Some (a, b) \<Rightarrow> Some (c # a, b)))"

fun splitN :: "char \<Rightarrow> nat \<Rightarrow> string \<Rightarrow> string list" where
  "splitN d 0 s = []"
| "splitN d (Suc 0) s = [s]"
| "splitN d (Suc (Suc n)) s =
     (case cut_at d s of None \<Rightarrow> [s] | Some (a, b) \<Rightarrow> a # splitN d (Suc n) b)"

lemma cut_append: "d \<notin> set w \<Longrightarrow> cut_at d (w @ d # s) = Some (w, s)"
  by (induction w) auto

lemma cut_Some: "cut_at d s = Some (a, b) \<longleftrightarrow> s = a @ d # b \<and> d \<notin> set a"
proof
  show "cut_at d s = Some (a, b) \<Longrightarrow> s = a @ d # b \<and> d \<notin> set a"
    by (induction s arbitrary: a) (auto split: if_splits option.splits)
qed (auto simp: cut_append)

section \<open>Circular indices\<close>

lemma mod_window_inj:
  fixes i j n s :: nat
  assumes "i < n" "j < n" "(s + i) mod n = (s + j) mod n"
  shows "i = j"
proof -
  have *: "x = y" if "x \<le> y" "y < n" "(s + x) mod n = (s + y) mod n" for x y :: nat
  proof -
    from that(3) have "n dvd (s + y) - (s + x)"
      using that(1) by (metis mod_eq_dvd_iff_nat add_le_cancel_left)
    then have "n dvd y - x" by simp
    moreover have "y - x < n" using that(2) by simp
    ultimately show "x = y" using that(1) by (auto dest: dvd_imp_le)
  qed
  show ?thesis
  proof (cases "i \<le> j")
    case True
    then show ?thesis using *[of i j] assms by simp
  next
    case False
    then show ?thesis using *[of j i] assms by simp
  qed
qed

text \<open>
  \<open>ring_items buf h n\<close> reads \<open>n\<close> consecutive slots of a circular buffer from index \<open>h\<close>:
  the common abstraction function of the ring transport and the debug-on-error buffer.
\<close>

definition ring_items :: "'a list \<Rightarrow> nat \<Rightarrow> nat \<Rightarrow> 'a list" where
  "ring_items buf h n = map (\<lambda>i. buf ! ((h + i) mod length buf)) [0..<n]"

lemma length_ring_items [simp]: "length (ring_items buf h n) = n"
  by (simp add: ring_items_def)

lemma ring_items_0 [simp]: "ring_items buf h 0 = []"
  by (simp add: ring_items_def)

lemma mod_length_less [simp]: "n < length buf \<Longrightarrow> i mod length buf < length buf"
  by (rule mod_less_divisor) (erule le_less_trans [OF le0])

lemma ring_items_push:
  assumes "n < length buf"
  shows "ring_items (buf[(h + n) mod length buf := x]) h (Suc n) = ring_items buf h n @ [x]"
proof -
  have "(h + n) mod length buf \<noteq> (h + i) mod length buf" if "i < n" for i
    using mod_window_inj[of i "length buf" n h] that assms by auto
  then have "map (\<lambda>i. buf[(h + n) mod length buf := x] ! ((h + i) mod length buf)) [0..<n]
    = map (\<lambda>i. buf ! ((h + i) mod length buf)) [0..<n]"
    by simp
  then show ?thesis
    using assms by (simp add: ring_items_def)
qed

lemma ring_items_pop:
  "ring_items buf h (Suc n) = buf ! (h mod length buf) # ring_items buf (Suc h) n"
  by (simp add: ring_items_def upt_conv_Cons map_Suc_upt [symmetric] del: upt_Suc)

lemma ring_items_snoc:
  "ring_items buf h (Suc n) = ring_items buf h n @ [buf ! ((h + n) mod length buf)]"
  by (simp add: ring_items_def)

lemma ring_items_mod [simp]: "ring_items buf (h mod length buf) n = ring_items buf h n"
  by (simp add: ring_items_def mod_add_left_eq)

lemma ring_items_clear:
  assumes "n < length buf"
  shows "ring_items (buf[h mod length buf := x]) (Suc h) n = ring_items buf (Suc h) n"
proof -
  have "h mod length buf \<noteq> (Suc h + i) mod length buf" if "i < n" for i
  proof -
    have "Suc i < length buf" and "0 < length buf" using that assms by linarith+
    then show ?thesis using mod_window_inj[of "Suc i" "length buf" 0 h] by auto
  qed
  then show ?thesis by (simp add: ring_items_def)
qed

text \<open>Over a whole turn of the buffer: writing one slot, and advancing the start.\<close>

lemma ring_items_update:
  assumes "n < length buf"
  shows "ring_items (buf[(h + n) mod length buf := x]) h (length buf)
    = (ring_items buf h (length buf))[n := x]"
proof (rule nth_equalityI)
  fix i assume "i < length (ring_items (buf[(h + n) mod length buf := x]) h (length buf))"
  then have i: "i < length buf" by simp
  then have "(h + i) mod length buf = (h + n) mod length buf \<longleftrightarrow> i = n"
    using mod_window_inj [of i "length buf" n h] assms by auto
  with i show "ring_items (buf[(h + n) mod length buf := x]) h (length buf) ! i
      = (ring_items buf h (length buf))[n := x] ! i"
    by (auto simp: ring_items_def nth_list_update)
qed simp

lemma ring_items_rotate:
  assumes "buf \<noteq> []"
  shows "ring_items buf (Suc h) (length buf) = rotate1 (ring_items buf h (length buf))"
proof -
  obtain n where n: "length buf = Suc n" using assms by (cases buf) auto
  have "ring_items buf (Suc h) (Suc n)
    = ring_items buf (Suc h) n @ [buf ! ((Suc h + n) mod length buf)]"
    by (simp add: ring_items_def)
  moreover have "(Suc h + n) mod length buf = h mod length buf"
    by (metis n add_Suc_shift mod_add_self2)
  ultimately show ?thesis
    by (simp add: n ring_items_pop)
qed

lemma ring_items_take: "n \<le> m \<Longrightarrow> take n (ring_items buf h m) = ring_items buf h n"
  by (simp add: ring_items_def take_map)

section \<open>Counting threads\<close>

text \<open>How many elements of a list, such as the program counters of the threads, satisfy a test.\<close>

definition cnt :: "('a \<Rightarrow> bool) \<Rightarrow> 'a list \<Rightarrow> nat" where
  "cnt P xs = length (filter P xs)"

lemma cnt_update:
  assumes "i < length xs"
  shows "cnt P (xs[i := x]) + (if P (xs ! i) then 1 else 0) = cnt P xs + (if P x then 1 else 0)"
  using assms
proof (induction xs arbitrary: i)
  case (Cons a xs)
  then show ?case by (cases i) (auto simp: cnt_def)
qed simp

lemma cnt_upd:
  assumes "i < length xs"
  shows "cnt P (xs[i := x]) = cnt P xs + (if P x then 1 else 0) - (if P (xs ! i) then 1 else 0)"
  using cnt_update [OF assms, of P x] by auto

lemma cnt_pos: "i < length xs \<Longrightarrow> P (xs ! i) \<Longrightarrow> 0 < cnt P xs"
  by (auto simp: cnt_def filter_empty_conv)

lemma cnt_zero: "cnt P xs = 0 \<longleftrightarrow> (\<forall>x \<in> set xs. \<not> P x)"
  by (simp add: cnt_def filter_empty_conv)

lemma cnt_map: "cnt P (map f xs) = cnt (P \<circ> f) xs"
  by (simp add: cnt_def filter_map o_def)

lemma cnt_replicate: "cnt P (replicate n x) = (if P x then n else 0)"
  by (simp add: cnt_def)

lemma count_word:
  assumes "i < length xs" "P (xs ! i)" "\<not> P y"
  shows "d + 1 + word_of_nat (cnt P (xs[i := y])) = d + (word_of_nat (cnt P xs) :: u64)"
proof -
  have "cnt P xs = Suc (cnt P (xs[i := y]))"
    using cnt_update [OF assms(1), of P y] assms by simp
  then show ?thesis by simp
qed

lemma cnt_snoc: "cnt P (xs @ [x]) = cnt P xs + (if P x then 1 else 0)"
  by (simp add: cnt_def)

section \<open>Transition systems\<close>

text \<open>An invariant of a transition system holds in every reachable state.\<close>

locale invariant_system =
  fixes init :: "'s \<Rightarrow> bool" and step :: "'s \<Rightarrow> 's \<Rightarrow> bool" and inv :: "'s \<Rightarrow> bool"
  assumes inv_starts: "init s \<Longrightarrow> inv s"
    and inv_keeps: "inv s \<Longrightarrow> step s s' \<Longrightarrow> inv s'"
begin

lemma steps_inv: "step\<^sup>*\<^sup>* s s' \<Longrightarrow> inv s \<Longrightarrow> inv s'"
  by (induction rule: rtranclp_induct) (auto intro: inv_keeps)

lemma reach_inv: "init s \<Longrightarrow> step\<^sup>*\<^sup>* s s' \<Longrightarrow> inv s'"
  using steps_inv inv_starts by blast

end

end
