(* ===== verification/Golib.thy ===== *)
theory Golib
  imports Prelude
begin

text \<open>
  Dynamic Go values (what an \<open>any\<close> holds at run time) and the functions of Go's library
  that the logger calls. Functions that are short enough are written out here; the
  others (float and time formatting, \<open>encoding/json\<close> on composite values, Unicode case
  folding, SHA-256, stack frames) are fields of the record \<open>golib\<close>, an argument of every
  definition that uses them. What a theorem relies on is a hypothesis about that record
  and says only what the library documents.
\<close>

unbundle bit_operations_syntax

section \<open>Dynamic values\<close>

text \<open>
  One constructor per dynamic type the code's type switches distinguish. Floats are their
  IEEE 754 bits. \<open>VStringer\<close> carries the text its \<open>String\<close> method returns, \<open>VOther\<close> is any
  remaining value (structs, maps, slices, other integer types), known by an identity.
\<close>

datatype goval =
    VNil
  | VString string
  | VBool bool
  | VInt u64
  | VInt64 u64
  | VUint64 u64
  | VFloat64 u64
  | VDuration u64
  | VTime gtime
  | VError goerr
  | VStringer string
  | VOther nat

section \<open>Library functions taken as parameters\<close>

record golib =
  lib_rfc3339 :: "gtime \<Rightarrow> string"            \<comment> \<open>\<open>Time.AppendFormat(RFC3339Nano)\<close>\<close>
  lib_timeFormat :: "string \<Rightarrow> gtime \<Rightarrow> string" \<comment> \<open>\<open>Time.AppendFormat\<close> with another layout\<close>
  lib_timeString :: "gtime \<Rightarrow> string"         \<comment> \<open>\<open>Time.String\<close>\<close>
  lib_durString :: "u64 \<Rightarrow> string"            \<comment> \<open>\<open>Duration.String\<close>\<close>
  lib_fmtFloat :: "u64 \<Rightarrow> string"             \<comment> \<open>\<open>AppendFloat(f, 'g', -1, 64)\<close> on finite floats\<close>
  lib_sprintFloat :: "u64 \<Rightarrow> string"          \<comment> \<open>\<open>fmt.Sprint\<close> of a float64\<close>
  lib_sprintOther :: "nat \<Rightarrow> string"          \<comment> \<open>\<open>fmt.Sprint\<close> of a \<open>VOther\<close>\<close>
  lib_jsonMarshal :: "nat \<Rightarrow> goerr + bytes"   \<comment> \<open>\<open>json.Marshal\<close> of a \<open>VOther\<close>\<close>
  lib_quote :: "string \<Rightarrow> string"             \<comment> \<open>\<open>strconv.AppendQuote\<close>\<close>
  lib_toLowerU :: "string \<Rightarrow> string"          \<comment> \<open>\<open>strings.ToLower\<close> beyond ASCII\<close>
  lib_trimSpaceU :: "string \<Rightarrow> string"        \<comment> \<open>\<open>strings.TrimSpace\<close> beyond ASCII\<close>
  lib_sha256 :: "bytes \<Rightarrow> bytes"              \<comment> \<open>\<open>sha256.Sum256\<close>\<close>
  lib_frame :: "u64 \<Rightarrow> string \<times> int \<times> string" \<comment> \<open>\<open>runtime.CallersFrames\<close>: file, line, function\<close>

section \<open>Numbers\<close>

text \<open>
  \<open>strconv.AppendFloat(b, f, 'g', -1, 64)\<close> spells the special values \<open>NaN\<close>, \<open>+Inf\<close> and
  \<open>-Inf\<close>; the exponent field of such a float is all ones.
\<close>

definition float_exp :: "u64 \<Rightarrow> u64" where
  "float_exp w = drop_bit 52 w AND 0x7FF"

definition float_frac :: "u64 \<Rightarrow> u64" where
  "float_frac w = w AND 0xFFFFFFFFFFFFF"

definition isNaN :: "u64 \<Rightarrow> bool" where
  "isNaN w = (float_exp w = 0x7FF \<and> float_frac w \<noteq> 0)"

definition isInf :: "u64 \<Rightarrow> bool" where
  "isInf w = (float_exp w = 0x7FF \<and> float_frac w = 0)"

definition isFinite :: "u64 \<Rightarrow> bool" where
  "isFinite w = (\<not> isNaN w \<and> \<not> isInf w)"

definition AppendFloat :: "golib \<Rightarrow> u64 \<Rightarrow> string" where
  "AppendFloat lib w =
     (if isNaN w then ''NaN''
      else if isInf w then (if bit w 63 then ''-Inf'' else ''+Inf'')
      else lib_fmtFloat lib w)"

definition AppendInt :: "u64 \<Rightarrow> string" where
  "AppendInt w = dec_int (sint w)"

definition AppendUint :: "u64 \<Rightarrow> string" where
  "AppendUint w = dec (unat w)"

definition AppendBool :: "bool \<Rightarrow> string" where
  "AppendBool b = (if b then ''true'' else ''false'')"

section \<open>Text\<close>

definition ToLower :: "golib \<Rightarrow> string \<Rightarrow> string" where
  "ToLower lib s = (if isASCII s then map lower_byte s else lib_toLowerU lib s)"

definition TrimSpace :: "golib \<Rightarrow> string \<Rightarrow> string" where
  "TrimSpace lib s = (if isASCII s then trimASCII s else lib_trimSpaceU lib s)"

text \<open>\<open>fmt.Sprint\<close> of one operand.\<close>

fun Sprint :: "golib \<Rightarrow> goval \<Rightarrow> string" where
  "Sprint lib VNil = ''<nil>''"
| "Sprint lib (VString s) = s"
| "Sprint lib (VBool b) = AppendBool b"
| "Sprint lib (VInt w) = AppendInt w"
| "Sprint lib (VInt64 w) = AppendInt w"
| "Sprint lib (VUint64 w) = AppendUint w"
| "Sprint lib (VFloat64 w) = lib_sprintFloat lib w"
| "Sprint lib (VDuration w) = lib_durString lib w"
| "Sprint lib (VTime t) = lib_timeString lib t"
| "Sprint lib (VError e) = err_text e"
| "Sprint lib (VStringer s) = s"
| "Sprint lib (VOther i) = lib_sprintOther lib i"

section \<open>Time\<close>

text \<open>
  \<open>UnixNano\<close> is the 64-bit distance from the Unix epoch (it wraps outside 1678..2262),
  \<open>time.Unix(0, n)\<close> the instant at that distance. \<open>Sub\<close> saturates at the range of
  \<open>Duration\<close>.
\<close>

definition unixEpoch :: gtime where
  "unixEpoch = 62135596800 * 10 ^ 9"

definition UnixNano :: "gtime \<Rightarrow> u64" where
  "UnixNano t = word_of_int (t - unixEpoch)"

definition time_Unix :: "u64 \<Rightarrow> gtime" where
  "time_Unix w = unixEpoch + sint w"

definition time_Sub :: "gtime \<Rightarrow> gtime \<Rightarrow> int" where
  "time_Sub t u = max (- (2 ^ 63)) (min (2 ^ 63 - 1) (t - u))"

lemma time_Unix_UnixNano:
  assumes "- (2 ^ 63) \<le> t - unixEpoch" "t - unixEpoch < 2 ^ 63"
  shows "time_Unix (UnixNano t) = t"
proof -
  have "sint (UnixNano t) = t - unixEpoch"
    unfolding UnixNano_def sint_sbintrunc'
    using assms by (simp add: signed_take_bit_int_eq_self_iff)
  then show ?thesis by (simp add: time_Unix_def)
qed

text \<open>\<open>encoding/hex\<close>: two lowercase digits per byte.\<close>

definition hexdigit :: "nat \<Rightarrow> char" where
  "hexdigit n = (if n < 10 then char_of (48 + n) else char_of (87 + n))"

definition hexEncode :: "bytes \<Rightarrow> string" where
  "hexEncode bs = concat (map (\<lambda>c. [hexdigit (byte c div 16), hexdigit (byte c mod 16)]) bs)"

lemma hexdigit_range:
  assumes "n < 16"
  shows "48 \<le> byte (hexdigit n)" "byte (hexdigit n) < 103" "hexdigit n \<noteq> SP"
    "hexdigit n \<noteq> NL" "hexdigit n \<noteq> CR"
proof -
  have *: "48 \<le> byte (hexdigit n) \<and> byte (hexdigit n) < 103"
    using assms by (auto simp: hexdigit_def)
  then show "48 \<le> byte (hexdigit n)" "byte (hexdigit n) < 103" by auto
  show "hexdigit n \<noteq> SP" "hexdigit n \<noteq> NL" "hexdigit n \<noteq> CR"
    using * by (auto simp del: of_char_eq_iff dest: arg_cong[where f = "of_char :: char \<Rightarrow> nat"])
qed

lemma byte_less_256: "byte c < 256"
  using of_char_mod_256 [of c] by (metis mod_less_divisor zero_less_numeral)

lemma nibble_less [simp]: "byte c div 16 < 16"
  using byte_less_256 [of c] by (simp add: less_mult_imp_div_less)

lemma hexEncode_free:
  "SP \<notin> set (hexEncode bs)" "NL \<notin> set (hexEncode bs)" "CR \<notin> set (hexEncode bs)"
  by (auto simp: hexEncode_def hexdigit_range(3,4,5) [THEN not_sym])

lemma length_hexEncode [simp]: "length (hexEncode bs) = 2 * length bs"
  by (induction bs) (auto simp: hexEncode_def)

lemma hexdigit_inj: "m < 16 \<Longrightarrow> n < 16 \<Longrightarrow> hexdigit m = hexdigit n \<Longrightarrow> m = n"
  by (auto simp: hexdigit_def split: if_splits dest: arg_cong[where f = "of_char :: char \<Rightarrow> nat"])

lemma hexEncode_inj: "hexEncode xs = hexEncode ys \<Longrightarrow> xs = ys"
proof (induction xs arbitrary: ys)
  case Nil
  then show ?case by (cases ys) (auto simp: hexEncode_def)
next
  case (Cons x xs)
  then obtain y zs where ys: "ys = y # zs" by (cases ys) (auto simp: hexEncode_def)
  from Cons.prems ys have "byte x div 16 = byte y div 16" "byte x mod 16 = byte y mod 16"
    and tl: "hexEncode xs = hexEncode zs"
    by (auto simp: hexEncode_def intro: hexdigit_inj)
  then have "byte x = byte y" by (metis div_mult_mod_eq)
  with Cons.IH[OF tl] ys show ?case by simp
qed

section \<open>An instance of the library parameters\<close>

text \<open>
  A concrete record of library functions, for examples: it satisfies the hypotheses the
  theorems make about the library, so those hypotheses can hold together.
\<close>

definition sample_lib :: golib where
  "sample_lib = \<lparr>
     lib_rfc3339 = (\<lambda>t. ''T'' @ dec_int t),
     lib_timeFormat = (\<lambda>layout t. ''T'' @ dec_int t),
     lib_timeString = (\<lambda>t. ''T'' @ dec_int t),
     lib_durString = (\<lambda>w. AppendInt w @ ''ns''),
     lib_fmtFloat = (\<lambda>w. dec (unat w)),
     lib_sprintFloat = (\<lambda>w. dec (unat w)),
     lib_sprintOther = dec,
     lib_jsonMarshal = (\<lambda>i. if i = 0 then Inl (GoErr ''unsupported type'') else Inr (dec i)),
     lib_quote = (\<lambda>s. DQ # s @ [DQ]),
     lib_toLowerU = (\<lambda>s. s),
     lib_trimSpaceU = (\<lambda>s. s),
     lib_sha256 = (\<lambda>b. take 32 (rev b @ replicate 32 (CHR 0x00))),
     lib_frame = (\<lambda>pc. if pc = 0 then ([], 0, []) else (''/src/app/main.go'', 42, ''main.main''))\<rparr>"

end
