(* ===== verification/Level.thy ===== *)
theory Level
  imports Golib
begin

text \<open>
  Levels (\<open>level.go\<close>): the severity scale, its names, the dynamic level \<open>LevelVar\<close>; and the
  runtime level control of \<open>admin.go\<close>: \<open>parseLevel\<close> and the HTTP handler. A \<open>Level\<close> is a Go
  \<open>int\<close>; the code only compares levels, so an HOL integer is exact.
\<close>

section \<open>The severity scale\<close>

type_synonym Level = int

definition LevelTrace :: Level where [level_defs]: "LevelTrace = 1"
definition LevelDebug :: Level where [level_defs]: "LevelDebug = 5"
definition LevelInfo :: Level where [level_defs]: "LevelInfo = 9"
definition LevelWarn :: Level where [level_defs]: "LevelWarn = 13"
definition LevelError :: Level where [level_defs]: "LevelError = 17"
definition LevelFatal :: Level where [level_defs]: "LevelFatal = 21"

definition Level_String :: "Level \<Rightarrow> string" where
  "Level_String l =
     (if l \<le> 0 then ''UNSPECIFIED''
      else if l < LevelDebug then ''TRACE''
      else if l < LevelInfo then ''DEBUG''
      else if l < LevelWarn then ''INFO''
      else if l < LevelError then ''WARN''
      else if l < LevelFatal then ''ERROR''
      else ''FATAL'')"

definition SeverityNumber :: "Level \<Rightarrow> int" where
  "SeverityNumber l = l"

definition Level_lower :: "Level \<Rightarrow> string" where
  "Level_lower l =
     (if l \<le> 0 then ''unspecified''
      else if l < LevelDebug then ''trace''
      else if l < LevelInfo then ''debug''
      else if l < LevelWarn then ''info''
      else if l < LevelError then ''warn''
      else if l < LevelFatal then ''error''
      else ''fatal'')"

text \<open>\<open>MarshalText\<close> folds the band name to lower case byte by byte.\<close>

definition MarshalText :: "Level \<Rightarrow> bytes" where
  "MarshalText l =
     (let s = Level_String l
      in map (\<lambda>c. if byte CHR ''A'' \<le> byte c \<and> byte c \<le> byte CHR ''Z''
                  then char_of (byte c + (byte CHR ''a'' - byte CHR ''A'')) else c) s)"

definition appendNumeric :: "Level \<Rightarrow> bytes \<Rightarrow> bytes" where
  "appendNumeric l b = b @ dec_int l"

text \<open>
  The levels of the scale that has a name of its own: the anchor of the band a level
  belongs to.
\<close>

definition band :: "Level \<Rightarrow> Level" where
  "band l =
     (if l < LevelDebug then LevelTrace
      else if l < LevelInfo then LevelDebug
      else if l < LevelWarn then LevelInfo
      else if l < LevelError then LevelWarn
      else if l < LevelFatal then LevelError
      else LevelFatal)"

section \<open>Level sources\<close>

text \<open>
  A \<open>*LevelVar\<close> is shared by whoever holds the pointer, so its value lives in a store from
  addresses to levels; a \<open>staticLevel\<close> is a constant.
\<close>

type_synonym level_store = "nat \<Rightarrow> Level"

datatype Leveler = staticLevel Level | LevelVar nat

definition NewLevelVar :: "nat \<Rightarrow> Level \<Rightarrow> level_store \<Rightarrow> Leveler \<times> level_store" where
  "NewLevelVar a l st = (LevelVar a, st(a := l))"

fun Leveler_Level :: "level_store \<Rightarrow> Leveler \<Rightarrow> Level" where
  "Leveler_Level st (staticLevel l) = l"
| "Leveler_Level st (LevelVar a) = st a"

definition LevelVar_Set :: "nat \<Rightarrow> Level \<Rightarrow> level_store \<Rightarrow> level_store" where
  "LevelVar_Set a l st = st(a := l)"

section \<open>Runtime control\<close>

definition parseLevel :: "golib \<Rightarrow> string \<Rightarrow> Level option" where
  "parseLevel lib s0 =
     (let s = TrimSpace lib (ToLower lib s0)
      in if s = ''trace'' then Some LevelTrace
         else if s = ''debug'' then Some LevelDebug
         else if s = ''info'' then Some LevelInfo
         else if s = ''warn'' \<or> s = ''warning'' then Some LevelWarn
         else if s = ''error'' then Some LevelError
         else if s = ''fatal'' then Some LevelFatal
         else (case Atoi s of
             Some n \<Rightarrow> if 1 \<le> n \<and> n \<le> 24 then Some n else None
           | None \<Rightarrow> None))"

datatype http_method = MethodGet | MethodPut | MethodPost | MethodOther

text \<open>
  The part of a request the handler reads: the method, the query parameter \<open>level\<close> (empty
  when absent) and the bytes the first \<open>Body.Read\<close> has available, of which at most 16 are
  read. A response is a status, a content type and a body.
\<close>

record http_request =
  rq_method :: http_method
  rq_level :: string
  rq_body :: bytes

record http_response =
  rs_status :: int
  rs_ctype :: string
  rs_body :: bytes

definition httpError :: "string \<Rightarrow> int \<Rightarrow> http_response" where
  "httpError msg code =
     \<lparr>rs_status = code, rs_ctype = ''text/plain; charset=utf-8'', rs_body = msg @ [NL]\<rparr>"

definition LevelHandler_ServeHTTP ::
  "golib \<Rightarrow> nat \<Rightarrow> http_request \<Rightarrow> level_store \<Rightarrow> http_response \<times> level_store" where
  "LevelHandler_ServeHTTP lib lv r st =
     (case rq_method r of
        MethodGet \<Rightarrow>
          (let cur = Leveler_Level st (LevelVar lv)
           in (\<lparr>rs_status = 200, rs_ctype = ''application/json'',
                rs_body = ''{\"level\":\"'' @ MarshalText cur @ ''\",\"severity_number\":'' @
                  dec_int cur @ ''}'' @ [NL]\<rparr>, st))
      | MethodOther \<Rightarrow> (httpError ''method not allowed'' 405, st)
      | _ \<Rightarrow>
          (let val = (if rq_level r = [] then take 16 (rq_body r) else rq_level r)
           in case parseLevel lib val of
                None \<Rightarrow> (httpError (''bad level: '' @ val) 400, st)
              | Some lvl \<Rightarrow>
                  (\<lparr>rs_status = 200, rs_ctype = [],
                    rs_body = ''{\"level\":\"'' @ MarshalText lvl @ ''\"}'' @ [NL]\<rparr>,
                   LevelVar_Set lv lvl st)))"

section \<open>Lemmas\<close>

lemma MarshalText_eq: "MarshalText l = Level_lower l"
  by (simp add: MarshalText_def Level_String_def Level_lower_def Let_def char_of_eq_iff)

text \<open>The two renderings of a level agree: the byte-wise folding of \<open>MarshalText\<close> (used by
  the HTTP handler) gives exactly the constant strings of \<open>lower\<close> (used by the encoders), for
  every integer level, custom and out-of-range ones included.\<close>

lemma MarshalText_lower: "MarshalText l = Level_lower l"
  by (rule MarshalText_eq)

lemma trimASCII_id:
  assumes "\<And>c. c \<in> set s \<Longrightarrow> \<not> asciiSpace c"
  shows "trimASCII s = s"
proof -
  have *: "dropWhile asciiSpace t = t" if "set t = set s" for t
    using assms that by (cases t) auto
  show ?thesis by (simp add: trimASCII_def *)
qed

lemma parseLevel_word:
  assumes "isASCII s" "\<And>c. c \<in> set s \<Longrightarrow> \<not> asciiSpace (lower_byte c)"
    "isASCII (map lower_byte s)"
  shows "TrimSpace lib (ToLower lib s) = map lower_byte s"
  using assms by (simp add: TrimSpace_def ToLower_def) (rule trimASCII_id, auto)

lemma lower_word:
  "s \<in> {''trace'', ''debug'', ''info'', ''warn'', ''error'', ''fatal''} \<Longrightarrow>
   TrimSpace lib (ToLower lib s) = s"
  by (subst parseLevel_word) (auto simp: isASCII_def lower_byte_def asciiSpace_def)

lemma Level_lower_word:
  "0 < l \<Longrightarrow> Level_lower l \<in> {''trace'', ''debug'', ''info'', ''warn'', ''error'', ''fatal''}"
  by (simp add: Level_lower_def)

lemma parse_lower:
  assumes "0 < l"
  shows "parseLevel lib (Level_lower l) = Some (band l)"
proof -
  have "TrimSpace lib (ToLower lib (Level_lower l)) = Level_lower l"
    using lower_word[OF Level_lower_word[OF assms]] .
  then show ?thesis
    using assms by (simp add: parseLevel_def Level_lower_def band_def)
qed

text \<open>Every level of the scale survives a print/parse round trip up to its band: parsing the
  lower-case name of a positive level gives the anchor of the level's band, whatever the
  Unicode part of the library does.\<close>

lemma parseLevel_lower:
  assumes "0 < l"
  shows "parseLevel lib (Level_lower l) = Some (band l)"
  using assms by (rule parse_lower)

theorem parseLevel_lower_witness:
  "(0::int) < 14 \<and> parseLevel sample_lib (Level_lower 14) = Some LevelWarn"
  using parseLevel_lower [of 14 sample_lib] by (simp add: band_def level_defs)

lemma parseLevel_range: "parseLevel lib s = Some l \<Longrightarrow> 1 \<le> l \<and> l \<le> 24"
  by (auto simp: parseLevel_def Let_def level_defs split: if_splits option.splits)

lemma Level_lower_band: "0 < l \<Longrightarrow> Level_lower (band l) = Level_lower l"
  by (simp add: Level_lower_def band_def level_defs)

text \<open>What one request can do to the level store. A request changes at most the handler's own
  \<open>LevelVar\<close>, only by PUT or POST, only to a level in 1..24 and only with status 200; a
  rejected value (400), an unknown method (405) and a GET leave the store as it was.\<close>

lemma LevelHandler_safe:
  assumes "LevelHandler_ServeHTTP lib lv r st = (resp, st')"
  shows "(\<forall>a. a \<noteq> lv \<longrightarrow> st' a = st a)
       \<and> (st' lv \<noteq> st lv \<longrightarrow>
            rq_method r \<in> {MethodPut, MethodPost} \<and> rs_status resp = 200 \<and> 1 \<le> st' lv \<and> st' lv \<le> 24)
       \<and> (rs_status resp \<noteq> 200 \<longrightarrow> st' = st)"
  using assms parseLevel_range
  by (fastforce simp: LevelHandler_ServeHTTP_def LevelVar_Set_def httpError_def Let_def
      split: http_method.splits option.splits)

theorem LevelHandler_safe_witness:
  "LevelHandler_ServeHTTP sample_lib 0
       \<lparr>rq_method = MethodPut, rq_level = ''warn'', rq_body = []\<rparr> (\<lambda>_. 9)
     = (\<lparr>rs_status = 200, rs_ctype = [], rs_body = ''{\"level\":\"warn\"}'' @ [NL]\<rparr>, (\<lambda>_. 9)(0 := 13))
   \<and> (\<forall>a. a \<noteq> (0::nat) \<longrightarrow> ((\<lambda>_. 9)(0 := 13)) a = (9 :: int))"
proof -
  have p: "parseLevel sample_lib ''warn'' = Some 13"
    using lower_word [of "''warn''" sample_lib] by (simp add: parseLevel_def level_defs)
  have m: "MarshalText 13 = ''warn''"
    by (simp add: MarshalText_eq Level_lower_def level_defs)
  have h: "LevelHandler_ServeHTTP sample_lib 0
       \<lparr>rq_method = MethodPut, rq_level = ''warn'', rq_body = []\<rparr> (\<lambda>_. 9)
     = (\<lparr>rs_status = 200, rs_ctype = [], rs_body = ''{\"level\":\"warn\"}'' @ [NL]\<rparr>, (\<lambda>_. 9)(0 := 13))"
    by (simp add: LevelHandler_ServeHTTP_def p m LevelVar_Set_def)
  from h LevelHandler_safe [OF h, THEN conjunct1] show ?thesis by (rule conjI)
qed

text \<open>Setting a level by name and reading it back: after a PUT or POST naming any positive
  level, a GET reports that name and the severity number of the band's anchor.\<close>

lemma LevelHandler_put_get:
  assumes "0 < l" and "rq_method r \<in> {MethodPut, MethodPost}" and "rq_level r = Level_lower l"
    and "rq_method g = MethodGet"
  shows "rs_body (fst (LevelHandler_ServeHTTP lib lv g (snd (LevelHandler_ServeHTTP lib lv r st))))
    = ''{\"level\":\"'' @ Level_lower l @ ''\",\"severity_number\":'' @ dec_int (band l) @ ''}'' @ [NL]"
proof -
  have "rq_level r \<noteq> []" using Level_lower_word[OF assms(1)] assms(3) by auto
  then have *: "snd (LevelHandler_ServeHTTP lib lv r st) = st(lv := band l)"
    using assms(2,3) parse_lower [OF assms(1), of lib]
    by (auto simp: LevelHandler_ServeHTTP_def LevelVar_Set_def split: http_method.splits)
  show ?thesis
    unfolding * using assms(4) Level_lower_band [OF assms(1)]
    by (simp add: LevelHandler_ServeHTTP_def MarshalText_eq Let_def)
qed

theorem LevelHandler_put_get_witness:
  "rs_body (fst (LevelHandler_ServeHTTP sample_lib 3
       \<lparr>rq_method = MethodGet, rq_level = [], rq_body = []\<rparr>
       (snd (LevelHandler_ServeHTTP sample_lib 3
         \<lparr>rq_method = MethodPost, rq_level = Level_lower 6, rq_body = []\<rparr> (\<lambda>_. 9)))))
   = ''{\"level\":\"debug\",\"severity_number\":5}'' @ [NL]"
proof -
  have d: "dec_int 5 = ''5''"
    by (simp add: dec_int_def dec.simps [of 5] digit_def char_of_eq_iff)
  show ?thesis
    using LevelHandler_put_get [of 6 "\<lparr>rq_method = MethodPost, rq_level = Level_lower 6, rq_body = []\<rparr>"
        "\<lparr>rq_method = MethodGet, rq_level = [], rq_body = []\<rparr>" sample_lib 3 "\<lambda>_. 9"]
    by (simp add: d Level_lower_def band_def level_defs del: fun_upd_apply)
qed

end
