(* ===== verification/Field_Value.thy ===== *)
theory Field_Value
  imports Golib
begin

text \<open>
  Fields (\<open>field.go\<close>, \<open>math.go\<close>): a key and a value stored unboxed by kind. The typed
  constructors, the boxing accessor \<open>Value\<close> and the unboxed accessors of the encoders.
\<close>

section \<open>Data\<close>

datatype kind =
    kindAny | kindString | kindInt64 | kindUint64 | kindFloat64 | kindBool
  | kindDuration | kindTime | kindError

record Field =
  fKey :: string
  fknd :: kind
  fnum :: u64
  fstr :: string
  fany :: goval

text \<open>A struct literal leaves the fields it does not name at their zero values.\<close>

definition mkField :: "string \<Rightarrow> kind \<Rightarrow> u64 \<Rightarrow> string \<Rightarrow> goval \<Rightarrow> Field" where
  "mkField k kd n s a = \<lparr>fKey = k, fknd = kd, fnum = n, fstr = s, fany = a\<rparr>"

section \<open>Constructors\<close>

definition FString :: "string \<Rightarrow> string \<Rightarrow> Field" where
  "FString key val = mkField key kindString 0 val VNil"

text \<open>
  The generic \<open>Int[T]\<close> is instantiated at an integer type, given by signedness and width;
  \<open>wrapT\<close> reduces a value to the type, as Go's arithmetic on \<open>T\<close> does. The code finds out
  whether \<open>T\<close> is signed by computing \<open>T(0)-1 < T(0)\<close>.
\<close>

datatype intty = IntTy (ty_signed: bool) (ty_bits: nat)

definition wrapT :: "intty \<Rightarrow> int \<Rightarrow> int" where
  "wrapT T v = (if ty_signed T then signed_take_bit (ty_bits T - 1) v else take_bit (ty_bits T) v)"

definition FInt :: "intty \<Rightarrow> string \<Rightarrow> int \<Rightarrow> Field" where
  "FInt T key v =
     (if wrapT T (wrapT T 0 - 1) < wrapT T 0
      then mkField key kindInt64 (word_of_int v) [] VNil
      else mkField key kindUint64 (word_of_int v) [] VNil)"

definition FFloat :: "string \<Rightarrow> u64 \<Rightarrow> Field" where
  "FFloat key bits = mkField key kindFloat64 bits [] VNil"

definition FBool :: "string \<Rightarrow> bool \<Rightarrow> Field" where
  "FBool key v = mkField key kindBool (if v then 1 else 0) [] VNil"

definition FDur :: "string \<Rightarrow> u64 \<Rightarrow> Field" where
  "FDur key d = mkField key kindDuration d [] VNil"

definition FTime :: "string \<Rightarrow> gtime \<Rightarrow> Field" where
  "FTime key t = mkField key kindTime (UnixNano t) [] VNil"

definition errAny :: "goerr option \<Rightarrow> goval" where
  "errAny e = (case e of None \<Rightarrow> VNil | Some x \<Rightarrow> VError x)"

definition FErr :: "goerr option \<Rightarrow> Field" where
  "FErr e = mkField ''error'' kindError 0 [] (errAny e)"

definition FNamedErr :: "string \<Rightarrow> goerr option \<Rightarrow> Field" where
  "FNamedErr key e = mkField key kindError 0 [] (errAny e)"

definition FAny :: "string \<Rightarrow> goval \<Rightarrow> Field" where
  "FAny key v = mkField key kindAny 0 [] v"

lemmas field_cons_defs = FString_def FInt_def FFloat_def FBool_def FDur_def FTime_def
  FErr_def FNamedErr_def FAny_def mkField_def

section \<open>Accessors\<close>

definition errVal :: "Field \<Rightarrow> goerr option" where
  "errVal f = (case fany f of VError e \<Rightarrow> Some e | _ \<Rightarrow> None)"

definition field_int64 :: "Field \<Rightarrow> u64" where "field_int64 f = fnum f"
definition field_bool :: "Field \<Rightarrow> bool" where "field_bool f = (fnum f \<noteq> 0)"
definition field_time :: "Field \<Rightarrow> gtime" where "field_time f = time_Unix (fnum f)"

definition Value :: "Field \<Rightarrow> goval" where
  "Value f =
     (case fknd f of
        kindString \<Rightarrow> VString (fstr f)
      | kindInt64 \<Rightarrow> VInt64 (fnum f)
      | kindUint64 \<Rightarrow> VUint64 (fnum f)
      | kindFloat64 \<Rightarrow> VFloat64 (fnum f)
      | kindBool \<Rightarrow> VBool (fnum f \<noteq> 0)
      | kindDuration \<Rightarrow> VDuration (fnum f)
      | kindTime \<Rightarrow> VTime (time_Unix (fnum f))
      | kindError \<Rightarrow> errAny (errVal f)
      | kindAny \<Rightarrow> fany f)"

section \<open>Lemmas\<close>

lemma fKey_cons [simp]:
  "fKey (FString k s) = k" "fKey (FInt T k v) = k" "fKey (FFloat k w) = k" "fKey (FBool k b) = k"
  "fKey (FDur k w) = k" "fKey (FTime k t) = k" "fKey (FErr e) = ''error''"
  "fKey (FNamedErr k e) = k" "fKey (FAny k a) = k"
  by (simp_all add: field_cons_defs)

lemma Value_cons [simp]:
  "Value (FString k s) = VString s" "Value (FFloat k w) = VFloat64 w" "Value (FBool k b) = VBool b"
  "Value (FDur k w) = VDuration w" "Value (FNamedErr k e) = errAny e" "Value (FErr e) = errAny e"
  "Value (FAny k a) = a"
  by (auto simp: field_cons_defs Value_def errVal_def errAny_def split: option.splits)

text \<open>\<open>int_of_goval\<close> reads an integer value at its own signedness.\<close>

fun int_of_goval :: "goval \<Rightarrow> int option" where
  "int_of_goval (VInt64 w) = Some (sint w)"
| "int_of_goval (VUint64 w) = Some (uint w)"
| "int_of_goval _ = None"

lemma wrapT_sign: "0 < ty_bits T \<Longrightarrow> wrapT T (wrapT T 0 - 1) < wrapT T 0 \<longleftrightarrow> ty_signed T"
  by (simp add: wrapT_def)

lemma wrapT_fits_signed:
  assumes "0 < b" "b \<le> 64" "signed_take_bit (b - 1) v = v"
  shows "sint (word_of_int v :: u64) = v"
proof -
  have "signed_take_bit 63 v = signed_take_bit 63 (signed_take_bit (b - 1) v)" using assms(3) by simp
  also have "\<dots> = signed_take_bit (b - 1) v"
    using assms(1,2) by (simp add: signed_take_bit_signed_take_bit min_absorb2)
  finally show ?thesis using assms(3) by (simp add: sint_sbintrunc')
qed

lemma wrapT_fits_unsigned:
  assumes "b \<le> 64" "take_bit b v = v"
  shows "uint (word_of_int v :: u64) = v"
proof -
  have "take_bit 64 v = take_bit 64 (take_bit b v)" using assms(2) by simp
  also have "\<dots> = take_bit b v" using assms(1) by (simp add: min_def)
  finally show ?thesis using assms(2) by (simp add: uint_word_of_int_eq)
qed

text \<open>Boxing an integer field gives the integer back, for every Go integer type of at most 64
  bits: the constructor's run-time test finds the signedness of the type, and sign extension
  into the 64-bit slot and back loses nothing.\<close>

lemma FInt_Value:
  assumes "0 < ty_bits T" "ty_bits T \<le> 64" "wrapT T v = v"
  shows "int_of_goval (Value (FInt T k v)) = Some v
    \<and> fknd (FInt T k v) = (if ty_signed T then kindInt64 else kindUint64)"
proof (cases "ty_signed T")
  case True
  with assms show ?thesis
    using wrapT_fits_signed [of "ty_bits T" v] wrapT_sign [of T]
    by (simp add: FInt_def mkField_def Value_def wrapT_def)
next
  case False
  with assms show ?thesis
    using wrapT_fits_unsigned [of "ty_bits T" v] wrapT_sign [of T]
    by (simp add: FInt_def mkField_def Value_def wrapT_def)
qed

theorem FInt_Value_witness:
  "wrapT (IntTy True 8) (-128) = -128
   \<and> int_of_goval (Value (FInt (IntTy True 8) ''k'' (-128))) = Some (-128)"
proof -
  have w: "wrapT (IntTy True 8) (-128) = -128" by (simp add: wrapT_def)
  with FInt_Value [of "IntTy True 8" "-128" "''k''"] show ?thesis by simp
qed

lemma FTime_Value:
  assumes "- (2 ^ 63) \<le> t - unixEpoch" "t - unixEpoch < 2 ^ 63"
  shows "Value (FTime k t) = VTime t"
  using assms time_Unix_UnixNano [of t] by (simp add: FTime_def mkField_def Value_def)

end
