(* ===== verification/Log_Record.thy ===== *)
theory Log_Record
  imports Level Field_Value
begin

text \<open>
  Records, contexts and the record pool (\<open>record.go\<close>, \<open>caller.go\<close> and the context helpers of
  \<open>enrich.go\<close>). Records are pooled: \<open>newRecord\<close> may hand out a record used before, \<open>release\<close>
  resets a pooled record and returns it, \<open>Clone\<close> makes an unpooled copy.
\<close>

section \<open>Contexts\<close>

text \<open>
  A \<open>context.Context\<close> is the chain of the bindings added by \<open>WithValue\<close>, innermost first.
  The logger's private keys hold pointers (addresses of a debug-on-error buffer or of a span
  state) or the bound fields; a user key holds any value.
\<close>

datatype ctx_key = fcKey | spanKey | ctxFieldsKey | userKey string

datatype ctx_val = CVfc nat | CVspan nat | CVfields "Field list" | CVuser goval

type_synonym gctx = "(ctx_key \<times> ctx_val) list"

definition Background :: gctx where
  "Background = []"

definition ctx_Value :: "gctx \<Rightarrow> ctx_key \<Rightarrow> ctx_val option" where
  "ctx_Value c k = map_of c k"

definition WithValue :: "gctx \<Rightarrow> ctx_key \<Rightarrow> ctx_val \<Rightarrow> gctx" where
  "WithValue c k v = (k, v) # c"

lemma ctx_Value_WithValue [simp]:
  "ctx_Value (WithValue c k v) j = (if j = k then Some v else ctx_Value c j)"
  by (simp add: ctx_Value_def WithValue_def)

lemma ctx_Value_Background [simp]: "ctx_Value Background k = None"
  by (simp add: ctx_Value_def Background_def)

definition bound_fields :: "gctx \<Rightarrow> Field list" where
  "bound_fields c = (case ctx_Value c ctxFieldsKey of Some (CVfields fs) \<Rightarrow> fs | _ \<Rightarrow> [])"

definition ContextWith :: "gctx \<Rightarrow> Field list \<Rightarrow> gctx" where
  "ContextWith c fs =
     (let prev = bound_fields c; merged = prev @ fs
      in WithValue c ctxFieldsKey (CVfields merged))"

definition ctxOr :: "gctx option \<Rightarrow> gctx" where
  "ctxOr c = (case c of None \<Rightarrow> Background | Some x \<Rightarrow> x)"

section \<open>Records\<close>

record Record =
  rTime :: gtime
  rLevel :: Level
  rMessage :: string
  rPC :: u64
  rEventName :: string
  rFields :: "Field list"
  rCtx :: "gctx option"
  rPooled :: bool

definition zeroRecord :: Record where
  "zeroRecord = \<lparr>rTime = 0, rLevel = 0, rMessage = [], rPC = 0, rEventName = [], rFields = [],
     rCtx = None, rPooled = False\<rparr>"

text \<open>
  \<open>sync.Pool\<close> keeps an unspecified subset of what was put: \<open>Get\<close> returns one of the pooled
  records, whichever (\<open>pick\<close>), or a new one.
\<close>

definition newRecord :: "nat option \<Rightarrow> Record list \<Rightarrow> Record \<times> Record list" where
  "newRecord pick pool =
     (let (r, pool') = (case pick of
          None \<Rightarrow> (zeroRecord, pool)
        | Some i \<Rightarrow> if i < length pool then (pool ! i, take i pool @ drop (Suc i) pool)
                    else (zeroRecord, pool))
      in (r\<lparr>rPooled := True\<rparr>, pool'))"

definition reset :: "Record \<Rightarrow> Record" where
  "reset r = r\<lparr>rTime := 0, rLevel := 0, rMessage := [], rEventName := [], rPC := 0,
     rFields := [], rCtx := None\<rparr>"

definition release :: "Record \<Rightarrow> Record list \<Rightarrow> Record list" where
  "release r pool = (if \<not> rPooled r then pool else pool @ [reset r])"

definition Clone :: "Record \<Rightarrow> Record" where
  "Clone r = zeroRecord\<lparr>rTime := rTime r, rLevel := rLevel r, rMessage := rMessage r,
     rEventName := rEventName r, rPC := rPC r, rCtx := rCtx r, rFields := [] @ rFields r\<rparr>"

definition AddField :: "Field \<Rightarrow> Record \<Rightarrow> Record" where
  "AddField f r = r\<lparr>rFields := rFields r @ [f]\<rparr>"

section \<open>Caller location\<close>

definition LastIndexByte :: "string \<Rightarrow> char \<Rightarrow> int" where
  "LastIndexByte s c =
     (if c \<in> set s then int (length s) - 1 - int (length (takeWhile (\<lambda>x. x \<noteq> c) (rev s))) else -1)"

definition source :: "golib \<Rightarrow> Record \<Rightarrow> (string \<times> int \<times> string) option" where
  "source lib r =
     (if rPC r = 0 then None
      else (let (file0, line, fn) = lib_frame lib (rPC r)
            in if file0 = [] then None
               else (let i = LastIndexByte file0 CHR ''/'';
                         file = (if 0 \<le> i
                                 then (let j = LastIndexByte (take (nat i) file0) CHR ''/''
                                       in if 0 \<le> j then drop (nat (j + 1)) file0
                                          else drop (nat (i + 1)) file0)
                                 else file0)
                     in Some (file, line, fn))))"

section \<open>Lemmas\<close>

definition pool_inv :: "Record list \<Rightarrow> bool" where
  "pool_inv pool = list_all (\<lambda>r. reset r = r \<and> rPooled r) pool"

definition freshRecord :: Record where
  "freshRecord = zeroRecord\<lparr>rPooled := True\<rparr>"

lemma reset_pooled: "reset r = r \<Longrightarrow> r\<lparr>rPooled := True\<rparr> = freshRecord"
  by (cases r) (simp add: reset_def freshRecord_def zeroRecord_def)

lemma newRecord_fresh:
  assumes "pool_inv pool"
  shows "fst (newRecord pick pool) = freshRecord"
  using assms reset_pooled
  by (auto simp: newRecord_def pool_inv_def list_all_length freshRecord_def split: option.split)

lemma pool_inv_newRecord [inv_intros]:
  assumes "pool_inv pool"
  shows "pool_inv (snd (newRecord pick pool))"
  using assms
  by (auto simp: newRecord_def pool_inv_def list_all_iff split: option.split
      dest: in_set_takeD in_set_dropD)

lemma pool_inv_release [inv_intros]: "pool_inv pool \<Longrightarrow> pool_inv (release r pool)"
  by (simp add: release_def pool_inv_def reset_def)

lemma pool_inv_Nil [inv_intros]: "pool_inv []"
  by (simp add: pool_inv_def)

lemma Clone_simps [simp]:
  "rTime (Clone r) = rTime r" "rLevel (Clone r) = rLevel r" "rMessage (Clone r) = rMessage r"
  "rEventName (Clone r) = rEventName r" "rPC (Clone r) = rPC r" "rCtx (Clone r) = rCtx r"
  "rFields (Clone r) = rFields r" "\<not> rPooled (Clone r)"
  by (simp_all add: Clone_def zeroRecord_def)

lemma Clone_idem [simp]: "Clone (Clone r) = Clone r"
  by (simp add: Clone_def)

lemma release_Clone [simp]: "release (Clone r) pool = pool"
  by (simp add: release_def)

lemma ContextWith_bound [simp]: "bound_fields (ContextWith c fs) = bound_fields c @ fs"
  by (simp add: ContextWith_def bound_fields_def Let_def)

lemma ContextWith_other [simp]: "k \<noteq> ctxFieldsKey \<Longrightarrow> ctx_Value (ContextWith c fs) k = ctx_Value c k"
  by (simp add: ContextWith_def Let_def)

end
