(* ===== verification/Buffer_JSON.thy ===== *)
theory Buffer_JSON
  imports Log_Record
begin

text \<open>
  The pooled byte builder (\<open>buffer.go\<close>): its append operations, the JSON string writer and
  the buffer pool; and, as the specification of what a JSON writer must produce, the grammar
  of RFC 8259 (without insignificant white space, which the writers never emit) and a reader
  of JSON strings.
\<close>

section \<open>The buffer\<close>

text \<open>A buffer is its contents; \<open>append\<close> is concatenation.\<close>

definition writeString :: "string \<Rightarrow> bytes \<Rightarrow> bytes" where
  "writeString s b = b @ s"

definition writeByte :: "char \<Rightarrow> bytes \<Rightarrow> bytes" where
  "writeByte c b = b @ [c]"

definition writeInt :: "u64 \<Rightarrow> bytes \<Rightarrow> bytes" where
  "writeInt i b = b @ AppendInt i"

definition writeUint :: "u64 \<Rightarrow> bytes \<Rightarrow> bytes" where
  "writeUint u b = b @ AppendUint u"

definition writeFloat :: "golib \<Rightarrow> u64 \<Rightarrow> bytes \<Rightarrow> bytes" where
  "writeFloat lib f b = b @ AppendFloat lib f"

definition writeBool :: "bool \<Rightarrow> bytes \<Rightarrow> bytes" where
  "writeBool v b = b @ AppendBool v"

definition writeTimeRFC3339 :: "golib \<Rightarrow> gtime \<Rightarrow> bytes \<Rightarrow> bytes" where
  "writeTimeRFC3339 lib t b = b @ lib_rfc3339 lib t"

lemmas write_defs = writeString_def writeByte_def writeInt_def writeUint_def writeFloat_def
  writeBool_def writeTimeRFC3339_def

definition hexDigit :: "nat \<Rightarrow> char" where
  "hexDigit n = (if n < 10 then char_of (byte CHR ''0'' + n) else char_of (byte CHR ''a'' + n - 10))"

text \<open>
  \<open>writeJSONString\<close>: one pass over the bytes that copies the longest unescaped stretches
  (\<open>s[start:i]\<close>) and writes an escape for each byte below \<open>0x20\<close>, quote and backslash.
\<close>

definition jsonPlain :: "char \<Rightarrow> bool" where
  "jsonPlain c = (0x20 \<le> byte c \<and> c \<noteq> DQ \<and> c \<noteq> BSL)"

definition jsonEscape :: "char \<Rightarrow> bytes" where
  "jsonEscape c =
     (if c = DQ then [BSL, DQ]
      else if c = BSL then [BSL, BSL]
      else if c = NL then [BSL, CHR ''n'']
      else if c = CR then [BSL, CHR ''r'']
      else if c = TAB then [BSL, CHR ''t'']
      else [BSL, CHR ''u'', CHR ''0'', CHR ''0'', hexDigit (byte c div 16), hexDigit (byte c mod 16)])"

function wjs_loop :: "string \<Rightarrow> nat \<Rightarrow> nat \<Rightarrow> bytes \<Rightarrow> bytes" where
  "wjs_loop s start i b =
     (if i < length s then
        (if jsonPlain (s ! i) then wjs_loop s start (i + 1) b
         else wjs_loop s (i + 1) (i + 1) (b @ take (i - start) (drop start s) @ jsonEscape (s ! i)))
      else b @ drop start s)"
  by pat_completeness auto
termination
  by (relation "measure (\<lambda>(s, start, i, b). length s - i)") auto

declare wjs_loop.simps [simp del]

definition writeJSONString :: "string \<Rightarrow> bytes \<Rightarrow> bytes" where
  "writeJSONString s b = wjs_loop s 0 0 (b @ [DQ]) @ [DQ]"

section \<open>The buffer pool\<close>

text \<open>
  A pooled buffer is its contents and its capacity. \<open>putBuffer\<close> keeps a buffer only when its
  capacity is at most 64 KiB, and empties it.
\<close>

definition getBuffer :: "nat option \<Rightarrow> (bytes \<times> nat) list \<Rightarrow> (bytes \<times> nat) \<times> (bytes \<times> nat) list" where
  "getBuffer pick pool =
     (case pick of
        None \<Rightarrow> (([], 512), pool)
      | Some i \<Rightarrow> if i < length pool then (pool ! i, take i pool @ drop (Suc i) pool)
                  else (([], 512), pool))"

definition putBuffer :: "bytes \<times> nat \<Rightarrow> (bytes \<times> nat) list \<Rightarrow> (bytes \<times> nat) list" where
  "putBuffer b pool = (if snd b \<le> 64 * 1024 then pool @ [([], snd b)] else pool)"

definition bufpool_inv :: "(bytes \<times> nat) list \<Rightarrow> bool" where
  "bufpool_inv pool = list_all (\<lambda>(b, c). b = [] \<and> c \<le> 64 * 1024) pool"

lemma getBuffer_empty: "bufpool_inv pool \<Longrightarrow> fst (fst (getBuffer pick pool)) = []"
  by (auto simp: getBuffer_def bufpool_inv_def list_all_length split: option.split prod.splits)
    (metis fst_conv prod.collapse)

lemma bufpool_inv_get [inv_intros]: "bufpool_inv pool \<Longrightarrow> bufpool_inv (snd (getBuffer pick pool))"
  by (auto simp: getBuffer_def bufpool_inv_def list_all_iff split: option.split
      dest: in_set_takeD in_set_dropD)

lemma bufpool_inv_put [inv_intros]: "bufpool_inv pool \<Longrightarrow> bufpool_inv (putBuffer b pool)"
  by (simp add: putBuffer_def bufpool_inv_def)

section \<open>The JSON grammar\<close>

abbreviation isDigit :: "char \<Rightarrow> bool" where
  "isDigit c \<equiv> 48 \<le> byte c \<and> byte c \<le> 57"

definition isHex :: "char \<Rightarrow> bool" where
  "isHex c = (isDigit c \<or> (97 \<le> byte c \<and> byte c \<le> 102) \<or> (65 \<le> byte c \<and> byte c \<le> 70))"

inductive json_chars :: "string \<Rightarrow> bool" where
  jc_empty: "json_chars []"
| jc_plain: "jsonPlain c \<Longrightarrow> json_chars s \<Longrightarrow> json_chars (c # s)"
| jc_escape: "e \<in> {DQ, BSL, CHR ''/'', CHR ''b'', CHR ''f'', CHR ''n'', CHR ''r'', CHR ''t''} \<Longrightarrow>
     json_chars s \<Longrightarrow> json_chars (BSL # e # s)"
| jc_unicode: "isHex h1 \<Longrightarrow> isHex h2 \<Longrightarrow> isHex h3 \<Longrightarrow> isHex h4 \<Longrightarrow>
     json_chars s \<Longrightarrow> json_chars (BSL # CHR ''u'' # h1 # h2 # h3 # h4 # s)"

definition json_string :: "string \<Rightarrow> bool" where
  "json_string s = (\<exists>t. json_chars t \<and> s = DQ # t @ [DQ])"

definition digits1 :: "string \<Rightarrow> bool" where
  "digits1 s = (s \<noteq> [] \<and> (\<forall>c \<in> set s. isDigit c))"

definition json_int :: "string \<Rightarrow> bool" where
  "json_int s = (digits1 s \<and> (s = ''0'' \<or> hd s \<noteq> CHR ''0''))"

definition json_frac :: "string \<Rightarrow> bool" where
  "json_frac s = (s = [] \<or> (\<exists>d. s = CHR ''.'' # d \<and> digits1 d))"

definition json_exp :: "string \<Rightarrow> bool" where
  "json_exp s = (s = [] \<or> (\<exists>e sg d. s = e # sg @ d \<and> e \<in> {CHR ''e'', CHR ''E''} \<and>
     sg \<in> {[], ''+'', ''-''} \<and> digits1 d))"

definition json_number :: "string \<Rightarrow> bool" where
  "json_number s = (\<exists>sg i f e. s = sg @ i @ f @ e \<and> sg \<in> {[], ''-''} \<and>
     json_int i \<and> json_frac f \<and> json_exp e)"

inductive json_value :: "string \<Rightarrow> bool"
  and json_elems :: "string \<Rightarrow> bool"
  and json_members :: "string \<Rightarrow> bool" where
  jv_null: "json_value ''null''"
| jv_true: "json_value ''true''"
| jv_false: "json_value ''false''"
| jv_number: "json_number s \<Longrightarrow> json_value s"
| jv_string: "json_string s \<Longrightarrow> json_value s"
| jv_array0: "json_value ''[]''"
| jv_array: "json_elems s \<Longrightarrow> json_value (CHR ''['' # s @ '']'')"
| jv_object0: "json_value ''{}''"
| jv_object: "json_members s \<Longrightarrow> json_value (CHR ''{'' # s @ ''}'')"
| je_one: "json_value v \<Longrightarrow> json_elems v"
| je_cons: "json_value v \<Longrightarrow> json_elems s \<Longrightarrow> json_elems (v @ CHR '','' # s)"
| jm_one: "json_string k \<Longrightarrow> json_value v \<Longrightarrow> json_members (k @ CHR '':'' # v)"
| jm_cons: "json_string k \<Longrightarrow> json_value v \<Longrightarrow> json_members s \<Longrightarrow>
     json_members (k @ CHR '':'' # v @ CHR '','' # s)"

section \<open>Reading a JSON string\<close>

definition hexVal :: "char \<Rightarrow> nat option" where
  "hexVal c =
     (if isDigit c then Some (byte c - 48)
      else if 97 \<le> byte c \<and> byte c \<le> 102 then Some (byte c - 87)
      else if 65 \<le> byte c \<and> byte c \<le> 70 then Some (byte c - 55)
      else None)"

text \<open>
  \<open>read_escape\<close> reads what follows a backslash, \<open>read_json_chars\<close> decodes up to the closing
  quote and returns the rest; \<open>\u00xy\<close> is the only Unicode escape it accepts, which is the
  only one the writer emits.
\<close>

definition read_escape :: "string \<Rightarrow> (char \<times> string) option" where
  "read_escape s =
     (case s of
        [] \<Rightarrow> None
      | c # cs \<Rightarrow>
          if c = DQ \<or> c = BSL \<or> c = CHR ''/'' then Some (c, cs)
          else if c = CHR ''n'' then Some (NL, cs)
          else if c = CHR ''r'' then Some (CR, cs)
          else if c = CHR ''t'' then Some (TAB, cs)
          else if c = CHR ''b'' then Some (CHR 0x08, cs)
          else if c = CHR ''f'' then Some (CHR 0x0C, cs)
          else if c = CHR ''u'' then
            (case cs of
               z1 # z2 # h # l # rest \<Rightarrow>
                 (if z1 = CHR ''0'' \<and> z2 = CHR ''0'' then
                    (case (hexVal h, hexVal l) of
                       (Some a, Some b) \<Rightarrow> Some (char_of (16 * a + b), rest)
                     | _ \<Rightarrow> None)
                  else None)
             | _ \<Rightarrow> None)
          else None)"

lemma read_escape_length: "read_escape s = Some (c, rest) \<Longrightarrow> length rest < length s"
  by (auto simp: read_escape_def split: list.splits if_splits option.splits)

function read_json_chars :: "string \<Rightarrow> (string \<times> string) option" where
  "read_json_chars [] = None"
| "read_json_chars (c # cs) =
     (if c = DQ then Some ([], cs)
      else if c = BSL then
        (case read_escape cs of
           None \<Rightarrow> None
         | Some (d, rest) \<Rightarrow> map_option (\<lambda>(s, r). (d # s, r)) (read_json_chars rest))
      else if 0x20 \<le> byte c then map_option (\<lambda>(s, r). (c # s, r)) (read_json_chars cs)
      else None)"
  by pat_completeness auto
termination
  by (relation "measure length") (auto dest: read_escape_length)

definition read_json_string :: "string \<Rightarrow> (string \<times> string) option" where
  "read_json_string s = (case s of c # cs \<Rightarrow> if c = DQ then read_json_chars cs else None | [] \<Rightarrow> None)"

section \<open>The string writer is correct\<close>

text \<open>The reference definition: byte by byte.\<close>

definition json_enc1 :: "char \<Rightarrow> bytes" where
  "json_enc1 c = (if jsonPlain c then [c] else jsonEscape c)"

definition json_encode_string :: "string \<Rightarrow> bytes" where
  "json_encode_string s = DQ # concat (map json_enc1 s) @ [DQ]"

lemma concat_plain: "(\<And>c. c \<in> set s \<Longrightarrow> jsonPlain c) \<Longrightarrow> concat (map json_enc1 s) = s"
  by (induction s) (auto simp: json_enc1_def)

lemma wjs_loop_eq:
  assumes "start \<le> i" "i \<le> length s" "\<And>c. c \<in> set (take (i - start) (drop start s)) \<Longrightarrow> jsonPlain c"
  shows "wjs_loop s start i b = b @ concat (map json_enc1 (drop start s))"
  using assms
proof (induction s start i b rule: wjs_loop.induct)
  case (1 s start i b)
  show ?case
  proof (cases "i < length s")
    case True
    define mid where "mid = take (i - start) (drop start s)"
    have split: "drop start s = mid @ s ! i # drop (i + 1) s"
      using True "1.prems"(1)
      by (simp add: mid_def Cons_nth_drop_Suc) (metis append_take_drop_id drop_drop le_add_diff_inverse2)
    have mid: "concat (map json_enc1 mid) = mid"
      using "1.prems"(3) by (intro concat_plain) (simp add: mid_def)
    show ?thesis
    proof (cases "jsonPlain (s ! i)")
      case plain: True
      have "take (i + 1 - start) (drop start s) = mid @ [s ! i]"
        using "1.prems"(1) True by (simp add: split) (simp add: mid_def Suc_diff_le)
      with "1.IH"(1) [OF True plain] "1.prems" True plain show ?thesis
        by (auto simp: wjs_loop.simps [of s start i b] mid_def)
    next
      case False
      then have e: "json_enc1 (s ! i) = jsonEscape (s ! i)" by (simp add: json_enc1_def)
      have "wjs_loop s start i b = wjs_loop s (i + 1) (i + 1) (b @ mid @ jsonEscape (s ! i))"
        using True False by (simp add: wjs_loop.simps [of s start i b] mid_def)
      also have "\<dots> = b @ mid @ jsonEscape (s ! i) @ concat (map json_enc1 (drop (i + 1) s))"
        using "1.IH"(2) [OF True False] True by (simp add: mid_def)
      finally show ?thesis using mid e by (simp add: split)
    qed
  next
    case False
    with "1.prems" have "i = length s" by simp
    with "1.prems" show ?thesis
      using concat_plain [of "drop start s"]
      by (simp add: wjs_loop.simps [of s start "length s" b])
  qed
qed

lemma writeJSONString_eq: "writeJSONString s b = b @ json_encode_string s"
  using wjs_loop_eq [of 0 0 s "b @ [DQ]"] by (simp add: writeJSONString_def json_encode_string_def)

text \<open>The optimised JSON string writer, which copies the longest unescaped stretches of its
  input, produces exactly the byte-by-byte reference encoding, appended to what the buffer
  already holds.\<close>

lemma writeJSONString_ref:
  "writeJSONString s b = b @ DQ # concat (map json_enc1 s) @ [DQ]"
  by (simp add: writeJSONString_eq json_encode_string_def)

lemma hexDigit_hexdigit: "n < 16 \<Longrightarrow> hexDigit n = hexdigit n"
  by (simp add: hexDigit_def hexdigit_def)

lemma byte_hexDigit: "n < 16 \<Longrightarrow> byte (hexDigit n) = (if n < 10 then 48 + n else 87 + n)"
  by (simp add: hexDigit_def)

lemma isHex_hexDigit [simp]: "n < 16 \<Longrightarrow> isHex (hexDigit n)"
  by (auto simp: isHex_def byte_hexDigit)

lemma hexVal_hexDigit [simp]: "n < 16 \<Longrightarrow> hexVal (hexDigit n) = Some n"
  by (simp add: hexVal_def byte_hexDigit)

lemma char_of_nibbles [simp]: "char_of (16 * (byte c div 16) + byte c mod 16) = c"
  by (metis div_mult_mod_eq mult.commute char_of_char)

lemma jsonEscape_ge: "x \<in> set (json_enc1 c) \<Longrightarrow> 32 \<le> byte x"
  by (auto simp: json_enc1_def jsonEscape_def jsonPlain_def byte_hexDigit split: if_splits)

lemma json_encode_string_ge: "x \<in> set (json_encode_string s) \<Longrightarrow> 32 \<le> byte x"
  using jsonEscape_ge by (auto simp: json_encode_string_def)

lemma json_encode_string_NL [line_safe]: "NL \<notin> set (json_encode_string s)"
  using json_encode_string_ge [of NL s] by auto

lemma json_chars_enc1: "json_chars t \<Longrightarrow> json_chars (json_enc1 c @ t)"
proof (cases "jsonPlain c")
  case True
  assume "json_chars t"
  with True show ?thesis by (simp add: json_enc1_def jc_plain)
next
  case False
  assume t: "json_chars t"
  have z: "isHex CHR ''0''" by (simp add: isHex_def)
  show ?thesis
  proof (cases "c \<in> {DQ, BSL, NL, CR, TAB}")
    case True
    with False t show ?thesis by (auto simp: json_enc1_def jsonEscape_def intro: jc_escape)
  next
    case other: False
    with False t z show ?thesis by (auto simp: json_enc1_def jsonEscape_def intro: jc_unicode)
  qed
qed

lemma json_chars_concat: "json_chars (concat (map json_enc1 s))"
  by (induction s) (auto intro: json_chars.intros json_chars_enc1)

lemma json_string_encode [json_ok]: "json_string (json_encode_string s)"
  using json_chars_concat by (auto simp: json_string_def json_encode_string_def)

lemma read_json_enc1:
  "read_json_chars (json_enc1 c @ t) = map_option (\<lambda>(s, r). (c # s, r)) (read_json_chars t)"
  by (auto simp: json_enc1_def jsonEscape_def jsonPlain_def read_escape_def)

lemma read_json_concat: "read_json_chars (concat (map json_enc1 s) @ DQ # rest) = Some (s, rest)"
  by (induction s) (auto simp: read_json_enc1)

text \<open>C30: writing any byte string with \<open>writeJSONString\<close> and reading it back as a JSON string gives
  the same bytes and leaves exactly what was written after it; the text satisfies the JSON
  string grammar and contains no control byte, so no raw line break.\<close>

theorem writeJSONString_roundtrip:
  "\<exists>t. writeJSONString s b = b @ t
     \<and> read_json_string (t @ rest) = Some (s, rest)
     \<and> json_string t
     \<and> list_all (\<lambda>c. 32 \<le> byte c) t"
  using read_json_concat [of s rest] json_string_encode [of s] json_encode_string_ge [of _ s]
  by (intro exI [of _ "json_encode_string s"])
    (auto simp: writeJSONString_eq read_json_string_def list_all_iff json_encode_string_def)

section \<open>Numbers and literals\<close>

lemma digits1_dec [json_ok]: "digits1 (dec n)"
  using set_dec by (auto simp: digits1_def)

lemma hd_dec: "hd (dec n) = CHR ''0'' \<Longrightarrow> n = 0"
proof (induction n rule: dec.induct)
  case (1 n)
  show ?case
  proof (cases "n < 10")
    case True
    with "1.prems" show ?thesis
      by (simp add: dec.simps [of n] digit_def char_of_eq_iff take_bit_nat_eq_self_iff) (simp add: take_bit_eq_mod)
  next
    case False
    with "1.prems" have "hd (dec (n div 10)) = CHR ''0''" by (simp add: dec.simps [of n])
    with "1.IH" False show ?thesis by simp
  qed
qed

lemma dec_0 [simp]: "dec 0 = ''0''"
  by (simp add: dec.simps [of 0] digit_def char_of_eq_iff)

lemma json_int_dec [json_ok]: "json_int (dec n)"
  using hd_dec [of n] by (auto simp: json_int_def digits1_dec)

lemma json_number_int: "json_int i \<Longrightarrow> json_number i"
  unfolding json_number_def
  by (rule exI [of _ "[]"], rule exI [of _ i], rule exI [of _ "[]"], rule exI [of _ "[]"])
    (simp add: json_frac_def json_exp_def)

lemma json_number_neg: "json_int i \<Longrightarrow> json_number (CHR ''-'' # i)"
  unfolding json_number_def
  by (rule exI [of _ "''-''"], rule exI [of _ i], rule exI [of _ "[]"], rule exI [of _ "[]"])
    (simp add: json_frac_def json_exp_def)

lemma json_number_dec_int [json_ok]: "json_number (dec_int i)"
  by (simp add: dec_int_def json_number_int json_number_neg json_int_dec)

lemma json_value_Append [json_ok]:
  "json_value (AppendInt w)" "json_value (AppendUint w)" "json_value (AppendBool b)"
  by (auto simp: AppendInt_def AppendUint_def AppendBool_def
      intro: json_value_json_elems_json_members.intros json_number_dec_int json_number_int json_int_dec)

text \<open>A JSON number starts with a minus sign or a digit; that excludes the special floats.\<close>

lemma json_number_hd: "json_number s \<Longrightarrow> s \<noteq> [] \<and> (hd s = CHR ''-'' \<or> isDigit (hd s))"
  by (auto simp: json_number_def json_int_def digits1_def)

lemma NL_free_dec [line_safe]: "NL \<notin> set (dec n)"
  by (rule dec_free) simp

lemma NL_free_Append [line_safe]:
  "NL \<notin> set (dec_int i)" "NL \<notin> set (AppendInt w)" "NL \<notin> set (AppendUint w)" "NL \<notin> set (AppendBool b)"
  using NL_free_dec by (auto simp: dec_int_def AppendInt_def AppendUint_def AppendBool_def)

end
