(* ===== verification/Encoders.thy ===== *)
theory Encoders
  imports Buffer_JSON
begin

text \<open>
  The encoders (\<open>encoder.go\<close>, \<open>anyval.go\<close>, \<open>encoder_json.go\<close>, \<open>encoder_logfmt.go\<close>,
  \<open>encoder_console.go\<close>): how a record becomes one line of bytes. The \<open>Encoder\<close> interface
  mentions an unexported type, so its implementations are exactly the three of this package
  and the dynamic dispatch is a case distinction.
\<close>

section \<open>Field values\<close>

definition writeText :: "bool \<Rightarrow> string \<Rightarrow> bytes \<Rightarrow> bytes" where
  "writeText jsonMode s b = (if jsonMode then writeJSONString s b else writeString s b)"

definition appendAny :: "golib \<Rightarrow> goval \<Rightarrow> bool \<Rightarrow> bytes \<Rightarrow> bytes" where
  "appendAny lib v jsonMode b =
     (case v of
        VNil \<Rightarrow> writeString ''null'' b
      | VString x \<Rightarrow> writeText jsonMode x b
      | VBool x \<Rightarrow> writeBool x b
      | VInt x \<Rightarrow> writeInt x b
      | VInt64 x \<Rightarrow> writeInt x b
      | VUint64 x \<Rightarrow> writeUint x b
      | VFloat64 x \<Rightarrow> writeFloat lib x b
      | VError e \<Rightarrow> writeText jsonMode (err_text e) b
      | VDuration d \<Rightarrow> writeText jsonMode (lib_durString lib d) b
      | VTime t \<Rightarrow> writeText jsonMode (lib_timeString lib t) b
      | VStringer s \<Rightarrow> writeText jsonMode s b
      | VOther i \<Rightarrow>
          (if jsonMode then
             (case lib_jsonMarshal lib i of
                Inl err \<Rightarrow> writeJSONString (''!ERR:'' @ err_text err) b
              | Inr raw \<Rightarrow> b @ raw)
           else b @ lib_quote lib (Sprint lib v)))"

definition appendFieldValue :: "golib \<Rightarrow> Field \<Rightarrow> bool \<Rightarrow> bytes \<Rightarrow> bytes" where
  "appendFieldValue lib f jsonMode b =
     (case fknd f of
        kindString \<Rightarrow> writeText jsonMode (fstr f) b
      | kindInt64 \<Rightarrow> writeInt (fnum f) b
      | kindUint64 \<Rightarrow> writeUint (fnum f) b
      | kindFloat64 \<Rightarrow> writeFloat lib (fnum f) b
      | kindBool \<Rightarrow> writeBool (field_bool f) b
      | kindDuration \<Rightarrow> writeText jsonMode (lib_durString lib (fnum f)) b
      | kindTime \<Rightarrow>
          (if jsonMode
           then writeByte DQ (writeTimeRFC3339 lib (field_time f) (writeByte DQ b))
           else writeTimeRFC3339 lib (field_time f) b)
      | kindError \<Rightarrow>
          (let e = errVal f; s = (case e of None \<Rightarrow> ''null'' | Some x \<Rightarrow> err_text x)
           in if jsonMode \<and> e \<noteq> None then writeJSONString s b
              else if jsonMode then writeString ''null'' b
              else writeString s b)
      | kindAny \<Rightarrow> appendAny lib (fany f) jsonMode b)"

section \<open>JSON\<close>

record JSONEncoder =
  TimeKey :: string
  LevelKey :: string
  MsgKey :: string
  NumericLevel :: bool

definition NewJSONEncoder :: JSONEncoder where
  "NewJSONEncoder = \<lparr>TimeKey = ''time'', LevelKey = ''level'', MsgKey = ''msg'', NumericLevel = False\<rparr>"

definition json_field :: "golib \<Rightarrow> bytes \<Rightarrow> Field \<Rightarrow> bytes" where
  "json_field lib b f =
     (let b = writeByte CHR '','' b;
          b = writeJSONString (fKey f) b;
          b = writeByte CHR '':'' b
      in appendFieldValue lib f True b)"

definition JSON_Encode :: "golib \<Rightarrow> JSONEncoder \<Rightarrow> Record \<Rightarrow> bytes \<Rightarrow> bytes" where
  "JSON_Encode lib e r b =
     (let tk = (if TimeKey e = [] then ''time'' else TimeKey e);
          lk = (if LevelKey e = [] then ''level'' else LevelKey e);
          mk = (if MsgKey e = [] then ''msg'' else MsgKey e);
          b = writeByte CHR ''{'' b;
          (b, first) =
            (if rTime r \<noteq> 0 then
               (let b = writeJSONString tk b;
                    b = writeByte CHR '':'' b;
                    b = writeByte DQ b;
                    b = writeTimeRFC3339 lib (rTime r) b;
                    b = writeByte DQ b
                in (b, False))
             else (b, True));
          b = (if \<not> first then writeByte CHR '','' b else b);
          b = writeJSONString lk b;
          b = writeByte CHR '':'' b;
          b = (if NumericLevel e then writeInt (word_of_int (rLevel r)) b
               else writeJSONString (Level_lower (rLevel r)) b);
          b = writeByte CHR '','' b;
          b = writeJSONString mk b;
          b = writeByte CHR '':'' b;
          b = writeJSONString (rMessage r) b;
          b = (if rEventName r \<noteq> [] then
                 (let b = writeByte CHR '','' b;
                      b = writeJSONString ''event'' b;
                      b = writeByte CHR '':'' b
                  in writeJSONString (rEventName r) b)
               else b);
          b = (case source lib r of
                 None \<Rightarrow> b
               | Some (file, line, fn) \<Rightarrow>
                   (let b = writeByte CHR '','' b;
                        b = writeJSONString ''caller'' b;
                        b = writeByte CHR '':'' b;
                        b = writeByte DQ b;
                        b = writeString file b;
                        b = writeByte CHR '':'' b;
                        b = writeInt (word_of_int line) b
                    in writeByte DQ b));
          b = foldl (json_field lib) b (rFields r);
          b = writeByte CHR ''}'' b
      in writeByte NL b)"

section \<open>logfmt\<close>

definition logfmtNeedsQuote :: "string \<Rightarrow> bool" where
  "logfmtNeedsQuote s = (if s = [] then True else list_ex (\<lambda>c. c \<in> {SP, CHR ''='', DQ, NL, TAB}) s)"

definition writeLogfmtValue :: "string \<Rightarrow> bytes \<Rightarrow> bytes" where
  "writeLogfmtValue s b = (if logfmtNeedsQuote s then writeJSONString s b else writeString s b)"

definition logfmt_field :: "golib \<Rightarrow> bytes \<Rightarrow> Field \<Rightarrow> bytes" where
  "logfmt_field lib b f =
     (let b = writeByte SP b;
          b = writeString (fKey f) b;
          b = writeByte CHR ''='' b
      in case fknd f of
           kindString \<Rightarrow> writeLogfmtValue (fstr f) b
         | kindError \<Rightarrow> (case errVal f of Some e \<Rightarrow> writeLogfmtValue (err_text e) b
                                        | None \<Rightarrow> writeString ''null'' b)
         | _ \<Rightarrow> appendFieldValue lib f False b)"

definition Logfmt_Encode :: "golib \<Rightarrow> Record \<Rightarrow> bytes \<Rightarrow> bytes" where
  "Logfmt_Encode lib r b =
     (let b = (if rTime r \<noteq> 0 then
                 (let b = writeString ''time='' b;
                      b = writeByte DQ b;
                      b = writeTimeRFC3339 lib (rTime r) b;
                      b = writeByte DQ b
                  in writeByte SP b)
               else b);
          b = writeString ''level='' b;
          b = writeString (Level_lower (rLevel r)) b;
          b = writeString '' msg='' b;
          b = writeLogfmtValue (rMessage r) b;
          b = (case source lib r of
                 None \<Rightarrow> b
               | Some (file, line, fn) \<Rightarrow>
                   (let b = writeString '' caller='' b;
                        b = writeByte DQ b;
                        b = writeString file b;
                        b = writeByte CHR '':'' b;
                        b = writeInt (word_of_int line) b
                    in writeByte DQ b));
          b = foldl (logfmt_field lib) b (rFields r)
      in writeByte NL b)"

section \<open>Console\<close>

record ConsoleEncoder =
  Color :: bool
  TimeFormat :: string

definition NewConsoleEncoder :: ConsoleEncoder where
  "NewConsoleEncoder = \<lparr>Color = False, TimeFormat = ''15:04:05.000''\<rparr>"

abbreviation ESC :: char where
  "ESC \<equiv> CHR 0x1B"

definition levelColor :: "Level \<Rightarrow> string" where
  "levelColor l =
     (if l < LevelDebug then ESC # ''[90m''
      else if l < LevelInfo then ESC # ''[36m''
      else if l < LevelWarn then ESC # ''[32m''
      else if l < LevelError then ESC # ''[33m''
      else ESC # ''[31m'')"

definition console_field :: "golib \<Rightarrow> bool \<Rightarrow> bytes \<Rightarrow> Field \<Rightarrow> bytes" where
  "console_field lib color b f =
     (let b = writeByte SP b;
          b = (if color then writeString (ESC # ''[2m'') b else b);
          b = writeString (fKey f) b;
          b = writeByte CHR ''='' b;
          b = (if color then writeString (ESC # ''[0m'') b else b)
      in appendFieldValue lib f False b)"

definition Console_Encode :: "golib \<Rightarrow> ConsoleEncoder \<Rightarrow> Record \<Rightarrow> bytes \<Rightarrow> bytes" where
  "Console_Encode lib e r b =
     (let tf = (if TimeFormat e = [] then ''15:04:05.000'' else TimeFormat e);
          b = b @ lib_timeFormat lib tf (rTime r);
          b = writeByte SP b;
          lvl = Level_lower (rLevel r);
          n = 5 - int (length lvl);
          pad = (if 0 < n then take (nat n) (replicate 5 SP) else []);
          b = (if Color e then
                 (let b = writeString (levelColor (rLevel r)) b;
                      b = writeString lvl b;
                      b = writeString pad b
                  in writeString (ESC # ''[0m'') b)
               else writeString pad (writeString lvl b));
          b = writeByte SP b;
          b = writeString (rMessage r) b;
          b = (case source lib r of
                 None \<Rightarrow> b
               | Some (file, line, fn) \<Rightarrow>
                   (let b = writeByte SP b;
                        b = (if Color e then writeString (ESC # ''[2m'') b else b);
                        b = writeByte CHR ''<'' b;
                        b = writeString file b;
                        b = writeByte CHR '':'' b;
                        b = writeInt (word_of_int line) b;
                        b = writeByte CHR ''>'' b
                    in if Color e then writeString (ESC # ''[0m'') b else b));
          b = foldl (console_field lib (Color e)) b (rFields r)
      in writeByte NL b)"

section \<open>The Encoder interface\<close>

datatype Encoder = EncJSON JSONEncoder | EncLogfmt | EncConsole ConsoleEncoder

fun Encode :: "golib \<Rightarrow> Encoder \<Rightarrow> Record \<Rightarrow> bytes \<Rightarrow> bytes" where
  "Encode lib (EncJSON e) r b = JSON_Encode lib e r b"
| "Encode lib EncLogfmt r b = Logfmt_Encode lib r b"
| "Encode lib (EncConsole e) r b = Console_Encode lib e r b"

fun Encoder_Name :: "Encoder \<Rightarrow> string" where
  "Encoder_Name (EncJSON _) = ''json''"
| "Encoder_Name EncLogfmt = ''logfmt''"
| "Encoder_Name (EncConsole _) = ''console''"

section \<open>Encoders append\<close>

definition field_text :: "golib \<Rightarrow> Field \<Rightarrow> bool \<Rightarrow> bytes" where
  "field_text lib f jsonMode = appendFieldValue lib f jsonMode []"

lemma writeText_eq: "writeText m s b = b @ (if m then json_encode_string s else s)"
  by (simp add: writeText_def writeJSONString_eq writeString_def)

lemma appendAny_text: "appendAny lib v m b = b @ appendAny lib v m []"
  by (simp add: appendAny_def write_defs writeText_eq writeJSONString_eq split: goval.split sum.split)

lemma appendFieldValue_text: "appendFieldValue lib f m b = b @ field_text lib f m"
  using appendAny_text [of lib "fany f" m b]
  by (simp add: field_text_def appendFieldValue_def write_defs writeText_eq writeJSONString_eq Let_def
      split: kind.split option.split) auto

text \<open>
  A JSON line as data: the members of the object, in order, each a key and the text of its
  value.
\<close>

definition caller_text :: "string \<Rightarrow> int \<Rightarrow> string" where
  "caller_text file line = DQ # file @ CHR '':'' # AppendInt (word_of_int line) @ [DQ]"

definition json_line_members :: "golib \<Rightarrow> JSONEncoder \<Rightarrow> Record \<Rightarrow> (string \<times> string) list" where
  "json_line_members lib e r =
     (if rTime r \<noteq> 0
      then [(if TimeKey e = [] then ''time'' else TimeKey e, DQ # lib_rfc3339 lib (rTime r) @ [DQ])] else []) @
     [(if LevelKey e = [] then ''level'' else LevelKey e,
       if NumericLevel e then AppendInt (word_of_int (rLevel r))
       else json_encode_string (Level_lower (rLevel r))),
      (if MsgKey e = [] then ''msg'' else MsgKey e, json_encode_string (rMessage r))] @
     (if rEventName r \<noteq> [] then [(''event'', json_encode_string (rEventName r))] else []) @
     (case source lib r of None \<Rightarrow> [] | Some (file, line, fn) \<Rightarrow> [(''caller'', caller_text file line)]) @
     map (\<lambda>f. (fKey f, field_text lib f True)) (rFields r)"

definition json_member :: "string \<times> string \<Rightarrow> string" where
  "json_member kv = json_encode_string (fst kv) @ CHR '':'' # snd kv"

definition json_object :: "(string \<times> string) list \<Rightarrow> string" where
  "json_object ms = CHR ''{'' # join_with CHR '','' (map json_member ms) @ ''}''"

lemma foldl_json_field:
  "foldl (json_field lib) b fs =
     b @ concat (map (\<lambda>f. CHR '','' # json_member (fKey f, field_text lib f True)) fs)"
  by (induction fs arbitrary: b)
    (auto simp: json_field_def Let_def write_defs writeJSONString_eq appendFieldValue_text json_member_def)

lemma JSON_Encode_object: "JSON_Encode lib e r b = b @ json_object (json_line_members lib e r) @ [NL]"
  by (cases "rTime r = 0"; cases "rEventName r = []"; cases "source lib r")
    (auto simp: JSON_Encode_def json_line_members_def json_object_def json_member_def join_with_Cons
      Let_def write_defs writeJSONString_eq foldl_json_field caller_text_def comp_def split: prod.splits)

section \<open>JSON lines are valid JSON\<close>

lemma json_members_join:
  assumes "ms \<noteq> []" "\<And>kv. kv \<in> set ms \<Longrightarrow> json_value (snd kv)"
  shows "json_members (join_with CHR '','' (map json_member ms))"
  using assms
proof (induction ms rule: list_nonempty_induct)
  case (single kv)
  then show ?case using jm_one [OF json_string_encode, of "snd kv" "fst kv"] by (simp add: json_member_def)
next
  case (cons kv ms)
  then obtain kv' ms' where ms: "ms = kv' # ms'" by (cases ms) auto
  from cons have "json_members (join_with CHR '','' (map json_member ms))" "json_value (snd kv)" by auto
  from jm_cons [OF json_string_encode this(2,1), of "fst kv"] show ?case
    by (simp add: ms) (simp add: json_member_def [of kv])
qed

lemma json_value_object:
  "ms \<noteq> [] \<Longrightarrow> (\<And>kv. kv \<in> set ms \<Longrightarrow> json_value (snd kv)) \<Longrightarrow> json_value (json_object ms)"
  unfolding json_object_def by (intro jv_object json_members_join) auto

text \<open>
  What the JSON encoder relies on in Go's library: RFC 3339 timestamps are plain text,
  finite floats print as JSON numbers, \<open>json.Marshal\<close> returns JSON when it succeeds; and in
  the build: source file names are plain text.
\<close>

definition json_lib :: "golib \<Rightarrow> bool" where
  "json_lib lib \<longleftrightarrow>
     (\<forall>t. list_all jsonPlain (lib_rfc3339 lib t)) \<and>
     (\<forall>w. isFinite w \<longrightarrow> json_number (lib_fmtFloat lib w)) \<and>
     (\<forall>i raw. lib_jsonMarshal lib i = Inr raw \<longrightarrow> json_value raw) \<and>
     (\<forall>pc. list_all jsonPlain (fst (lib_frame lib pc)))"

definition finite_floats :: "Field \<Rightarrow> bool" where
  "finite_floats f =
     ((fknd f = kindFloat64 \<longrightarrow> isFinite (fnum f)) \<and>
      (fknd f = kindAny \<longrightarrow> (case fany f of VFloat64 w \<Rightarrow> isFinite w | _ \<Rightarrow> True)))"

lemma json_chars_plain: "list_all jsonPlain s \<Longrightarrow> json_chars s"
  by (induction s) (auto intro: json_chars.intros)

lemma json_value_quoted: "list_all jsonPlain s \<Longrightarrow> json_value (DQ # s @ [DQ])"
  by (rule jv_string) (auto simp: json_string_def json_chars_plain)

lemma json_value_encode: "json_value (json_encode_string s)"
  by (rule jv_string [OF json_string_encode])

lemma json_value_float:
  assumes "json_lib lib" "isFinite w"
  shows "json_value (AppendFloat lib w)"
  using assms by (auto simp: AppendFloat_def json_lib_def isFinite_def intro: jv_number)

lemmas json_texts = json_value_encode json_value_float json_value_Append jv_null json_value_quoted

lemma json_any_text:
  assumes "json_lib lib" "case v of VFloat64 w \<Rightarrow> isFinite w | _ \<Rightarrow> True"
  shows "json_value (appendAny lib v True [])"
proof (cases v)
  case (VOther i)
  then show ?thesis
    using assms(1) json_texts
    by (auto simp: appendAny_def writeJSONString_eq json_lib_def split: sum.split)
qed (use assms json_texts in \<open>auto simp: appendAny_def write_defs writeText_eq\<close>)

lemma json_field_text:
  assumes "json_lib lib" "finite_floats f"
  shows "json_value (field_text lib f True)"
proof (cases "fknd f")
  case kindAny
  then show ?thesis
    using assms json_any_text [of lib "fany f"]
    by (simp add: field_text_def appendFieldValue_def finite_floats_def)
next
  case kindTime
  have "list_all jsonPlain (lib_rfc3339 lib (field_time f))" using assms(1) by (simp add: json_lib_def)
  from json_value_quoted [OF this] kindTime show ?thesis
    by (simp add: field_text_def appendFieldValue_def write_defs)
qed (use assms json_texts in
      \<open>auto simp: field_text_def appendFieldValue_def write_defs writeText_eq writeJSONString_eq
        finite_floats_def Let_def split: option.split\<close>)

lemma source_plain:
  assumes "json_lib lib" "source lib r = Some (file, line, fn)"
  shows "list_all jsonPlain file"
proof -
  obtain f0 l0 n0 where f0: "lib_frame lib (rPC r) = (f0, l0, n0)" by (cases "lib_frame lib (rPC r)")
  then have "list_all jsonPlain f0" using assms(1) by (metis json_lib_def fst_conv)
  with assms(2) f0 show ?thesis
    by (auto simp: source_def Let_def list_all_iff dest: in_set_dropD split: if_splits)
qed

lemma jsonPlain_digit: "isDigit c \<Longrightarrow> jsonPlain c"
  by (auto simp: jsonPlain_def)

lemma jsonPlain_dec: "list_all jsonPlain (dec n)"
  using set_dec [THEN jsonPlain_digit] by (simp add: list_all_iff)

lemma jsonPlain_dec_int: "list_all jsonPlain (dec_int i)"
  using jsonPlain_dec by (simp add: dec_int_def jsonPlain_def [of "CHR ''-''"])

lemma jsonPlain_AppendInt: "list_all jsonPlain (AppendInt w)"
  by (simp add: AppendInt_def jsonPlain_dec_int)

lemma json_caller:
  assumes "json_lib lib" "source lib r = Some (file, line, fn)"
  shows "json_value (caller_text file line)"
proof -
  have "list_all jsonPlain (file @ CHR '':'' # AppendInt (word_of_int line))"
    using source_plain [OF assms] jsonPlain_AppendInt by (simp add: jsonPlain_def [of "CHR '':''"])
  from json_value_quoted [OF this] show ?thesis by (simp add: caller_text_def)
qed

lemma json_line_values:
  assumes "json_lib lib" "\<And>f. f \<in> set (rFields r) \<Longrightarrow> finite_floats f"
    and "kv \<in> set (json_line_members lib e r)"
  shows "json_value (snd kv)"
proof -
  have t: "json_value (DQ # lib_rfc3339 lib (rTime r) @ [DQ])"
    using assms(1) by (intro json_value_quoted) (simp add: json_lib_def)
  show ?thesis
    using assms(3) t json_caller [OF assms(1) sym] json_field_text [OF assms(1) assms(2)] json_texts
    by (auto simp: json_line_members_def split: if_splits option.splits)
qed

text \<open>C29: every line of the JSON encoder is one JSON object followed by one newline, for every
  record whose float fields are finite, with any configuration of key names, any keys,
  messages and field values (control bytes, quotes and binary data included), given that
  timestamps and file names are plain text, finite floats print as JSON numbers and
  \<open>json.Marshal\<close> returns JSON.\<close>

theorem JSON_Encode_valid:
  assumes "json_lib lib" "\<And>f. f \<in> set (rFields r) \<Longrightarrow> finite_floats f"
  shows "\<exists>line. JSON_Encode lib e r b = b @ line @ [NL] \<and> json_value line
    \<and> hd line = CHR ''{'' \<and> last line = CHR ''}''"
proof -
  have "json_value (json_object (json_line_members lib e r))"
    using json_line_values [OF assms] by (intro json_value_object) (auto simp: json_line_members_def)
  then show ?thesis by (auto simp: JSON_Encode_object json_object_def)
qed

lemma json_lib_sample: "json_lib sample_lib"
proof -
  have "list_all jsonPlain (''T'' @ dec_int t)" for t
    using jsonPlain_dec_int by (simp add: jsonPlain_def [of "CHR ''T''"])
  moreover have "list_all jsonPlain (fst (lib_frame sample_lib pc))" for pc
    by (simp add: sample_lib_def jsonPlain_def)
  moreover have "json_value (dec i)" for i
    by (rule jv_number [OF json_number_int [OF json_int_dec]])
  ultimately show ?thesis
    by (simp add: json_lib_def sample_lib_def json_number_int json_int_dec)
qed

theorem JSON_Encode_valid_witness:
  "\<exists>line. JSON_Encode sample_lib NewJSONEncoder
       (zeroRecord\<lparr>rMessage := ''a\"b'', rFields := [FFloat ''f'' 0, FString ''s'' [NL]]\<rparr>) []
     = [] @ line @ [NL] \<and> json_value line \<and> hd line = CHR ''{'' \<and> last line = CHR ''}''"
proof -
  have "finite_floats f" if "f \<in> set [FFloat ''f'' 0, FString ''s'' [NL]]" for f
    using that by (auto simp: finite_floats_def field_cons_defs isFinite_def isNaN_def isInf_def float_exp_def)
  then show ?thesis
    by (intro JSON_Encode_valid json_lib_sample) simp
qed

section \<open>Special floats\<close>

lemma json_value_hd:
  "json_value s \<Longrightarrow> s \<noteq> [] \<and> (hd s \<in> {CHR ''n'', CHR ''t'', CHR ''f'', DQ, CHR ''['', CHR ''{'', CHR ''-''} \<or> isDigit (hd s))"
  by (erule json_value.cases) (auto simp: json_string_def dest: json_number_hd)

lemma not_json_number_minus_Inf: "\<not> json_number ''-Inf''"
  by (auto simp: json_number_def json_int_def digits1_def Cons_eq_append_conv)

lemma not_json_special: "\<not> json_value ''NaN''" "\<not> json_value ''+Inf''" "\<not> json_value ''-Inf''"
proof -
  show "\<not> json_value ''NaN''" using json_value_hd [of "''NaN''"] by auto
  show "\<not> json_value ''+Inf''" using json_value_hd [of "''+Inf''"] by auto
  show "\<not> json_value ''-Inf''"
    using not_json_number_minus_Inf by (auto simp: json_string_def elim: json_value.cases)
qed

text \<open>A float field is written as valid JSON exactly when the float is finite: for \<open>NaN\<close> and the
  infinities the encoder writes the bare words of \<open>strconv\<close>, which are no JSON value, so the
  finiteness hypothesis of the validity theorem cannot be dropped.\<close>

lemma float_field_json_iff:
  assumes "json_lib lib" "fknd f = kindFloat64"
  shows "\<exists>t. appendFieldValue lib f True b = b @ t \<and> (json_value t \<longleftrightarrow> isFinite (fnum f))"
  using assms not_json_special json_value_float [OF assms(1), of "fnum f"]
  by (auto simp: appendFieldValue_def writeFloat_def AppendFloat_def isFinite_def)

theorem float_field_json_iff_witness:
  "\<exists>t. appendFieldValue sample_lib (FFloat ''x'' 0x7FF8000000000001) True ''{'' = ''{'' @ t \<and>
     (json_value t \<longleftrightarrow> isFinite (fnum (FFloat ''x'' 0x7FF8000000000001)))"
  using float_field_json_iff [OF json_lib_sample, of "FFloat ''x'' 0x7FF8000000000001" "''{''"]
  by (simp add: field_cons_defs)

section \<open>Line framing\<close>

text \<open>
  What a line-oriented consumer (\<open>tail\<close>, a log shipper, the audit verifier) relies on: an
  encoder writes one line per record, ended by the only newline in it. The law holds for the
  records the predicate \<open>ok\<close> admits.
\<close>

locale line_encoder =
  fixes enc :: "Record \<Rightarrow> bytes"
    and ok :: "Record \<Rightarrow> bool"
  assumes enc_line: "ok r \<Longrightarrow> \<exists>body. enc r = body @ [NL] \<and> NL \<notin> set body"
begin

lemma enc_trim: "ok r \<Longrightarrow> enc r = trimNL (enc r) @ [NL] \<and> NL \<notin> set (trimNL (enc r))"
  using enc_line [of r] trimNL_id by force

lemma lines_of_stream:
  assumes "\<And>r. r \<in> set rs \<Longrightarrow> ok r"
  shows "split_on NL (concat (map enc rs)) = map (\<lambda>r. trimNL (enc r)) rs @ [[]]"
  using assms
proof (induction rs)
  case (Cons r rs)
  then have "enc r = trimNL (enc r) @ [NL]" "NL \<notin> set (trimNL (enc r))"
    using enc_trim [of r] by auto
  then have "split_on NL (enc r @ concat (map enc rs)) = trimNL (enc r) # split_on NL (concat (map enc rs))"
    using split_on_prefix [of NL "trimNL (enc r)" "concat (map enc rs)"] by (metis append.assoc append_Cons append_Nil)
  with Cons show ?case by simp
qed simp

end

definition line_lib :: "golib \<Rightarrow> bool" where
  "line_lib lib \<longleftrightarrow>
     (\<forall>t. NL \<notin> set (lib_rfc3339 lib t)) \<and>
     (\<forall>w. NL \<notin> set (lib_fmtFloat lib w)) \<and>
     (\<forall>i raw. lib_jsonMarshal lib i = Inr raw \<longrightarrow> NL \<notin> set raw) \<and>
     (\<forall>pc. NL \<notin> set (fst (lib_frame lib pc)))"

lemma NL_AppendFloat: "line_lib lib \<Longrightarrow> NL \<notin> set (AppendFloat lib w)"
  by (simp add: AppendFloat_def line_lib_def)

lemma NL_any_text: "line_lib lib \<Longrightarrow> NL \<notin> set (appendAny lib v True [])"
  using NL_AppendFloat
  by (auto simp: appendAny_def write_defs writeText_eq writeJSONString_eq line_safe line_lib_def
      split: goval.split sum.split)

lemma NL_field_text: "line_lib lib \<Longrightarrow> NL \<notin> set (field_text lib f True)"
  using NL_AppendFloat NL_any_text
  by (auto simp: field_text_def appendFieldValue_def write_defs writeText_eq writeJSONString_eq Let_def
      line_safe line_lib_def split: kind.split option.split)

lemma NL_source:
  assumes "line_lib lib" "source lib r = Some (file, line, fn)"
  shows "NL \<notin> set file"
proof -
  obtain f0 l0 n0 where f0: "lib_frame lib (rPC r) = (f0, l0, n0)" by (cases "lib_frame lib (rPC r)")
  then have "NL \<notin> set f0" using assms(1) by (metis line_lib_def fst_conv)
  with assms(2) f0 show ?thesis
    by (auto simp: source_def Let_def dest: in_set_dropD split: if_splits)
qed

lemma NL_join: "(\<And>w. w \<in> set ws \<Longrightarrow> c \<notin> set w) \<Longrightarrow> c \<noteq> d \<Longrightarrow> c \<notin> set (join_with d ws)"
  by (cases ws) (auto simp: join_with_Cons)

lemma NL_json_line:
  assumes "line_lib lib"
  shows "NL \<notin> set (json_object (json_line_members lib e r))"
proof -
  have "NL \<notin> set (snd kv)" if "kv \<in> set (json_line_members lib e r)" for kv
    using that assms NL_source [OF assms sym] NL_field_text [OF assms]
    by (auto simp: json_line_members_def caller_text_def line_safe line_lib_def split: if_splits option.splits)
  then have "NL \<notin> set (json_member kv)" if "kv \<in> set (json_line_members lib e r)" for kv
    using that by (simp add: json_member_def line_safe)
  then have "NL \<notin> set (join_with CHR '','' (map json_member (json_line_members lib e r)))"
    by (intro NL_join) auto
  then show ?thesis by (simp add: json_object_def)
qed

interpretation json_enc: line_encoder "\<lambda>r. JSON_Encode lib e r []" "\<lambda>r. line_lib lib" for lib e
  by unfold_locales (simp add: JSON_Encode_object NL_json_line)

text \<open>Newline framing of JSON output: the concatenation of any sequence of encoded records,
  split at newlines, is exactly one line per record in order (and the empty remainder), so
  no message, key or value can forge or merge lines.\<close>

lemma JSON_lines:
  assumes "line_lib lib"
  shows "split_on NL (concat (map (\<lambda>r. JSON_Encode lib e r []) rs))
    = map (\<lambda>r. trimNL (JSON_Encode lib e r [])) rs @ [[]]"
  using assms by (intro json_enc.lines_of_stream)

lemma line_lib_sample: "line_lib sample_lib"
  by (auto simp: line_lib_def sample_lib_def line_safe)

theorem JSON_lines_witness:
  "split_on NL (concat (map (\<lambda>r. JSON_Encode sample_lib NewJSONEncoder r [])
       [zeroRecord\<lparr>rMessage := [NL, NL]\<rparr>, zeroRecord]))
    = map (\<lambda>r. trimNL (JSON_Encode sample_lib NewJSONEncoder r []))
       [zeroRecord\<lparr>rMessage := [NL, NL]\<rparr>, zeroRecord] @ [[]]"
  by (rule JSON_lines [OF line_lib_sample])

section \<open>What the text encoders lose\<close>

lemma json_encode_string_inj [simp]: "json_encode_string s = json_encode_string t \<longleftrightarrow> s = t"
proof
  assume "json_encode_string s = json_encode_string t"
  moreover have "read_json_string (json_encode_string u) = Some (u, [])" for u
    using read_json_concat [of u "[]"] by (simp add: read_json_string_def json_encode_string_def)
  ultimately show "s = t" by (metis option.inject prod.inject)
qed simp

lemma source_EventName [simp]: "source lib (r\<lparr>rEventName := n\<rparr>) = source lib r"
  by (simp add: source_def)

definition event_text :: "string \<Rightarrow> string" where
  "event_text n = (if n = [] then [] else CHR '','' # json_member (''event'', json_encode_string n))"

lemma JSON_Encode_event:
  "\<exists>pre post. \<forall>n. JSON_Encode lib e (r\<lparr>rEventName := n\<rparr>) b = pre @ event_text n @ post"
proof -
  define A where "A = json_line_members lib e (r\<lparr>rEventName := [], rFields := [], rPC := 0\<rparr>)"
  define C where "C = (case source lib r of None \<Rightarrow> [] | Some (file, line, fn) \<Rightarrow> [(''caller'', caller_text file line)]) @
     map (\<lambda>f. (fKey f, field_text lib f True)) (rFields r)"
  have ms: "json_line_members lib e (r\<lparr>rEventName := n\<rparr>) =
      A @ (if n = [] then [] else [(''event'', json_encode_string n)]) @ C" for n
    by (simp add: A_def C_def json_line_members_def source_def)
  obtain a A' where A: "A = a # A'" by (cases A) (auto simp: A_def json_line_members_def split: if_splits)
  show ?thesis
    by (rule exI [of _ "b @ CHR ''{'' # json_member a @ concat (map (\<lambda>kv. CHR '','' # json_member kv) A')"],
        rule exI [of _ "concat (map (\<lambda>kv. CHR '','' # json_member kv) C) @ ''}'' @ [NL]"])
      (simp add: JSON_Encode_object json_object_def ms A join_with_Cons event_text_def comp_def)
qed

text \<open>The event name of a named event identifies it in JSON output (two names give the same line
  only when they are equal), while the logfmt and console encoders do not write it at all:
  events with different names are indistinguishable there.\<close>

lemma event_name_kept_and_lost:
  "(JSON_Encode lib e (r\<lparr>rEventName := m\<rparr>) b = JSON_Encode lib e (r\<lparr>rEventName := n\<rparr>) b \<longleftrightarrow> m = n)
   \<and> Logfmt_Encode lib (r\<lparr>rEventName := m\<rparr>) b = Logfmt_Encode lib (r\<lparr>rEventName := n\<rparr>) b
   \<and> Console_Encode lib c (r\<lparr>rEventName := m\<rparr>) b = Console_Encode lib c (r\<lparr>rEventName := n\<rparr>) b"
proof (intro conjI)
  show "JSON_Encode lib e (r\<lparr>rEventName := m\<rparr>) b = JSON_Encode lib e (r\<lparr>rEventName := n\<rparr>) b \<longleftrightarrow> m = n"
  proof -
    obtain pre post where "\<And>n. JSON_Encode lib e (r\<lparr>rEventName := n\<rparr>) b = pre @ event_text n @ post"
      using JSON_Encode_event by blast
    then show ?thesis by (auto simp: event_text_def json_member_def)
  qed
qed (simp_all add: Logfmt_Encode_def Console_Encode_def Let_def cong: if_cong)

text \<open>Values of kind any bypass the quoting of the logfmt encoder: a record with one such string
  field is written exactly as a record with two separate fields, so the line cannot be read
  back and a value can forge fields, although typed string fields are quoted.\<close>

lemma logfmt_any_unquoted:
  "Logfmt_Encode lib (r\<lparr>rFields := [FAny ''a'' (VString ''1 x=2'')]\<rparr>) b
     = Logfmt_Encode lib (r\<lparr>rFields := [FString ''a'' ''1'', FString ''x'' ''2'']\<rparr>) b
   \<and> Logfmt_Encode lib (r\<lparr>rFields := [FString ''a'' ''1 x=2'']\<rparr>) b
     \<noteq> Logfmt_Encode lib (r\<lparr>rFields := [FString ''a'' ''1'', FString ''x'' ''2'']\<rparr>) b"
  by (auto simp: Logfmt_Encode_def Let_def logfmt_field_def field_cons_defs appendFieldValue_def appendAny_def
      write_defs writeText_eq writeLogfmtValue_def logfmtNeedsQuote_def writeJSONString_eq
      json_encode_string_def source_def split: option.split prod.split)

end
