(* ===== verification/Metrics.thy ===== *)
theory Metrics
  imports Buffer_JSON
begin

text \<open>
  The logger's self-observability counters (\<open>metrics.go\<close>): atomic 64-bit counters for emitted
  and dropped records and sink errors, one counter per severity number, the snapshot grouped
  by band name and the HTTP rendering of it.
\<close>

section \<open>Counters\<close>

record Metrics =
  m_emitted :: u64
  m_dropped :: u64
  m_sinkErrors :: u64
  m_byLevel :: "u64 list"

definition zeroMetrics :: Metrics where
  "zeroMetrics = \<lparr>m_emitted = 0, m_dropped = 0, m_sinkErrors = 0, m_byLevel = replicate 25 0\<rparr>"

definition incEmitted :: "Level \<Rightarrow> Metrics \<Rightarrow> Metrics" where
  "incEmitted l m =
     (let m = m\<lparr>m_emitted := m_emitted m + 1\<rparr>
      in if 0 \<le> l \<and> l < int (length (m_byLevel m))
         then m\<lparr>m_byLevel := (m_byLevel m)[nat l := m_byLevel m ! nat l + 1]\<rparr> else m)"

definition incDropped :: "Metrics \<Rightarrow> Metrics" where
  "incDropped m = m\<lparr>m_dropped := m_dropped m + 1\<rparr>"

definition IncSinkError :: "Metrics \<Rightarrow> Metrics" where
  "IncSinkError m = m\<lparr>m_sinkErrors := m_sinkErrors m + 1\<rparr>"

section \<open>Snapshot\<close>

record Snapshot =
  sn_Emitted :: u64
  sn_Dropped :: u64
  sn_SinkErrors :: u64
  sn_ByLevel :: "string \<rightharpoonup> u64"

definition map_add_at :: "string \<Rightarrow> u64 \<Rightarrow> (string \<rightharpoonup> u64) \<Rightarrow> (string \<rightharpoonup> u64)" where
  "map_add_at k v m = m(k \<mapsto> (case m k of None \<Rightarrow> 0 | Some x \<Rightarrow> x) + v)"

definition snapshot_step :: "Metrics \<Rightarrow> nat \<Rightarrow> (string \<rightharpoonup> u64) \<Rightarrow> (string \<rightharpoonup> u64)" where
  "snapshot_step m i acc =
     (let v = m_byLevel m ! i in if 0 < v then map_add_at (Level_String (int i)) v acc else acc)"

definition Metrics_Snapshot :: "Metrics \<Rightarrow> Snapshot" where
  "Metrics_Snapshot m =
     \<lparr>sn_Emitted = m_emitted m, sn_Dropped = m_dropped m, sn_SinkErrors = m_sinkErrors m,
      sn_ByLevel = fold (snapshot_step m) [1..<length (m_byLevel m)] Map.empty\<rparr>"

text \<open>
  \<open>ServeHTTP\<close> ranges over the \<open>ByLevel\<close> map in an order Go leaves open, given here by the list
  \<open>ks\<close> of its keys.
\<close>

definition metrics_entry :: "Snapshot \<Rightarrow> string \<Rightarrow> bytes \<times> bool \<Rightarrow> bytes \<times> bool" where
  "metrics_entry s k st =
     (case st of (b, first) \<Rightarrow>
        (let b = (if \<not> first then b @ '','' else b);
             b = b @ [DQ];
             b = b @ k;
             b = b @ [DQ, CHR '':''];
             b = b @ AppendUint (the (sn_ByLevel s k))
         in (b, False)))"

definition Metrics_ServeHTTP :: "Metrics \<Rightarrow> string list \<Rightarrow> bytes" where
  "Metrics_ServeHTTP m ks =
     (let s = Metrics_Snapshot m;
          b = ''{\"emitted\":'';
          b = b @ AppendUint (sn_Emitted s);
          b = b @ '',\"dropped\":'';
          b = b @ AppendUint (sn_Dropped s);
          b = b @ '',\"sink_errors\":'';
          b = b @ AppendUint (sn_SinkErrors s);
          b = b @ '',\"by_level\":{'';
          (b, first) = fold (metrics_entry s) ks (b, True)
      in b @ [CHR ''}'', CHR ''}'', NL])"

section \<open>Lemmas\<close>

definition lookup0 :: "(string \<rightharpoonup> u64) \<Rightarrow> string \<Rightarrow> u64" where
  "lookup0 m k = (case m k of None \<Rightarrow> 0 | Some v \<Rightarrow> v)"

lemma lookup0_step:
  "lookup0 (snapshot_step m i acc) k =
     lookup0 acc k + (if Level_String (int i) = k then m_byLevel m ! i else 0)"
  by (auto simp: snapshot_step_def map_add_at_def lookup0_def Let_def word_gt_0 split: option.split)

lemma lookup0_fold:
  "lookup0 (fold (snapshot_step m) is acc) k =
     lookup0 acc k + sum_list (map (\<lambda>i. if Level_String (int i) = k then m_byLevel m ! i else 0) is)"
  by (induction "is" arbitrary: acc) (auto simp: lookup0_step)

lemma incEmitted_length [simp]: "length (m_byLevel (incEmitted l m)) = length (m_byLevel m)"
  by (simp add: incEmitted_def Let_def)

lemma incEmitted_byLevel:
  "i < length (m_byLevel m) \<Longrightarrow>
   m_byLevel (incEmitted l m) ! i = m_byLevel m ! i + (if l = int i then 1 else 0)"
  by (auto simp: incEmitted_def Let_def nth_list_update)

lemma fold_incEmitted_length [simp]: "length (m_byLevel (fold incEmitted ls m)) = length (m_byLevel m)"
  by (induction ls arbitrary: m) auto

lemma fold_incEmitted_byLevel:
  "i < length (m_byLevel m) \<Longrightarrow>
   m_byLevel (fold incEmitted ls m) ! i = m_byLevel m ! i + of_nat (count_list ls (int i))"
  by (induction ls arbitrary: m) (auto simp: incEmitted_byLevel)

lemma fold_incEmitted_emitted: "m_emitted (fold incEmitted ls m) = m_emitted m + of_nat (length ls)"
  by (induction ls arbitrary: m) (auto simp: incEmitted_def Let_def)

lemma sum_count_filter:
  "(\<Sum>i\<leftarrow>[1..<n]. if P i then of_nat (count_list ls (int i)) else (0::u64)) =
   of_nat (length (filter (\<lambda>l. 1 \<le> l \<and> l < int n \<and> P (nat l)) ls))"
proof (induction ls)
  case (Cons l ls)
  have one: "(\<Sum>i\<leftarrow>[1..<n]. if P i \<and> int i = l then 1 else (0::u64)) =
    (if 1 \<le> l \<and> l < int n \<and> P (nat l) then 1 else 0)"
  proof (induction n)
    case (Suc n)
    then show ?case by (cases "l = int n") auto
  qed simp
  have "(\<Sum>i\<leftarrow>[1..<n]. if P i then of_nat (count_list (l # ls) (int i)) else (0::u64)) =
    (\<Sum>i\<leftarrow>[1..<n]. (if P i then of_nat (count_list ls (int i)) else 0) + (if P i \<and> int i = l then 1 else 0))"
    by (intro arg_cong [where f = sum_list] map_cong) auto
  also have "\<dots> = (\<Sum>i\<leftarrow>[1..<n]. if P i then of_nat (count_list ls (int i)) else 0) +
    (\<Sum>i\<leftarrow>[1..<n]. if P i \<and> int i = l then 1 else 0)"
    by (rule sum_list_addf)
  finally show ?case using Cons.IH one by simp
qed (simp cong: if_cong)

text \<open>The per-band counts of a snapshot are exact: after emissions at levels \<open>ls\<close> the entry of a
  band name is the number of emissions at levels 1..24 of that band, and \<open>Emitted\<close> is the
  number of all emissions, both modulo \<open>2^64\<close>. Emissions at level 0 or outside the scale
  are in \<open>Emitted\<close> only.\<close>

lemma Snapshot_counts:
  "lookup0 (sn_ByLevel (Metrics_Snapshot (fold incEmitted ls zeroMetrics))) name
     = of_nat (length (filter (\<lambda>l. 1 \<le> l \<and> l \<le> 24 \<and> Level_String l = name) ls))
   \<and> sn_Emitted (Metrics_Snapshot (fold incEmitted ls zeroMetrics)) = of_nat (length ls)"
proof -
  have z: "length (m_byLevel zeroMetrics) = 25" "i < 25 \<Longrightarrow> m_byLevel zeroMetrics ! i = 0" for i
    by (simp_all add: zeroMetrics_def)
  have "lookup0 (sn_ByLevel (Metrics_Snapshot (fold incEmitted ls zeroMetrics))) name =
    (\<Sum>i\<leftarrow>[1..<25]. if Level_String (int i) = name then of_nat (count_list ls (int i)) else 0)"
    unfolding Metrics_Snapshot_def
    by (auto simp: lookup0_fold z fold_incEmitted_byLevel lookup0_def [of Map.empty]
        simp del: upt_rec_numeral intro!: arg_cong [where f = sum_list] map_cong)
  also have "\<dots> = of_nat (length (filter (\<lambda>l. 1 \<le> l \<and> l < int 25 \<and> Level_String (int (nat l)) = name) ls))"
    by (rule sum_count_filter [of "\<lambda>i. Level_String (int i) = name" ls 25])
  also have "filter (\<lambda>l. 1 \<le> l \<and> l < int 25 \<and> Level_String (int (nat l)) = name) ls =
    filter (\<lambda>l. 1 \<le> l \<and> l \<le> 24 \<and> Level_String l = name) ls"
    by (rule filter_cong) auto
  finally show ?thesis
    by (simp add: Metrics_Snapshot_def fold_incEmitted_emitted) (simp add: zeroMetrics_def)
qed

end
