(* ===== verification/Processors.thy ===== *)
theory Processors
  imports Log_Record
begin

text \<open>
  The processor pipeline (\<open>processor.go\<close>, \<open>redact_path.go\<close>, \<open>dedup.go\<close>, \<open>enrich.go\<close>): the
  single extension seam of the logger. A processor may change the record, change its own
  state and ask for the record to be dropped. Each operation is one function; the loops
  that rewrite the field slice in place are written on the array, with its indices.
\<close>

section \<open>Outcome of a processor\<close>

text \<open>\<open>ErrDrop\<close> is the sentinel for a silent drop, any other error a processing failure.\<close>

datatype perr = ErrDrop | ProcErr goerr

section \<open>Key denylist\<close>

record RedactProcessor =
  Deny :: "string set"
  Censor :: string

definition REDACTED :: string where
  "REDACTED = ''[REDACTED]''"

definition NewRedactProcessor :: "string list \<Rightarrow> RedactProcessor" where
  "NewRedactProcessor keys = \<lparr>Deny = fold insert keys {}, Censor = REDACTED\<rparr>"

definition redact_at :: "RedactProcessor \<Rightarrow> string \<Rightarrow> nat \<Rightarrow> Field list \<Rightarrow> Field list" where
  "redact_at p c i fs = (if fKey (fs ! i) \<in> Deny p then fs[i := FString (fKey (fs ! i)) c] else fs)"

definition Redact_Process :: "RedactProcessor \<Rightarrow> Record \<Rightarrow> Record" where
  "Redact_Process p r =
     (let c = (if Censor p = [] then REDACTED else Censor p)
      in r\<lparr>rFields := fold (redact_at p c) [0..<length (rFields r)] (rFields r)\<rparr>)"

section \<open>Sampling\<close>

record SampleProcessor =
  sp_First :: u64
  sp_Thereafter :: u64
  sp_NeverBelow :: Level
  sp_n :: u64
  sp_dropped :: u64

definition NewSampleProcessor :: "u64 \<Rightarrow> u64 \<Rightarrow> SampleProcessor" where
  "NewSampleProcessor first thereafter =
     \<lparr>sp_First = first, sp_Thereafter = thereafter, sp_NeverBelow = LevelError, sp_n = 0, sp_dropped = 0\<rparr>"

definition Sample_Process :: "Record \<Rightarrow> SampleProcessor \<Rightarrow> SampleProcessor \<times> perr option" where
  "Sample_Process r p =
     (if sp_NeverBelow p \<le> rLevel r \<or> sp_Thereafter p = 0 then (p, None)
      else (let n = sp_n p + 1;
                p = p\<lparr>sp_n := n\<rparr>
            in if n \<le> sp_First p then (p, None)
               else if (n - sp_First p) mod sp_Thereafter p = 0 then (p, None)
               else (p\<lparr>sp_dropped := sp_dropped p + 1\<rparr>, Some ErrDrop)))"

section \<open>Path redaction\<close>

datatype RedactStrategy = Mask | Hash | Drop

record PathRedactor =
  pr_patterns :: "string list list"
  pr_strategy :: RedactStrategy
  pr_censor :: string

definition NewPathRedactor :: "RedactStrategy \<Rightarrow> string \<Rightarrow> string list \<Rightarrow> PathRedactor" where
  "NewPathRedactor strategy censor patterns =
     (let censor = (if censor = [] then REDACTED else censor)
      in \<lparr>pr_patterns = map (split_on CHR ''.'') patterns, pr_strategy = strategy, pr_censor = censor\<rparr>)"

function segMatch_from :: "string list \<Rightarrow> string list \<Rightarrow> nat \<Rightarrow> bool" where
  "segMatch_from pat key i =
     (if i < length pat then
        (if pat ! i = ''**'' then True
         else if length key \<le> i then False
         else if pat ! i = ''*'' \<or> pat ! i = key ! i then segMatch_from pat key (i + 1)
         else False)
      else length pat = length key)"
  by pat_completeness auto
termination
  by (relation "measure (\<lambda>(pat, key, i). length pat - i)") auto

declare segMatch_from.simps [simp del]

definition segMatch :: "string list \<Rightarrow> string list \<Rightarrow> bool" where
  "segMatch pat key = segMatch_from pat key 0"

definition pr_matches :: "PathRedactor \<Rightarrow> string \<Rightarrow> bool" where
  "pr_matches pr key = (let ks = split_on CHR ''.'' key in list_ex (\<lambda>p. segMatch p ks) (pr_patterns pr))"

definition hashValue :: "golib \<Rightarrow> Field \<Rightarrow> string" where
  "hashValue lib f =
     (let s = (if fknd f = kindString then fstr f else Sprint lib (Value f));
          sum = lib_sha256 lib s
      in ''sha256:'' @ hexEncode (take 8 sum))"

text \<open>
  \<open>Process\<close> filters in place: \<open>dst\<close> is the prefix of length \<open>j\<close> of the very array that the loop
  reads at index \<open>i\<close>.
\<close>

definition path_step :: "golib \<Rightarrow> PathRedactor \<Rightarrow> nat \<Rightarrow> Field list \<times> nat \<Rightarrow> Field list \<times> nat" where
  "path_step lib pr i st =
     (case st of (arr, j) \<Rightarrow>
        (let f = arr ! i
         in if \<not> pr_matches pr (fKey f) then (arr[j := f], j + 1)
            else (case pr_strategy pr of
                    Drop \<Rightarrow> (arr, j)
                  | Hash \<Rightarrow> (arr[j := FString (fKey f) (hashValue lib f)], j + 1)
                  | Mask \<Rightarrow> (arr[j := FString (fKey f) (pr_censor pr)], j + 1))))"

definition Path_Process :: "golib \<Rightarrow> PathRedactor \<Rightarrow> Record \<Rightarrow> Record" where
  "Path_Process lib pr r =
     (let (arr, j) = fold (path_step lib pr) [0..<length (rFields r)] (rFields r, 0)
      in r\<lparr>rFields := take j arr\<rparr>)"

section \<open>Deduplication\<close>

record DedupProcessor =
  dd_Window :: int
  dd_seen :: "string \<rightharpoonup> gtime \<times> u64"

definition NewDedupProcessor :: "int \<Rightarrow> DedupProcessor" where
  "NewDedupProcessor window =
     \<lparr>dd_Window = (if window \<le> 0 then 5 * 10 ^ 9 else window), dd_seen = Map.empty\<rparr>"

definition dedup_key :: "Record \<Rightarrow> string" where
  "dedup_key r = Level_String (rLevel r) @ [CHR 0x00] @ rMessage r"

definition Dedup_Process ::
  "gtime \<Rightarrow> Record \<Rightarrow> DedupProcessor \<Rightarrow> DedupProcessor \<times> Record \<times> perr option" where
  "Dedup_Process now r d =
     (let key = dedup_key r;
          (last, suppressed) = (case dd_seen d key of None \<Rightarrow> (0, 0) | Some st \<Rightarrow> st)
      in if last \<noteq> 0 \<and> time_Sub now last < dd_Window d
         then (d\<lparr>dd_seen := (dd_seen d)(key \<mapsto> (last, suppressed + 1))\<rparr>, r, Some ErrDrop)
         else (let n = suppressed;
                   d = d\<lparr>dd_seen := (dd_seen d)(key \<mapsto> (now, 0))\<rparr>;
                   r = (if 0 < n
                        then r\<lparr>rFields := rFields r @ [FInt (IntTy False 64) ''deduped_count'' (uint n)]\<rparr>
                        else r)
               in (d, r, None)))"

section \<open>Enrichment\<close>

type_synonym TraceExtractor = "gctx \<Rightarrow> string \<times> string \<times> bool"

record EnrichProcessor =
  ep_Extractors :: "TraceExtractor list"
  ep_TraceKey :: string
  ep_SpanKey :: string

definition NewEnrichProcessor :: "TraceExtractor list \<Rightarrow> EnrichProcessor" where
  "NewEnrichProcessor ex = \<lparr>ep_Extractors = ex, ep_TraceKey = ''trace_id'', ep_SpanKey = ''span_id''\<rparr>"

fun enrich_trace :: "string \<Rightarrow> string \<Rightarrow> gctx \<Rightarrow> TraceExtractor list \<Rightarrow> Field list \<Rightarrow> Field list" where
  "enrich_trace tk sk c [] fs = fs"
| "enrich_trace tk sk c (ex # exs) fs =
     (case ex c of (tid, sid, ok) \<Rightarrow>
        if ok then
          (let fs = (if tid \<noteq> [] then fs @ [FString tk tid] else fs)
           in if sid \<noteq> [] then fs @ [FString sk sid] else fs)
        else enrich_trace tk sk c exs fs)"

definition Enrich_Process :: "gctx option \<Rightarrow> EnrichProcessor \<Rightarrow> Record \<Rightarrow> Record" where
  "Enrich_Process ctx0 e r =
     (case (case ctx0 of None \<Rightarrow> rCtx r | Some c \<Rightarrow> Some c) of
        None \<Rightarrow> r
      | Some c \<Rightarrow>
          (let fs = rFields r @ bound_fields c;
               tk = (if ep_TraceKey e = [] then ''trace_id'' else ep_TraceKey e);
               sk = (if ep_SpanKey e = [] then ''span_id'' else ep_SpanKey e)
           in r\<lparr>rFields := enrich_trace tk sk c (ep_Extractors e) fs\<rparr>))"

section \<open>The interface and the pipeline\<close>

text \<open>
  The built-in implementations of \<open>Processor\<close> and \<open>ProcessorFunc\<close>, which wraps any function of
  the context and the record.
\<close>

datatype Processor =
    ProcessorFunc "gctx \<Rightarrow> Record \<Rightarrow> Record \<times> perr option"
  | PRedact RedactProcessor
  | PSample SampleProcessor
  | PPath PathRedactor
  | PDedup DedupProcessor
  | PEnrich EnrichProcessor

fun Process :: "golib \<Rightarrow> gtime \<Rightarrow> gctx \<Rightarrow> Processor \<Rightarrow> Record \<Rightarrow> Processor \<times> Record \<times> perr option" where
  "Process lib now ctx (ProcessorFunc f) r = (let (r', e) = f ctx r in (ProcessorFunc f, r', e))"
| "Process lib now ctx (PRedact p) r = (PRedact p, Redact_Process p r, None)"
| "Process lib now ctx (PSample p) r = (let (p', e) = Sample_Process r p in (PSample p', r, e))"
| "Process lib now ctx (PPath p) r = (PPath p, Path_Process lib p r, None)"
| "Process lib now ctx (PDedup d) r = (let (d', r', e) = Dedup_Process now r d in (PDedup d', r', e))"
| "Process lib now ctx (PEnrich e) r = (PEnrich e, Enrich_Process (Some ctx) e r, None)"

text \<open>
  \<open>runPipeline\<close> applies the processors in order and stops at the first error. It is written over
  the processing function, since it only uses the interface; \<open>clock i\<close> is what \<open>timeNow\<close>
  returns to stage \<open>i\<close>.
\<close>

fun run_stages ::
  "(nat \<Rightarrow> 'p \<Rightarrow> Record \<Rightarrow> 'p \<times> Record \<times> perr option) \<Rightarrow> nat \<Rightarrow> 'p list \<Rightarrow> Record
     \<Rightarrow> 'p list \<times> Record \<times> perr option" where
  "run_stages process i [] r = ([], r, None)"
| "run_stages process i (p # ps) r =
     (case process i p r of
        (p', r', Some e) \<Rightarrow> (p' # ps, r', Some e)
      | (p', r', None) \<Rightarrow>
          (case run_stages process (i + 1) ps r' of (ps', r'', e) \<Rightarrow> (p' # ps', r'', e)))"

definition runPipeline ::
  "golib \<Rightarrow> (nat \<Rightarrow> gtime) \<Rightarrow> gctx \<Rightarrow> Processor list \<Rightarrow> Record \<Rightarrow> Processor list \<times> Record \<times> perr option" where
  "runPipeline lib clock ctx ps r = run_stages (\<lambda>i. Process lib (clock i) ctx) 0 ps r"

section \<open>Redaction in place\<close>

lemma fold_redact_at:
  "n \<le> length fs \<Longrightarrow> fold (redact_at p c) [0..<n] fs =
     map (\<lambda>f. if fKey f \<in> Deny p then FString (fKey f) c else f) (take n fs) @ drop n fs"
proof (induction n)
  case (Suc n)
  then have n: "n < length fs" by simp
  from n have "take (Suc n) fs = take n fs @ [fs ! n]" "drop n fs = fs ! n # drop (Suc n) fs"
    by (simp_all add: take_Suc_conv_app_nth Cons_nth_drop_Suc)
  with Suc n show ?case
    by (simp add: redact_at_def nth_append list_update_append)
qed simp

lemma Redact_Process_fields:
  "rFields (Redact_Process p r) =
     map (\<lambda>f. if fKey f \<in> Deny p then FString (fKey f) (if Censor p = [] then REDACTED else Censor p) else f)
       (rFields r)"
  by (simp add: Redact_Process_def Let_def fold_redact_at)

text \<open>The effect of the path redactor on one field.\<close>

definition redact_field :: "golib \<Rightarrow> PathRedactor \<Rightarrow> Field \<Rightarrow> Field list" where
  "redact_field lib pr f =
     (if \<not> pr_matches pr (fKey f) then [f]
      else (case pr_strategy pr of
              Drop \<Rightarrow> []
            | Hash \<Rightarrow> [FString (fKey f) (hashValue lib f)]
            | Mask \<Rightarrow> [FString (fKey f) (pr_censor pr)]))"

lemma path_step_redact:
  "path_step lib pr i (arr, j) =
     (case redact_field lib pr (arr ! i) of [] \<Rightarrow> (arr, j) | g # _ \<Rightarrow> (arr[j := g], j + 1))"
  by (simp add: path_step_def redact_field_def Let_def split: RedactStrategy.split)

lemma redact_field_length: "length (redact_field lib pr f) \<le> 1"
  by (simp add: redact_field_def split: RedactStrategy.split)

lemma path_fold_inv:
  assumes "n \<le> length fs" "fold (path_step lib pr) [0..<n] (fs, 0) = (arr, j)"
  shows "length arr = length fs \<and> j \<le> n \<and> drop n arr = drop n fs \<and>
    take j arr = concat (map (redact_field lib pr) (take n fs))"
  using assms
proof (induction n arbitrary: arr j)
  case (Suc n)
  obtain arr0 j0 where 0: "fold (path_step lib pr) [0..<n] (fs, 0) = (arr0, j0)" by fastforce
  from Suc.IH [OF _ 0] Suc.prems(1) have IH: "length arr0 = length fs" "j0 \<le> n" "drop n arr0 = drop n fs"
    "take j0 arr0 = concat (map (redact_field lib pr) (take n fs))" by simp_all
  have n: "n < length fs" using Suc.prems(1) by simp
  have "arr0 ! n = fs ! n"
    using IH(1,3) n by (metis Cons_nth_drop_Suc list.inject)
  then have step: "(arr, j) =
      (case redact_field lib pr (fs ! n) of [] \<Rightarrow> (arr0, j0) | g # _ \<Rightarrow> (arr0[j0 := g], j0 + 1))"
    using Suc.prems(2) 0 by (simp add: path_step_redact)
  have d: "drop (Suc n) arr0 = drop (Suc n) fs"
    using IH(3) by (metis drop_Suc tl_drop)
  have t: "take (Suc n) fs = take n fs @ [fs ! n]" using n by (simp add: take_Suc_conv_app_nth)
  show ?case
  proof (cases "redact_field lib pr (fs ! n)")
    case Nil
    with step IH d t show ?thesis by simp
  next
    case (Cons g gs)
    then have "gs = []" using redact_field_length [of lib pr "fs ! n"] by simp
    with Cons step IH d t n show ?thesis by (simp add: take_Suc_conv_app_nth)
  qed
qed simp

lemma Path_Process_fields:
  "rFields (Path_Process lib pr r) = concat (map (redact_field lib pr) (rFields r))"
proof -
  obtain arr j where "fold (path_step lib pr) [0..<length (rFields r)] (rFields r, 0) = (arr, j)" by fastforce
  with path_fold_inv [OF order_refl this] show ?thesis by (simp add: Path_Process_def)
qed

text \<open>The in-place filter of the path redactor, which writes its output into the array it is still
  reading, computes the same fields as redacting each original field separately: no field is
  read after it was overwritten.\<close>

lemma Path_Process_inplace:
  "Path_Process lib pr r = r\<lparr>rFields := concat (map (redact_field lib pr) (rFields r))\<rparr>"
  using Path_Process_fields [of lib pr r] by (simp add: Path_Process_def split: prod.splits)

text \<open>Redaction hides: two records that differ only in the values of fields whose keys match a
  pattern leave the path redactor (Mask or Drop) as the same record, so nothing downstream
  can depend on a redacted value; and every field that still has a matching key carries
  exactly the censor string.\<close>

lemma Path_Process_hides:
  assumes "pr_strategy pr \<noteq> Hash"
    and "list_all2 (\<lambda>f g. fKey f = fKey g \<and> (\<not> pr_matches pr (fKey f) \<longrightarrow> f = g)) (rFields r1) fs2"
    and "r2 = r1\<lparr>rFields := fs2\<rparr>"
  shows "Path_Process lib pr r1 = Path_Process lib pr r2
    \<and> (\<forall>f \<in> set (rFields (Path_Process lib pr r1)).
          pr_matches pr (fKey f) \<longrightarrow> f = FString (fKey f) (pr_censor pr))"
proof
  have eq: "redact_field lib pr f = redact_field lib pr g"
    if "fKey f = fKey g" "\<not> pr_matches pr (fKey f) \<longrightarrow> f = g" for f g
    using that assms(1) by (auto simp: redact_field_def split: RedactStrategy.split)
  have "map (redact_field lib pr) (rFields r1) = map (redact_field lib pr) fs2"
    using assms(2) eq by (simp add: list_all2_conv_all_nth list_eq_iff_nth_eq)
  then have "rFields (Path_Process lib pr r1) = rFields (Path_Process lib pr r2)"
    using assms(3) by (simp add: Path_Process_fields)
  then show "Path_Process lib pr r1 = Path_Process lib pr r2"
    using assms(3) by (simp add: Path_Process_def split: prod.splits)
  show "\<forall>f \<in> set (rFields (Path_Process lib pr r1)).
          pr_matches pr (fKey f) \<longrightarrow> f = FString (fKey f) (pr_censor pr)"
    using assms(1) by (auto simp: Path_Process_fields redact_field_def split: RedactStrategy.splits if_splits)
qed

theorem Path_Process_hides_witness:
  "Path_Process sample_lib (NewPathRedactor Mask [] [''*.password''])
       (zeroRecord\<lparr>rFields := [FString ''u.password'' ''hunter2'', FString ''u.name'' ''ada'']\<rparr>)
   = Path_Process sample_lib (NewPathRedactor Mask [] [''*.password''])
       (zeroRecord\<lparr>rFields := [FBool ''u.password'' True, FString ''u.name'' ''ada'']\<rparr>)"
proof -
  let ?pr = "NewPathRedactor Mask [] [''*.password'']"
  have "list_all2 (\<lambda>f g. fKey f = fKey g \<and> (\<not> pr_matches ?pr (fKey f) \<longrightarrow> f = g))
      [FString ''u.password'' ''hunter2'', FString ''u.name'' ''ada'']
      [FBool ''u.password'' True, FString ''u.name'' ''ada'']"
    by (simp add: NewPathRedactor_def pr_matches_def segMatch_def segMatch_from.simps)
  then show ?thesis
    using Path_Process_hides [of ?pr
        "zeroRecord\<lparr>rFields := [FString ''u.password'' ''hunter2'', FString ''u.name'' ''ada'']\<rparr>"
        "[FBool ''u.password'' True, FString ''u.name'' ''ada'']"
        "zeroRecord\<lparr>rFields := [FBool ''u.password'' True, FString ''u.name'' ''ada'']\<rparr>" sample_lib]
    by (simp add: NewPathRedactor_def)
qed

section \<open>Pattern matching\<close>

fun smatch :: "string list \<Rightarrow> string list \<Rightarrow> bool" where
  "smatch [] ks = (ks = [])"
| "smatch (p # ps) ks =
     (p = ''**'' \<or> (case ks of [] \<Rightarrow> False | k # ks' \<Rightarrow> (p = ''*'' \<or> p = k) \<and> smatch ps ks'))"

lemma segMatch_from_smatch:
  "i \<le> length pat \<Longrightarrow> i \<le> length key \<Longrightarrow> segMatch_from pat key i = smatch (drop i pat) (drop i key)"
proof (induction pat key i rule: segMatch_from.induct)
  case (1 pat key i)
  show ?case
  proof (cases "i < length pat")
    case True
    then have p: "drop i pat = pat ! i # drop (Suc i) pat" by (simp add: Cons_nth_drop_Suc)
    show ?thesis
    proof (cases "i < length key")
      case k: True
      then have "drop i key = key ! i # drop (Suc i) key" by (simp add: Cons_nth_drop_Suc)
      with "1.IH" True k p show ?thesis by (auto simp: segMatch_from.simps [of pat key i])
    next
      case False
      with True p show ?thesis by (simp add: segMatch_from.simps [of pat key i])
    qed
  next
    case False
    with "1.prems" have "i = length pat" by simp
    with "1.prems" show ?thesis by (auto simp: segMatch_from.simps [of pat key "length pat"])
  qed
qed

lemma segMatch_smatch: "segMatch pat key = smatch pat key"
  by (simp add: segMatch_def segMatch_from_smatch)

text \<open>
  The documented meaning of a pattern: a literal segment matches itself, \<open>*\<close> exactly one
  segment, a final \<open>**\<close> any number of segments.
\<close>

inductive path_matches :: "string list \<Rightarrow> string list \<Rightarrow> bool" where
  pm_end: "path_matches [] []"
| pm_star: "path_matches ps ks \<Longrightarrow> path_matches (''*'' # ps) (k # ks)"
| pm_lit: "path_matches ps ks \<Longrightarrow> path_matches (k # ps) (k # ks)"
| pm_tail: "path_matches [''**''] ks"

inductive_simps path_matches_iff:
  "path_matches [] ks" "path_matches (p # ps) []" "path_matches (p # ps) (k # ks)"

lemma path_matches_smatch: "path_matches pat key \<Longrightarrow> smatch pat key"
  by (induction rule: path_matches.induct) auto

lemma smatch_path_matches:
  "smatch pat key \<Longrightarrow> ''**'' \<notin> set (butlast pat) \<Longrightarrow> path_matches pat key"
proof (induction pat key rule: smatch.induct)
  case (2 p ps ks)
  show ?case
  proof (cases "p = ''**''")
    case True
    with "2.prems"(2) have "ps = []" by (cases ps) auto
    with True show ?thesis by (simp add: pm_tail)
  next
    case False
    with "2.prems"(1) obtain k ks' where ks: "ks = k # ks'" "p = ''*'' \<or> p = k" "smatch ps ks'"
      by (auto split: list.splits)
    have "''**'' \<notin> set (butlast ps)" using "2.prems"(2) by (auto split: if_splits)
    then have "path_matches ps ks'" using "2.IH" [OF ks(1)] ks(3) by simp
    with ks(1,2) show ?thesis by (auto intro: pm_star pm_lit)
  qed
qed (auto intro: pm_end)

text \<open>For patterns of the documented form (\<open>**\<close> only as the last segment) the matcher decides
  exactly the documented relation between patterns and key paths.\<close>

lemma segMatch_spec:
  assumes "''**'' \<notin> set (butlast pat)"
  shows "segMatch pat key \<longleftrightarrow> path_matches pat key"
  using assms path_matches_smatch smatch_path_matches by (auto simp: segMatch_smatch)

theorem segMatch_spec_witness:
  "''**'' \<notin> set (butlast [''user'', ''*'', ''**'']) \<and>
   segMatch [''user'', ''*'', ''**''] [''user'', ''a'', ''b'', ''c''] \<and>
   \<not> segMatch [''user'', ''*''] [''user'', ''a'', ''b'', ''c'']"
  using segMatch_spec [of "[''user'', ''*'', ''**'']"] segMatch_spec [of "[''user'', ''*'']"]
  by (simp add: path_matches_iff)

lemma smatch_tail: "smatch (ps @ ''**'' # qs) key \<longleftrightarrow> smatch (ps @ [''**'']) key"
  by (induction ps arbitrary: key) (auto split: list.splits)

text \<open>The position rule for \<open>**\<close> is not enforced: segments after a \<open>**\<close> are ignored, so a pattern
  such as \<open>a.**.b\<close> redacts everything below \<open>a\<close>, whatever its last segment.\<close>

lemma segMatch_ignores_tail:
  "segMatch (ps @ [''**''] @ qs) key \<longleftrightarrow> segMatch (ps @ [''**'']) key"
  using smatch_tail by (simp add: segMatch_smatch)

section \<open>Sampling is exact\<close>

text \<open>Running the sampler over a sequence of records: which ones it keeps.\<close>

fun sample_run :: "Record list \<Rightarrow> SampleProcessor \<Rightarrow> SampleProcessor \<times> bool list" where
  "sample_run [] p = (p, [])"
| "sample_run (r # rs) p =
     (case Sample_Process r p of (p', e) \<Rightarrow>
        (case sample_run rs p' of (p'', ks) \<Rightarrow> (p'', (e = None) # ks)))"

definition sample_keeps :: "nat \<Rightarrow> nat \<Rightarrow> nat \<Rightarrow> bool" where
  "sample_keeps f t i = (i \<le> f \<or> t dvd (i - f))"

definition low_count :: "Level \<Rightarrow> Record list \<Rightarrow> nat" where
  "low_count l rs = length (filter (\<lambda>r. rLevel r < l) rs)"

definition low_kept :: "Level \<Rightarrow> Record list \<Rightarrow> bool list \<Rightarrow> nat" where
  "low_kept l rs ks = length (filter (\<lambda>(r, k). rLevel r < l \<and> k) (zip rs ks))"

lemma sample_decision:
  fixes first t :: u64
  assumes "i < 2 ^ 64"
  shows "(of_nat i \<le> first \<or> (of_nat i - first) mod t = 0) \<longleftrightarrow> sample_keeps (unat first) (unat t) i"
proof -
  have i: "unat (of_nat i :: u64) = i" using assms by (simp add: unat_of_nat)
  show ?thesis
  proof (cases "i \<le> unat first")
    case True
    then show ?thesis using i by (simp add: sample_keeps_def word_le_nat_alt)
  next
    case False
    then have "first \<le> of_nat i" "\<not> of_nat i \<le> first" using i by (simp_all add: word_le_nat_alt)
    then have "unat ((of_nat i - first) mod t) = (i - unat first) mod unat t"
      using i by (simp add: unat_mod unat_sub)
    moreover have "(of_nat i - first) mod t = 0 \<longleftrightarrow> unat ((of_nat i - first) mod t) = 0"
      by (simp add: unat_eq_0)
    ultimately show ?thesis
      using False \<open>\<not> of_nat i \<le> first\<close> by (simp add: sample_keeps_def mod_eq_0_iff_dvd)
  qed
qed

lemma Sample_Process_low:
  assumes "rLevel r < sp_NeverBelow p" "sp_Thereafter p \<noteq> 0" "sp_n p = of_nat c" "c + 1 < 2 ^ 64"
  shows "Sample_Process r p =
    (if sample_keeps (unat (sp_First p)) (unat (sp_Thereafter p)) (c + 1)
     then (p\<lparr>sp_n := of_nat (c + 1)\<rparr>, None)
     else (p\<lparr>sp_n := of_nat (c + 1), sp_dropped := sp_dropped p + 1\<rparr>, Some ErrDrop))"
proof -
  have "sample_keeps (unat (sp_First p)) (unat (sp_Thereafter p)) (Suc c) \<longleftrightarrow>
    1 + of_nat c \<le> sp_First p \<or> (1 + of_nat c - sp_First p) mod sp_Thereafter p = 0"
    using sample_decision [OF assms(4), of "sp_First p" "sp_Thereafter p"] by simp
  with assms(1-3) show ?thesis by (simp add: Sample_Process_def Let_def add.commute)
qed

lemma Sample_Process_high:
  "sp_NeverBelow p \<le> rLevel r \<Longrightarrow> Sample_Process r p = (p, None)"
  by (simp add: Sample_Process_def)

definition keeps_between :: "nat \<Rightarrow> nat \<Rightarrow> nat \<Rightarrow> nat \<Rightarrow> nat" where
  "keeps_between f t c m = length (filter (sample_keeps f t) [Suc c..<Suc (c + m)])"

lemma keeps_between_step:
  "keeps_between f t c (Suc m) = (if sample_keeps f t (Suc c) then 1 else 0) + keeps_between f t (Suc c) m"
  by (simp add: keeps_between_def upt_conv_Cons del: upt_Suc)

lemma keeps_between_le: "keeps_between f t c m \<le> m"
  using length_filter_le [of "sample_keeps f t" "[Suc c..<Suc (c + m)]"]
  by (simp add: keeps_between_def del: upt_Suc)

lemma keeps_between_total:
  assumes "0 < t"
  shows "keeps_between f t 0 k = (if k \<le> f then k else f + (k - f) div t)"
proof (induction k)
  case (Suc k)
  have "keeps_between f t 0 (Suc k) = keeps_between f t 0 k + (if sample_keeps f t (Suc k) then 1 else 0)"
    by (simp add: keeps_between_def)
  moreover have "(Suc k - f) div t = (k - f) div t + (if t dvd (Suc k - f) then 1 else 0)" if "f \<le> k"
    using that assms by (simp add: Suc_diff_le div_Suc mod_eq_0_iff_dvd [symmetric])
  ultimately show ?case using Suc.IH by (auto simp: sample_keeps_def not_le le_Suc_eq)
qed (simp add: keeps_between_def)

lemma sample_run_gen:
  assumes "sp_Thereafter p \<noteq> 0" "sp_n p = of_nat c" "c + length rs < 2 ^ 64"
    and "sample_run rs p = (p', ks)"
  defines "f \<equiv> unat (sp_First p)" and "t \<equiv> unat (sp_Thereafter p)" and "l \<equiv> sp_NeverBelow p"
  shows "length ks = length rs \<and> (\<forall>i < length rs. l \<le> rLevel (rs ! i) \<longrightarrow> ks ! i)
    \<and> low_kept l rs ks = keeps_between f t c (low_count l rs)
    \<and> sp_dropped p' = sp_dropped p + of_nat (low_count l rs - low_kept l rs ks)"
  using assms(1-4) unfolding f_def t_def l_def
proof (induction rs arbitrary: p c ks p')
  case Nil
  then show ?case by (simp add: low_kept_def low_count_def keeps_between_def)
next
  case (Cons r rs)
  obtain p1 e where 1: "Sample_Process r p = (p1, e)" by fastforce
  obtain ks2 where 2: "sample_run rs p1 = (p', ks2)" and ks: "ks = (e = None) # ks2"
    using Cons.prems(4) 1 by (auto split: prod.splits)
  let ?f = "unat (sp_First p)" and ?t = "unat (sp_Thereafter p)" and ?l = "sp_NeverBelow p"
  show ?case
  proof (cases "rLevel r < sp_NeverBelow p")
    case True
    have "c + 1 < 2 ^ 64" using Cons.prems(3) by simp
    note low = Sample_Process_low [OF True Cons.prems(1,2) this]
    from low 1 have p1: "sp_Thereafter p1 = sp_Thereafter p" "sp_n p1 = of_nat (c + 1)"
      "sp_First p1 = sp_First p" "sp_NeverBelow p1 = sp_NeverBelow p"
      "sp_dropped p1 = sp_dropped p + (if sample_keeps ?f ?t (c + 1) then 0 else 1)"
      "(e = None) = sample_keeps ?f ?t (c + 1)"
      by (auto split: if_splits)
    have "sp_Thereafter p1 \<noteq> 0" "c + 1 + length rs < 2 ^ 64" using Cons.prems(1,3) p1(1) by simp_all
    note IH = Cons.IH [OF this(1) p1(2) this(2) 2, unfolded p1(1,3,4)]
    have cnt: "low_count ?l (r # rs) = Suc (low_count ?l rs)" using True by (simp add: low_count_def)
    have kept: "low_kept ?l (r # rs) ks = (if sample_keeps ?f ?t (c + 1) then 1 else 0) + low_kept ?l rs ks2"
      using True p1(6) by (simp add: low_kept_def ks)
    have le: "low_kept ?l rs ks2 \<le> low_count ?l rs" using IH keeps_between_le by simp
    have drop: "sp_dropped p' = sp_dropped p + of_nat (low_count ?l (r # rs) - low_kept ?l (r # rs) ks)"
      using IH p1(5) cnt kept le by (simp add: Suc_diff_le)
    show ?thesis
      using IH cnt kept drop True by (simp add: keeps_between_step ks nth_Cons split: nat.split)
  next
    case False
    then have p1: "p1 = p" "e = None" using 1 Sample_Process_high [of p r] by simp_all
    have "c + length rs < 2 ^ 64" using Cons.prems(3) by simp
    from Cons.IH [OF Cons.prems(1,2) this 2 [unfolded p1(1)]] False show ?thesis
      by (simp add: ks p1 low_count_def low_kept_def nth_Cons split: nat.split)
  qed
qed

text \<open>Which ones: the decision depends on the rank among the records below the exempt level.\<close>

lemma sample_positions:
  assumes "sp_Thereafter p \<noteq> 0" "sp_n p = of_nat c" "c + length rs < 2 ^ 64"
    and "sample_run rs p = (p', ks)" "i < length rs" "rLevel (rs ! i) < sp_NeverBelow p"
  shows "ks ! i \<longleftrightarrow> sample_keeps (unat (sp_First p)) (unat (sp_Thereafter p)) (c + low_count (sp_NeverBelow p) (take (Suc i) rs))"
  using assms
proof (induction rs arbitrary: p c ks p' i)
  case (Cons r rs)
  obtain p1 e where 1: "Sample_Process r p = (p1, e)" by fastforce
  obtain ks2 where 2: "sample_run rs p1 = (p', ks2)" and ks: "ks = (e = None) # ks2"
    using Cons.prems(4) 1 by (auto split: prod.splits)
  define d where "d = (if rLevel r < sp_NeverBelow p then 1 else 0 :: nat)"
  have c: "c + 1 < 2 ^ 64" using Cons.prems(3) by simp
  have p1: "sp_Thereafter p1 = sp_Thereafter p" "sp_n p1 = of_nat (c + d)" "sp_First p1 = sp_First p"
    "sp_NeverBelow p1 = sp_NeverBelow p"
    and e: "rLevel r < sp_NeverBelow p \<Longrightarrow> (e = None) = sample_keeps (unat (sp_First p)) (unat (sp_Thereafter p)) (c + 1)"
    using 1 Sample_Process_low [OF _ Cons.prems(1,2) c, of r] Sample_Process_high [of p r] Cons.prems(2)
    by (cases "rLevel r < sp_NeverBelow p"; auto simp: d_def not_less split: if_splits)+
  show ?case
  proof (cases i)
    case 0
    then show ?thesis using Cons.prems(6) e by (simp add: ks low_count_def)
  next
    case (Suc j)
    have "ks2 ! j \<longleftrightarrow> sample_keeps (unat (sp_First p1)) (unat (sp_Thereafter p1))
        (c + d + low_count (sp_NeverBelow p1) (take (Suc j) rs))"
      using Cons.prems p1 Suc by (intro Cons.IH [OF _ _ _ 2]) (auto simp: d_def)
    then show ?thesis by (simp add: ks Suc p1 low_count_def d_def)
  qed
qed simp

text \<open>C37: the sampler over any sequence of fewer than \<open>2^64\<close> records, starting fresh. Records at
  or above ERROR are all kept. Of the others, counted \<open>1, 2, \<dots>\<close> over the whole sequence, exactly
  the first \<open>First\<close> and then every \<open>Thereafter\<close>th are kept; their number follows; and the dropped
  counter is exactly the number of records discarded, so no loss is silent. The count is never
  reset: the documentation speaks of the first \<open>First\<close> records per reset window, but the
  code has no window, and \<open>First\<close> applies once in the life of the sampler.\<close>

theorem sample_exact:
  assumes "thereafter \<noteq> 0" "length rs < 2 ^ 64"
    and "sample_run rs (NewSampleProcessor first thereafter) = (p, ks)"
  defines "k \<equiv> low_count LevelError rs"
  defines "kept \<equiv> (if k \<le> unat first then k else unat first + (k - unat first) div unat thereafter)"
  shows "(\<forall>i < length rs. LevelError \<le> rLevel (rs ! i) \<longrightarrow> ks ! i)
    \<and> (\<forall>i < length rs. rLevel (rs ! i) < LevelError \<longrightarrow>
         (ks ! i \<longleftrightarrow> (let j = low_count LevelError (take (Suc i) rs) in j \<le> unat first \<or> unat thereafter dvd j - unat first)))
    \<and> low_kept LevelError rs ks = kept
    \<and> sp_dropped p = of_nat (k - kept)"
proof -
  have "0 < unat thereafter" using assms(1) by (simp add: unat_gt_0)
  then show ?thesis
    using sample_run_gen [of "NewSampleProcessor first thereafter" 0 rs p ks]
      sample_positions [of "NewSampleProcessor first thereafter" 0 rs p ks] assms(1-3)
    by (simp add: NewSampleProcessor_def keeps_between_total k_def kept_def sample_keeps_def Let_def)
qed

abbreviation info_record :: Record where
  "info_record \<equiv> zeroRecord\<lparr>rLevel := LevelInfo\<rparr>"

abbreviation error_record :: Record where
  "error_record \<equiv> zeroRecord\<lparr>rLevel := LevelError\<rparr>"

theorem sample_exact_witness:
  "low_kept LevelError [info_record, info_record, info_record, info_record, error_record]
     [True, False, True, False, True] = 2
   \<and> sp_dropped (fst (sample_run [info_record, info_record, info_record, info_record, error_record]
       (NewSampleProcessor 1 2))) = 2"
proof -
  let ?rs = "[info_record, info_record, info_record, info_record, error_record]"
  have run: "sample_run ?rs (NewSampleProcessor 1 2) =
      ((NewSampleProcessor 1 2)\<lparr>sp_n := 4, sp_dropped := 2\<rparr>, [True, False, True, False, True])"
    by (simp add: NewSampleProcessor_def Sample_Process_def Let_def level_defs word_le_nat_alt)
  have k: "low_count LevelError ?rs = 4"
    by (simp add: low_count_def level_defs)
  from sample_exact [OF _ _ run] show ?thesis unfolding run by (simp add: k)
qed

section \<open>Deduplication\<close>

fun dedup_run ::
  "(gtime \<times> Record) list \<Rightarrow> DedupProcessor \<Rightarrow> DedupProcessor \<times> (gtime \<times> Record \<times> Record \<times> perr option) list" where
  "dedup_run [] d = (d, [])"
| "dedup_run ((now, r) # rs) d =
     (case Dedup_Process now r d of (d', r', e) \<Rightarrow>
        (case dedup_run rs d' of (d'', outs) \<Rightarrow> (d'', (now, r, r', e) # outs)))"

definition dd_pending :: "DedupProcessor \<Rightarrow> string \<Rightarrow> u64" where
  "dd_pending d k = (case dd_seen d k of None \<Rightarrow> 0 | Some (_, n) \<Rightarrow> n)"

definition dd_last :: "DedupProcessor \<Rightarrow> string \<Rightarrow> gtime" where
  "dd_last d k = (case dd_seen d k of None \<Rightarrow> 0 | Some (t, _) \<Rightarrow> t)"

text \<open>The count a passing record was annotated with: the value of the field added to it.\<close>

definition dedup_note :: "Record \<Rightarrow> Record \<Rightarrow> u64" where
  "dedup_note r r' = (if rFields r' = rFields r then 0 else fnum (last (rFields r')))"

lemma Dedup_Process_cases:
  "Dedup_Process now r d =
     (if dd_last d (dedup_key r) \<noteq> 0 \<and> time_Sub now (dd_last d (dedup_key r)) < dd_Window d
      then (d\<lparr>dd_seen := (dd_seen d)(dedup_key r \<mapsto> (dd_last d (dedup_key r), dd_pending d (dedup_key r) + 1))\<rparr>,
            r, Some ErrDrop)
      else (d\<lparr>dd_seen := (dd_seen d)(dedup_key r \<mapsto> (now, 0))\<rparr>,
            if 0 < dd_pending d (dedup_key r)
            then r\<lparr>rFields := rFields r @
                   [FInt (IntTy False 64) ''deduped_count'' (uint (dd_pending d (dedup_key r)))]\<rparr>
            else r, None))"
  by (auto simp: Dedup_Process_def dd_last_def dd_pending_def Let_def split: option.split prod.split)

lemma fnum_FInt_u64: "fnum (FInt (IntTy False 64) k (uint n)) = n"
  by (simp add: FInt_def mkField_def wrapT_def)

lemma dedup_step:
  assumes "Dedup_Process now r d = (d', r', e)"
  shows "dd_pending d k + (if e \<noteq> None \<and> dedup_key r = k then 1 else 0) =
      (if e = None \<and> dedup_key r = k then dedup_note r r' else 0) + dd_pending d' k"
    and "dd_last d' k = (if e = None \<and> dedup_key r = k then now else dd_last d k)"
    and "e = None \<Longrightarrow> dd_last d (dedup_key r) = 0 \<or> dd_Window d \<le> time_Sub now (dd_last d (dedup_key r))"
    and "dd_Window d' = dd_Window d"
  using assms
  by (auto simp: Dedup_Process_cases dd_pending_def [of "dd_seen_update _ _"] dd_last_def [of "dd_seen_update _ _"]
      dedup_note_def fnum_FInt_u64 word_gt_0 split: if_splits) (auto simp: dd_pending_def dd_last_def)

definition dedup_drops :: "string \<Rightarrow> (gtime \<times> Record \<times> Record \<times> perr option) list \<Rightarrow> nat" where
  "dedup_drops k outs = length (filter (\<lambda>(now, r, r', e). e \<noteq> None \<and> dedup_key r = k) outs)"

definition dedup_notes :: "string \<Rightarrow> (gtime \<times> Record \<times> Record \<times> perr option) list \<Rightarrow> u64" where
  "dedup_notes k outs =
     sum_list (map (\<lambda>(now, r, r', e). dedup_note r r')
       (filter (\<lambda>(now, r, r', e). e = None \<and> dedup_key r = k) outs))"

definition pass_times :: "string \<Rightarrow> (gtime \<times> Record \<times> Record \<times> perr option) list \<Rightarrow> gtime list" where
  "pass_times k outs =
     map fst (filter (\<lambda>(now, r, r', e). e = None \<and> dedup_key r = k) outs)"

lemma dedup_run_account:
  "dedup_run rs d = (d', outs) \<Longrightarrow>
   dd_pending d k + of_nat (dedup_drops k outs) = dedup_notes k outs + dd_pending d' k"
proof (induction rs arbitrary: d outs)
  case Nil
  then show ?case by (simp add: dedup_drops_def dedup_notes_def)
next
  case (Cons x rs)
  obtain now r where x: "x = (now, r)" by fastforce
  obtain d1 r' e where 1: "Dedup_Process now r d = (d1, r', e)" by (metis prod_cases3)
  obtain outs1 where 2: "dedup_run rs d1 = (d', outs1)" and o: "outs = (now, r, r', e) # outs1"
    using Cons.prems x 1 by (auto split: prod.splits)
  note IH = Cons.IH [OF 2]
  have step: "dd_pending d k + (if e \<noteq> None \<and> dedup_key r = k then 1 else 0) =
      (if e = None \<and> dedup_key r = k then dedup_note r r' else 0) + dd_pending d1 k"
    by (rule dedup_step(1) [OF 1])
  have "dd_pending d k + of_nat (dedup_drops k outs) =
    (dd_pending d k + (if e \<noteq> None \<and> dedup_key r = k then 1 else 0)) + of_nat (dedup_drops k outs1)"
    by (simp add: o dedup_drops_def)
  also have "\<dots> = (if e = None \<and> dedup_key r = k then dedup_note r r' else 0) + dedup_notes k outs1 + dd_pending d' k"
    unfolding step using IH by (simp add: algebra_simps)
  finally show ?case by (simp add: o dedup_notes_def)
qed

lemma dedup_run_spacing:
  "dedup_run rs d = (d', outs) \<Longrightarrow>
   successively (\<lambda>a b. a = 0 \<or> dd_Window d \<le> time_Sub b a) (dd_last d k # pass_times k outs)"
proof (induction rs arbitrary: d outs)
  case Nil
  then show ?case by (simp add: pass_times_def)
next
  case (Cons x rs)
  obtain now r where x: "x = (now, r)" by fastforce
  obtain d1 r' e where 1: "Dedup_Process now r d = (d1, r', e)" by (metis prod_cases3)
  obtain outs1 where 2: "dedup_run rs d1 = (d', outs1)" and o: "outs = (now, r, r', e) # outs1"
    using Cons.prems x 1 by (auto split: prod.splits)
  from Cons.IH [OF 2] dedup_step(2,3,4) [OF 1] show ?case
    by (auto simp: o pass_times_def split: if_splits)
qed

text \<open>Deduplication loses no count: for every level-band and message, over any sequence of
  records and clock readings, the number of suppressed records is the sum of the
  \<open>deduped_count\<close> annotations on the records that passed plus what is still pending.\<close>

lemma dedup_accounting:
  "of_nat (dedup_drops k (snd (dedup_run rs (NewDedupProcessor w))))
    = dedup_notes k (snd (dedup_run rs (NewDedupProcessor w)))
      + dd_pending (fst (dedup_run rs (NewDedupProcessor w))) k"
proof -
  have "dd_pending (NewDedupProcessor w) k = 0" by (simp add: dd_pending_def NewDedupProcessor_def)
  with dedup_run_account [of rs "NewDedupProcessor w" _ _ k] show ?thesis
    by (metis add_0 prod.collapse)
qed

text \<open>Deduplication limits the rate: any two consecutive records with the same band and message
  that pass are at least a window apart by the clock (a pass at the zero instant, which marks
  "never seen", excepted).\<close>

lemma dedup_spacing:
  "successively (\<lambda>a b. a = 0 \<or> dd_Window (NewDedupProcessor w) \<le> time_Sub b a)
     (pass_times k (snd (dedup_run rs (NewDedupProcessor w))))"
proof -
  have "successively (\<lambda>a b. a = 0 \<or> dd_Window (NewDedupProcessor w) \<le> time_Sub b a)
     (dd_last (NewDedupProcessor w) k # pass_times k (snd (dedup_run rs (NewDedupProcessor w))))"
    by (rule dedup_run_spacing) (rule surjective_pairing)
  then show ?thesis
    by (cases "pass_times k (snd (dedup_run rs (NewDedupProcessor w)))") auto
qed

text \<open>The deduplication key ignores the event name: two named events (which have no message) with
  different names but the same band count as identical, so the second one within the window
  is dropped.\<close>

lemma dedup_conflates_events:
  assumes "Level_String (rLevel r1) = Level_String (rLevel r2)"
    and "rMessage r1 = []" "rMessage r2 = []" "rEventName r1 \<noteq> rEventName r2"
    and "now1 \<noteq> 0" "time_Sub now2 now1 < dd_Window (NewDedupProcessor w)"
  shows "snd (snd (Dedup_Process now2 r2 (fst (Dedup_Process now1 r1 (NewDedupProcessor w))))) = Some ErrDrop"
proof -
  have "dedup_key r1 = dedup_key r2" using assms(1-3) by (simp add: dedup_key_def)
  with assms(5,6) show ?thesis
    by (simp add: Dedup_Process_cases dd_last_def NewDedupProcessor_def)
qed

theorem dedup_conflates_events_witness:
  "snd (snd (Dedup_Process 200 (zeroRecord\<lparr>rLevel := LevelInfo, rEventName := ''payment.failed''\<rparr>)
     (fst (Dedup_Process 100 (zeroRecord\<lparr>rLevel := LevelInfo, rEventName := ''user.login''\<rparr>)
        (NewDedupProcessor 1000))))) = Some ErrDrop"
  by (rule dedup_conflates_events) (simp_all add: zeroRecord_def NewDedupProcessor_def time_Sub_def)

section \<open>The contract of a processor\<close>

text \<open>
  What the rest of the logger relies on: a processor that lets a record through changes at
  most its fields. \<open>good\<close> singles out the processors that keep the contract (a user function
  need not).
\<close>

definition header :: "Record \<Rightarrow> Record" where
  "header r = r\<lparr>rFields := []\<rparr>"

locale field_processor =
  fixes process :: "nat \<Rightarrow> 'p \<Rightarrow> Record \<Rightarrow> 'p \<times> Record \<times> perr option"
    and good :: "'p \<Rightarrow> bool"
  assumes keeps_header: "good p \<Longrightarrow> process i p r = (p', r', e) \<Longrightarrow> header r' = header r"
    and keeps_good: "good p \<Longrightarrow> process i p r = (p', r', e) \<Longrightarrow> good p'"
begin

lemma stages_header:
  "list_all good ps \<Longrightarrow> run_stages process i ps r = (ps', r', e) \<Longrightarrow> header r' = header r"
proof (induction ps arbitrary: i r ps')
  case (Cons p ps)
  then show ?case
    by (fastforce split: prod.splits option.splits dest: keeps_header)
qed simp

lemma stages_good:
  "list_all good ps \<Longrightarrow> run_stages process i ps r = (ps', r', e) \<Longrightarrow> list_all good ps'"
proof (induction ps arbitrary: i r ps')
  case (Cons p ps)
  then show ?case
    by (fastforce split: prod.splits option.splits dest: keeps_good)
qed simp

lemma stages_length:
  "run_stages process i ps r = (ps', r', e) \<Longrightarrow> length ps' = length ps"
  by (induction ps arbitrary: i r ps') (fastforce split: prod.splits option.splits)+

end

text \<open>
  A stronger contract: processors that in addition let every record at or above a floor
  level through.
\<close>

locale lossless_processor = field_processor +
  fixes floor :: Level
  assumes passes: "good p \<Longrightarrow> process i p r = (p', r', e) \<Longrightarrow> floor \<le> rLevel r \<Longrightarrow> e = None"
begin

lemma header_level: "header r' = header r \<Longrightarrow> rLevel r' = rLevel r"
  by (metis header_def Record.select_convs(2) Record.surjective Record.update_convs(6))

lemma stages_pass:
  "list_all good ps \<Longrightarrow> run_stages process i ps r = (ps', r', e) \<Longrightarrow> floor \<le> rLevel r \<Longrightarrow> e = None"
proof (induction ps arbitrary: i r ps')
  case (Cons p ps)
  obtain p1 r1 e1 where 1: "process i p r = (p1, r1, e1)" by (metis prod_cases3)
  have "e1 = None" using Cons.prems(1,3) passes [OF _ 1] by simp
  moreover have "floor \<le> rLevel r1"
    using Cons.prems header_level [OF keeps_header [OF _ 1]] by simp
  ultimately show ?case
    using Cons.prems Cons.IH 1 by (auto split: prod.splits)
qed simp

end

lemma header_process [simp]:
  "header (Redact_Process p r) = header r" "header (Path_Process lib pr r) = header r"
  "header (Enrich_Process c e r) = header r"
  by (simp_all add: header_def Redact_Process_def Path_Process_def Enrich_Process_def Let_def
      split: prod.splits option.splits)

lemma header_Dedup: "Dedup_Process now r d = (d', r', e) \<Longrightarrow> header r' = header r"
  by (auto simp: Dedup_Process_cases header_def split: if_splits)

fun good_proc :: "gctx \<Rightarrow> Processor \<Rightarrow> bool" where
  "good_proc ctx (ProcessorFunc f) = (\<forall>r. header (fst (f ctx r)) = header r)"
| "good_proc ctx _ = True"

interpretation pipeline: field_processor "\<lambda>i. Process lib (clock i) ctx" "good_proc ctx" for lib clock ctx
proof
  fix p :: Processor and i r p' r' e
  assume "good_proc ctx p" "Process lib (clock i) ctx p r = (p', r', e)"
  then show "header r' = header r" and "good_proc ctx p'"
    by (cases p; auto split: prod.splits dest: header_Dedup; metis fst_conv)+
qed

fun spares_errors :: "gctx \<Rightarrow> Processor \<Rightarrow> bool" where
  "spares_errors ctx (PSample p) = (sp_NeverBelow p \<le> LevelError)"
| "spares_errors ctx (PDedup d) = False"
| "spares_errors ctx (ProcessorFunc f) = False"
| "spares_errors ctx _ = True"

interpretation sparing: lossless_processor "\<lambda>i. Process lib (clock i) ctx" "spares_errors ctx" LevelError
  for lib clock ctx
proof
  fix p :: Processor and i r p' r' e
  assume g: "spares_errors ctx p" and P: "Process lib (clock i) ctx p r = (p', r', e)"
  from g P show "header r' = header r"
    by (cases p) (auto split: prod.splits)
  from g P show "spares_errors ctx p'"
    by (cases p) (auto simp: Sample_Process_def Let_def split: if_splits prod.splits)
  show "e = None" if "LevelError \<le> rLevel r"
    using g P that by (cases p) (auto simp: Sample_Process_high split: prod.splits)
qed

text \<open>A pipeline of built-in processors (and user functions that keep the contract) changes nothing
  of a record but its fields: time, level, message, event name, caller and context reach the
  transport as the call site gave them, whatever is redacted, sampled, deduplicated or added.\<close>

lemma runPipeline_header:
  assumes "list_all (good_proc ctx) ps" "runPipeline lib clock ctx ps r = (ps', r', e)"
  shows "header r' = header r"
  using assms unfolding runPipeline_def by (rule pipeline.stages_header)

theorem runPipeline_header_witness:
  "list_all (good_proc []) [PRedact (NewRedactProcessor [''k'']), PSample (NewSampleProcessor 1 1)] \<and>
   header (fst (snd (runPipeline sample_lib (\<lambda>_. 0) []
     [PRedact (NewRedactProcessor [''k'']), PSample (NewSampleProcessor 1 1)] info_record))) = header info_record"
proof -
  let ?ps = "[PRedact (NewRedactProcessor [''k'']), PSample (NewSampleProcessor 1 1)]"
  have g: "list_all (good_proc []) ?ps" by simp
  obtain ps' r' e where run: "runPipeline sample_lib (\<lambda>_. 0) [] ?ps info_record = (ps', r', e)"
    by (metis prod_cases3)
  from runPipeline_header [OF g run] g run show ?thesis by simp
qed

text \<open>Errors are never sampled away: a pipeline of redactors, enrichers and samplers whose threshold
  is at most ERROR (what \<open>NewSampleProcessor\<close> builds) lets every record at or above ERROR
  through.\<close>

lemma runPipeline_keeps_errors:
  assumes "list_all (spares_errors ctx) ps" "LevelError \<le> rLevel r"
    and "runPipeline lib clock ctx ps r = (ps', r', e)"
  shows "e = None"
  using assms(1,3,2) unfolding runPipeline_def by (rule sparing.stages_pass)

theorem runPipeline_keeps_errors_witness:
  "list_all (spares_errors []) [PSample ((NewSampleProcessor 0 100)\<lparr>sp_n := 7\<rparr>)] \<and>
   snd (snd (runPipeline sample_lib (\<lambda>_. 0) [] [PSample ((NewSampleProcessor 0 100)\<lparr>sp_n := 7\<rparr>)] error_record)) = None"
proof -
  let ?ps = "[PSample ((NewSampleProcessor 0 100)\<lparr>sp_n := 7\<rparr>)]"
  have g: "list_all (spares_errors []) ?ps" by (simp add: NewSampleProcessor_def)
  have l: "LevelError \<le> rLevel error_record" by simp
  obtain ps' r' e where run: "runPipeline sample_lib (\<lambda>_. 0) [] ?ps error_record = (ps', r', e)"
    by (metis prod_cases3)
  from runPipeline_keeps_errors [OF g l run] g run show ?thesis by simp
qed

end
