(* ===== verification/Transport_Spec.thy ===== *)
theory Transport_Spec
  imports Log_Record
begin

text \<open>
  What every asynchronous transport promises (\<open>transport.go\<close>, the \<open>Transport\<close> interface): an
  abstract machine of a bounded FIFO queue between producers and one worker, with explicit
  overflow policies and counted losses; its invariants; and the locale \<open>transport\<close>, the
  simulation a concrete transport proves to obtain them.
\<close>

section \<open>The abstract machine\<close>

datatype OverflowPolicy = Block | DropNewest | DropOldest

text \<open>
  \<open>t_delivered\<close> is the sequence of records handed to \<open>sink.Emit\<close>; \<open>t_inflight\<close> the record the
  worker took and has not emitted yet. The history \<open>t_offered\<close> lists the records whose
  \<open>Dispatch\<close> was admitted, \<open>t_lost\<close> the records rejected or evicted by the policy.
\<close>

record 'a tstate =
  t_queue :: "'a list"
  t_inflight :: "'a option"
  t_delivered :: "'a list"
  t_offered :: "'a list"
  t_lost :: "'a list"
  t_dropped :: nat
  t_closed :: bool
  t_done :: bool

text \<open>
  The configuration: policy, capacity, whether the transport stops admitting records once
  closed (and then its worker leaves nothing behind), and whether it rejects a record only
  when the queue is full; a lock-free queue may also reject while a slot is being vacated.
\<close>

record tconfig =
  tc_policy :: OverflowPolicy
  tc_cap :: nat
  tc_guarded :: bool
  tc_exact :: bool

definition t_init :: "'a tstate" where
  "t_init = \<lparr>t_queue = [], t_inflight = None, t_delivered = [], t_offered = [], t_lost = [],
     t_dropped = 0, t_closed = False, t_done = False\<rparr>"

inductive tstep :: "tconfig \<Rightarrow> 'a tstate \<Rightarrow> 'a tstate \<Rightarrow> bool" for c where
  t_offer: "length (t_queue s) < tc_cap c \<Longrightarrow> (tc_guarded c \<longrightarrow> \<not> t_closed s) \<Longrightarrow>
     tstep c s (s\<lparr>t_queue := t_queue s @ [x], t_offered := t_offered s @ [x]\<rparr>)"
| t_reject: "tc_policy c = DropNewest \<Longrightarrow> (tc_exact c \<longrightarrow> length (t_queue s) = tc_cap c) \<Longrightarrow> (tc_guarded c \<longrightarrow> \<not> t_closed s) \<Longrightarrow>
     tstep c s (s\<lparr>t_offered := t_offered s @ [x], t_lost := t_lost s @ [x],
       t_dropped := Suc (t_dropped s)\<rparr>)"
| t_evict: "tc_policy c = DropOldest \<Longrightarrow> t_queue s = y # ys \<Longrightarrow>
     tstep c s (s\<lparr>t_queue := ys, t_lost := t_lost s @ [y], t_dropped := Suc (t_dropped s)\<rparr>)"
| t_miscount: "tc_policy c = DropOldest \<Longrightarrow> t_closed s \<Longrightarrow>
     tstep c s (s\<lparr>t_dropped := Suc (t_dropped s)\<rparr>)"
| t_take: "t_queue s = y # ys \<Longrightarrow> t_inflight s = None \<Longrightarrow> \<not> t_done s \<Longrightarrow>
     tstep c s (s\<lparr>t_queue := ys, t_inflight := Some y\<rparr>)"
| t_emit: "t_inflight s = Some y \<Longrightarrow>
     tstep c s (s\<lparr>t_inflight := None, t_delivered := t_delivered s @ [y]\<rparr>)"
| t_close: "tstep c s (s\<lparr>t_closed := True\<rparr>)"
| t_exit: "t_closed s \<Longrightarrow> (tc_guarded c \<longrightarrow> t_queue s = []) \<Longrightarrow> t_inflight s = None \<Longrightarrow>
     tstep c s (s\<lparr>t_done := True\<rparr>)"

section \<open>Invariants\<close>

abbreviation opt_list :: "'a option \<Rightarrow> 'a list" where
  "opt_list x \<equiv> (case x of None \<Rightarrow> [] | Some y \<Rightarrow> [y])"

text \<open>The records on their way, in order: already emitted, in flight, queued.\<close>

definition t_path :: "'a tstate \<Rightarrow> 'a list" where
  "t_path s = t_delivered s @ opt_list (t_inflight s) @ t_queue s"

definition t_inv :: "tconfig \<Rightarrow> 'a tstate \<Rightarrow> bool" where
  "t_inv c s \<longleftrightarrow>
     mset (t_offered s) = mset (t_path s) + mset (t_lost s) \<and>
     subseq (t_path s) (t_offered s) \<and>
     length (t_queue s) \<le> tc_cap c \<and>
     length (t_lost s) \<le> t_dropped s \<and>
     (\<not> t_closed s \<longrightarrow> t_dropped s = length (t_lost s)) \<and>
     (tc_policy c = Block \<longrightarrow> t_lost s = [] \<and> t_dropped s = 0) \<and>
     (tc_policy c = DropNewest \<longrightarrow> t_dropped s = length (t_lost s)) \<and>
     (t_done s \<longrightarrow> t_closed s \<and> t_inflight s = None \<and> (tc_guarded c \<longrightarrow> t_queue s = []))"

lemma t_inv_init: "t_inv c t_init"
  by (simp add: t_inv_def t_init_def t_path_def)

lemma subseq_snoc: "subseq xs ys \<Longrightarrow> subseq (xs @ [x]) (ys @ [x])"
  by (simp add: list_emb_append_mono)

lemma subseq_snoc_right: "subseq xs ys \<Longrightarrow> subseq xs (ys @ zs)"
  using list_emb_append_mono [of "(=)" xs ys "[]" zs] by simp

lemma subseq_remove: "subseq (xs @ y # ys) zs \<Longrightarrow> subseq (xs @ ys) zs"
  by (meson list_emb_Cons list_emb_append_mono subseq_order.order_refl subseq_order.order_trans)

lemma tstep_inv: "tstep c s s' \<Longrightarrow> t_inv c s \<Longrightarrow> t_inv c s'"
proof (induction rule: tstep.induct)
  case (t_offer s x)
  then show ?case using subseq_snoc [of "t_path s" "t_offered s" x]
    by (auto simp: t_inv_def t_path_def)
next
  case (t_reject s x)
  then show ?case by (auto simp: t_inv_def t_path_def intro: subseq_snoc_right)
next
  case (t_evict s y ys)
  have "subseq (t_path s) (t_offered s)" using t_evict by (simp add: t_inv_def)
  then have "subseq (t_delivered s @ opt_list (t_inflight s) @ ys) (t_offered s)"
    using t_evict(2) subseq_remove [of "t_delivered s @ opt_list (t_inflight s)" y ys]
    by (simp add: t_path_def)
  with t_evict show ?case by (auto simp: t_inv_def t_path_def)
qed (auto simp: t_inv_def t_path_def)

section \<open>Calls on the sink\<close>

text \<open>What a transport does to the sink behind it, in order; the errors are discarded.\<close>

datatype sink_call = SinkEmit Record | SinkSync | SinkClose

fun emitted :: "sink_call list \<Rightarrow> Record list" where
  "emitted [] = []"
| "emitted (SinkEmit r # es) = r # emitted es"
| "emitted (SinkSync # es) = emitted es"
| "emitted (SinkClose # es) = emitted es"

lemma emitted_append [simp]: "emitted (xs @ ys) = emitted xs @ emitted ys"
  by (induction xs rule: emitted.induct) auto

text \<open>No record reaches the sink after the sink has been closed.\<close>

fun no_emit_after_close :: "sink_call list \<Rightarrow> bool" where
  "no_emit_after_close [] = True"
| "no_emit_after_close (SinkClose # es) = (emitted es = [])"
| "no_emit_after_close (_ # es) = no_emit_after_close es"

lemma no_emit_after_close_snoc:
  "no_emit_after_close (es @ [e]) \<longleftrightarrow>
     no_emit_after_close es \<and> (SinkClose \<in> set es \<longrightarrow> emitted [e] = [])"
  by (induction es rule: no_emit_after_close.induct) (auto, (cases e; simp)+)

section \<open>Concrete transports\<close>

text \<open>
  A concrete transport is a transition system whose steps are sequences of steps of the
  abstract machine, under an invariant of its own. The laws below are then its properties.
\<close>

locale transport =
  fixes cfg :: tconfig
    and cinit :: "'c \<Rightarrow> bool"
    and cstep :: "'c \<Rightarrow> 'c \<Rightarrow> bool"
    and cinv :: "'c \<Rightarrow> bool"
    and abs :: "'c \<Rightarrow> 'a tstate"
  assumes init_abs: "cinit s \<Longrightarrow> abs s = t_init"
    and init_inv: "cinit s \<Longrightarrow> cinv s"
    and step_inv: "cinv s \<Longrightarrow> cstep s s' \<Longrightarrow> cinv s'"
    and step_sim: "cinv s \<Longrightarrow> cstep s s' \<Longrightarrow> (tstep cfg)\<^sup>*\<^sup>* (abs s) (abs s')"

sublocale transport \<subseteq> invariant_system cinit cstep cinv
  by unfold_locales (rule init_inv, assumption, rule step_inv)

interpretation abstract_transport: invariant_system "\<lambda>s. s = t_init" "tstep c" "t_inv c" for c
  by unfold_locales (auto intro: tstep_inv t_inv_init)

context transport
begin

lemma reach_sim: "cinit s0 \<Longrightarrow> cstep\<^sup>*\<^sup>* s0 s \<Longrightarrow> (tstep cfg)\<^sup>*\<^sup>* t_init (abs s)"
proof (rotate_tac, induction rule: rtranclp_induct)
  case base
  then show ?case by (simp add: init_abs)
next
  case (step s s')
  then show ?case using reach_inv step_sim by (meson rtranclp_trans)
qed

lemma reach_t_inv: "cinit s0 \<Longrightarrow> cstep\<^sup>*\<^sup>* s0 s \<Longrightarrow> t_inv cfg (abs s)"
  using reach_sim abstract_transport.reach_inv by blast

lemma conservation:
  assumes "cinit s0" "cstep\<^sup>*\<^sup>* s0 s"
  shows "mset (t_offered (abs s)) = mset (t_path (abs s)) + mset (t_lost (abs s))"
    and "subseq (t_path (abs s)) (t_offered (abs s))"
    and "length (t_queue (abs s)) \<le> tc_cap cfg"
    and "\<not> t_closed (abs s) \<Longrightarrow> t_dropped (abs s) = length (t_lost (abs s))"
  using reach_t_inv [OF assms] by (auto simp: t_inv_def)

lemma lossless:
  assumes "cinit s0" "cstep\<^sup>*\<^sup>* s0 s" "tc_policy cfg = Block"
  shows "t_path (abs s) = t_offered (abs s)" and "t_dropped (abs s) = 0"
proof -
  have inv: "t_inv cfg (abs s)" using assms(1,2) by (rule reach_t_inv)
  then have "subseq (t_path (abs s)) (t_offered (abs s))" "t_lost (abs s) = []"
    and m: "mset (t_offered (abs s)) = mset (t_path (abs s)) + mset (t_lost (abs s))"
    using assms(3) by (auto simp: t_inv_def)
  moreover from this have "length (t_path (abs s)) = length (t_offered (abs s))"
    by (metis add.right_neutral mset.simps(1) size_mset)
  ultimately show "t_path (abs s) = t_offered (abs s)"
    by (meson subseq_same_length)
  show "t_dropped (abs s) = 0" using inv assms(3) by (simp add: t_inv_def)
qed

lemma done_empty:
  assumes "cinit s0" "cstep\<^sup>*\<^sup>* s0 s" "tc_guarded cfg" "t_done (abs s)"
  shows "t_path (abs s) = t_delivered (abs s)"
  using reach_t_inv [OF assms(1,2)] assms(3,4) by (simp add: t_inv_def t_path_def)

end

end
