(* ===== verification/Transport_Ring.thy ===== *)
theory Transport_Ring
  imports Transport_Spec
begin

text \<open>
  \<open>transport_ring.go\<close>: the mutex-and-condition-variable bounded ring. Each critical section of
  the code is one function on \<open>RingTransport\<close>; a system of producer threads, closing threads
  and the worker interleaves them, with the parked and woken states of \<open>sync.Cond\<close> explicit.
  The system refines the abstract transport, loses no wake-up, never hands the sink a nil
  record and never touches the sink after closing it.
\<close>

section \<open>The ring\<close>

record RingTransport =
  rt_buf :: "Record option list"
  rt_head :: nat
  rt_tail :: nat
  rt_count :: nat
  rt_policy :: OverflowPolicy
  rt_closed :: bool
  rt_dropped :: u64

definition ring_capacity :: "int \<Rightarrow> nat" where
  "ring_capacity capacity = (if capacity < 2 then 1024 else nat capacity)"

definition NewRingTransport :: "int \<Rightarrow> OverflowPolicy \<Rightarrow> RingTransport" where
  "NewRingTransport capacity policy =
     \<lparr>rt_buf = replicate (ring_capacity capacity) None, rt_head = 0, rt_tail = 0, rt_count = 0,
      rt_policy = policy, rt_closed = False, rt_dropped = 0\<rparr>"

text \<open>The statements shared by \<open>run\<close> and \<open>Dispatch\<close>: take the oldest slot, fill the newest.\<close>

definition ring_pop :: "RingTransport \<Rightarrow> RingTransport" where
  "ring_pop t = t\<lparr>rt_buf := (rt_buf t)[rt_head t := None],
     rt_head := (rt_head t + 1) mod length (rt_buf t), rt_count := rt_count t - 1\<rparr>"

definition ring_push :: "Record \<Rightarrow> RingTransport \<Rightarrow> RingTransport" where
  "ring_push c t = t\<lparr>rt_buf := (rt_buf t)[rt_tail t := Some c],
     rt_tail := (rt_tail t + 1) mod length (rt_buf t), rt_count := rt_count t + 1\<rparr>"

definition ring_full :: "RingTransport \<Rightarrow> bool" where
  "ring_full t = (rt_count t = length (rt_buf t))"

text \<open>
  How a critical section of \<open>Dispatch\<close> ends: the record is ignored (closed), the producer waits
  on \<open>notFull\<close>, the record is rejected and the loss remains to be counted, it is stored, or it
  is stored after evicting the oldest slot.
\<close>

datatype dispatched = Ignored | MustWait | Rejected | Stored | Replaced "Record option"

definition dispatch_wait :: "Record \<Rightarrow> RingTransport \<Rightarrow> dispatched \<times> RingTransport" where
  "dispatch_wait c t =
     (if ring_full t \<and> \<not> rt_closed t then (MustWait, t)
      else if rt_closed t then (Ignored, t)
      else (Stored, ring_push c t))"

definition ring_Dispatch :: "Record \<Rightarrow> RingTransport \<Rightarrow> dispatched \<times> RingTransport" where
  "ring_Dispatch c t =
     (if rt_closed t then (Ignored, t)
      else if ring_full t then
        (case rt_policy t of
           Block \<Rightarrow> dispatch_wait c t
         | DropNewest \<Rightarrow> (Rejected, t)
         | DropOldest \<Rightarrow>
             (let old = rt_buf t ! rt_head t;
                  t1 = ring_pop t;
                  t2 = t1\<lparr>rt_dropped := rt_dropped t1 + 1\<rparr>
              in (Replaced old, ring_push c t2)))
      else (Stored, ring_push c t))"

text \<open>One turn of the worker's loop, up to the call of the sink.\<close>

datatype turned = Park | Exit | Took "Record option"

definition ring_run :: "RingTransport \<Rightarrow> turned \<times> RingTransport" where
  "ring_run t =
     (if rt_count t = 0 \<and> \<not> rt_closed t then (Park, t)
      else if rt_count t = 0 \<and> rt_closed t then (Exit, t)
      else (Took (rt_buf t ! rt_head t), ring_pop t))"

section \<open>Threads\<close>

text \<open>
  A thread is between calls, parked on \<open>notFull\<close>, woken and about to reacquire the mutex,
  between the unlock and \<open>dropped.Add\<close>, or in the tail of \<open>Close\<close>. The worker waits for the
  mutex, is parked on \<open>notEmpty\<close>, holds a record it took, has closed \<open>done\<close>, or has
  dereferenced a nil record.
\<close>

datatype ring_pc = Idle | Parked Record | Woken Record | Counting | AwaitDone | SyncingSink | ClosingSink

datatype worker_pc = WReady | WParked | WEmit "Record option" | WDone | WPanic

record ring_sys =
  rs_ring :: RingTransport
  rs_worker :: worker_pc
  rs_threads :: "ring_pc list"
  rs_calls :: "sink_call list"
  rs_offered :: "Record list"
  rs_lost :: "Record list"

definition ring_start :: "int \<Rightarrow> OverflowPolicy \<Rightarrow> nat \<Rightarrow> ring_sys" where
  "ring_start capacity policy n =
     \<lparr>rs_ring = NewRingTransport capacity policy, rs_worker = WReady,
      rs_threads = replicate n Idle, rs_calls = [], rs_offered = [], rs_lost = []\<rparr>"

definition wake_worker :: "worker_pc \<Rightarrow> worker_pc" where
  "wake_worker w = (case w of WParked \<Rightarrow> WReady | _ \<Rightarrow> w)"

fun wake_producer :: "ring_pc \<Rightarrow> ring_pc" where
  "wake_producer (Parked c) = Woken c"
| "wake_producer p = p"

fun isParked :: "ring_pc \<Rightarrow> bool" where
  "isParked (Parked c) = True"
| "isParked p = False"

fun isWoken :: "ring_pc \<Rightarrow> bool" where
  "isWoken (Woken c) = True"
| "isWoken p = False"

text \<open>\<open>notFull.Signal\<close>: one parked producer, whichever, is woken, if there is any.\<close>

definition signal_notFull :: "ring_pc list \<Rightarrow> ring_pc list \<Rightarrow> bool" where
  "signal_notFull ps ps' =
     (if list_ex isParked ps
      then list_ex (\<lambda>j. isParked (ps ! j) \<and> ps' = ps[j := wake_producer (ps ! j)]) [0..<length ps]
      else ps' = ps)"

definition after_dispatch :: "nat \<Rightarrow> Record \<Rightarrow> dispatched \<times> RingTransport \<Rightarrow> ring_sys \<Rightarrow> ring_sys" where
  "after_dispatch i c res s =
     (let s1 = s\<lparr>rs_ring := snd res\<rparr>;
          th = (\<lambda>p. (rs_threads s)[i := p])
      in case fst res of
           Ignored \<Rightarrow> s1\<lparr>rs_threads := th Idle\<rparr>
         | MustWait \<Rightarrow> s1\<lparr>rs_threads := th (Parked c)\<rparr>
         | Rejected \<Rightarrow> s1\<lparr>rs_threads := th Counting, rs_offered := rs_offered s @ [c],
             rs_lost := rs_lost s @ [c]\<rparr>
         | Stored \<Rightarrow> s1\<lparr>rs_threads := th Idle, rs_worker := wake_worker (rs_worker s),
             rs_offered := rs_offered s @ [c]\<rparr>
         | Replaced old \<Rightarrow> s1\<lparr>rs_threads := th Idle, rs_worker := wake_worker (rs_worker s),
             rs_offered := rs_offered s @ [c], rs_lost := rs_lost s @ opt_list old\<rparr>)"

definition ring_Close :: "RingTransport \<Rightarrow> bool \<times> RingTransport" where
  "ring_Close t = (if rt_closed t then (False, t) else (True, t\<lparr>rt_closed := True\<rparr>))"

inductive ring_step :: "ring_sys \<Rightarrow> ring_sys \<Rightarrow> bool" where
  rs_dispatch: "i < length (rs_threads s) \<Longrightarrow> rs_threads s ! i = Idle \<Longrightarrow>
     ring_step s (after_dispatch i (Clone r) (ring_Dispatch (Clone r) (rs_ring s)) s)"
| rs_resume: "i < length (rs_threads s) \<Longrightarrow> rs_threads s ! i = Woken c \<Longrightarrow>
     ring_step s (after_dispatch i c (dispatch_wait c (rs_ring s)) s)"
| rs_count: "i < length (rs_threads s) \<Longrightarrow> rs_threads s ! i = Counting \<Longrightarrow>
     ring_step s (s\<lparr>rs_threads := (rs_threads s)[i := Idle],
       rs_ring := (rs_ring s)\<lparr>rt_dropped := rt_dropped (rs_ring s) + 1\<rparr>\<rparr>)"
| rs_park: "rs_worker s = WReady \<Longrightarrow> ring_run (rs_ring s) = (Park, t) \<Longrightarrow>
     ring_step s (s\<lparr>rs_worker := WParked\<rparr>)"
| rs_exit: "rs_worker s = WReady \<Longrightarrow> ring_run (rs_ring s) = (Exit, t) \<Longrightarrow>
     ring_step s (s\<lparr>rs_worker := WDone\<rparr>)"
| rs_take: "rs_worker s = WReady \<Longrightarrow> ring_run (rs_ring s) = (Took x, t) \<Longrightarrow>
     signal_notFull (rs_threads s) ps \<Longrightarrow>
     ring_step s (s\<lparr>rs_worker := WEmit x, rs_ring := t, rs_threads := ps\<rparr>)"
| rs_emit: "rs_worker s = WEmit (Some x) \<Longrightarrow>
     ring_step s (s\<lparr>rs_worker := WReady, rs_calls := rs_calls s @ [SinkEmit x]\<rparr>)"
| rs_panic: "rs_worker s = WEmit None \<Longrightarrow> ring_step s (s\<lparr>rs_worker := WPanic\<rparr>)"
| rs_sync: "i < length (rs_threads s) \<Longrightarrow> rs_threads s ! i = Idle \<Longrightarrow>
     ring_step s (s\<lparr>rs_calls := rs_calls s @ [SinkSync]\<rparr>)"
| rs_close_again: "i < length (rs_threads s) \<Longrightarrow> rs_threads s ! i = Idle \<Longrightarrow>
     ring_Close (rs_ring s) = (False, t) \<Longrightarrow> ring_step s s"
| rs_close: "i < length (rs_threads s) \<Longrightarrow> rs_threads s ! i = Idle \<Longrightarrow>
     ring_Close (rs_ring s) = (True, t) \<Longrightarrow>
     ring_step s (s\<lparr>rs_ring := t, rs_worker := wake_worker (rs_worker s),
       rs_threads := map wake_producer ((rs_threads s)[i := AwaitDone])\<rparr>)"
| rs_done: "i < length (rs_threads s) \<Longrightarrow> rs_threads s ! i = AwaitDone \<Longrightarrow> rs_worker s = WDone \<Longrightarrow>
     ring_step s (s\<lparr>rs_threads := (rs_threads s)[i := SyncingSink]\<rparr>)"
| rs_close_sync: "i < length (rs_threads s) \<Longrightarrow> rs_threads s ! i = SyncingSink \<Longrightarrow>
     ring_step s (s\<lparr>rs_threads := (rs_threads s)[i := ClosingSink],
       rs_calls := rs_calls s @ [SinkSync]\<rparr>)"
| rs_close_sink: "i < length (rs_threads s) \<Longrightarrow> rs_threads s ! i = ClosingSink \<Longrightarrow>
     ring_step s (s\<lparr>rs_threads := (rs_threads s)[i := Idle],
       rs_calls := rs_calls s @ [SinkClose]\<rparr>)"

section \<open>The ring represents a queue\<close>

definition ring_rep :: "RingTransport \<Rightarrow> Record list \<Rightarrow> bool" where
  "ring_rep t q \<longleftrightarrow>
     rt_buf t \<noteq> [] \<and> rt_head t < length (rt_buf t) \<and> rt_count t = length q \<and>
     length q \<le> length (rt_buf t) \<and>
     rt_tail t = (rt_head t + length q) mod length (rt_buf t) \<and>
     ring_items (rt_buf t) (rt_head t) (length (rt_buf t))
       = map Some q @ replicate (length (rt_buf t) - length q) None"

definition ring_queue :: "RingTransport \<Rightarrow> Record list" where
  "ring_queue t = map the (ring_items (rt_buf t) (rt_head t) (rt_count t))"

lemma ring_rep_queue: "ring_rep t q \<Longrightarrow> ring_queue t = q"
  using ring_items_take [of "length q" "length (rt_buf t)" "rt_buf t" "rt_head t"]
  by (auto simp: ring_rep_def ring_queue_def o_def dest: sym)

definition ring_ok :: "RingTransport \<Rightarrow> bool" where
  "ring_ok t = ring_rep t (ring_queue t)"

lemma ring_rep_ok: "ring_rep t q \<Longrightarrow> ring_ok t \<and> ring_queue t = q"
  by (simp add: ring_rep_queue ring_ok_def)

lemma ring_rep_New: "ring_rep (NewRingTransport capacity policy) []"
  by (auto simp: ring_rep_def NewRingTransport_def ring_capacity_def ring_items_def
      intro!: nth_equalityI)

lemma ring_rep_push:
  assumes "ring_rep t q" "length q < length (rt_buf t)"
  shows "ring_rep (ring_push c t) (q @ [c])"
proof -
  let ?n = "length (rt_buf t)" and ?h = "rt_head t"
  have "ring_items ((rt_buf t)[(?h + length q) mod ?n := Some c]) ?h ?n
      = (map Some q @ replicate (?n - length q) None)[length q := Some c]"
    using ring_items_update [OF assms(2)] assms(1) by (simp add: ring_rep_def)
  also have "\<dots> = map Some (q @ [c]) @ replicate (?n - Suc (length q)) None"
    using assms(2) by (cases "?n - length q") (auto simp: list_update_append)
  finally show ?thesis
    using assms by (auto simp: ring_rep_def ring_push_def mod_Suc_eq)
qed

lemma ring_rep_pop:
  assumes "ring_rep t (x # q)"
  shows "rt_buf t ! rt_head t = Some x" and "ring_rep (ring_pop t) q"
proof -
  let ?n = "length (rt_buf t)" and ?h = "rt_head t"
  have n: "0 < ?n" "?h < ?n" and items: "ring_items (rt_buf t) ?h ?n
      = Some x # map Some q @ replicate (?n - Suc (length q)) None"
    using assms by (auto simp: ring_rep_def)
  have "ring_items (rt_buf t) ?h ?n ! 0 = rt_buf t ! ?h"
    using n by (simp add: ring_items_def)
  then show "rt_buf t ! ?h = Some x" by (simp add: items)
  have "ring_items ((rt_buf t)[?h := None]) ?h ?n
      = None # map Some q @ replicate (?n - Suc (length q)) None"
    using ring_items_update [of 0 "rt_buf t" ?h None] n by (simp add: items)
  moreover have "ring_items ((rt_buf t)[?h := None]) (Suc ?h) ?n
      = rotate1 (ring_items ((rt_buf t)[?h := None]) ?h ?n)"
    using ring_items_rotate [of "(rt_buf t)[?h := None]"] n by auto
  ultimately have "ring_items ((rt_buf t)[?h := None]) (Suc ?h mod ?n) ?n
      = map Some q @ replicate (?n - Suc (length q)) None @ [None]"
    using ring_items_mod [of "(rt_buf t)[?h := None]" "Suc ?h" ?n] by simp
  moreover have "replicate (?n - Suc (length q)) None @ [None] = replicate (?n - length q) None"
    using assms by (simp add: ring_rep_def replicate_append_same Suc_diff_Suc flip: replicate_Suc)
  moreover have "(?h + Suc (length q)) mod ?n = (Suc ?h mod ?n + length q) mod ?n"
    by (simp add: mod_add_left_eq)
  ultimately show "ring_rep (ring_pop t) q"
    using assms n by (auto simp: ring_rep_def ring_pop_def)
qed

lemma ring_full_rep: "ring_rep t q \<Longrightarrow> ring_full t \<longleftrightarrow> length q = length (rt_buf t)"
  by (simp add: ring_rep_def ring_full_def)

lemma ring_rep_dropped [simp]: "ring_rep (t\<lparr>rt_dropped := d\<rparr>) q = ring_rep t q"
  by (simp add: ring_rep_def)

lemma ring_rep_closed [simp]: "ring_rep (t\<lparr>rt_closed := b\<rparr>) q = ring_rep t q"
  by (simp add: ring_rep_def)

lemma ring_queue_flags [simp]:
  "ring_queue (t\<lparr>rt_dropped := d\<rparr>) = ring_queue t"
  "ring_queue (t\<lparr>rt_closed := b\<rparr>) = ring_queue t"
  by (simp_all add: ring_queue_def)

lemma ring_push_frame [simp]:
  "length (rt_buf (ring_push c t)) = length (rt_buf t)" "rt_policy (ring_push c t) = rt_policy t"
  "rt_closed (ring_push c t) = rt_closed t" "rt_dropped (ring_push c t) = rt_dropped t"
  by (simp_all add: ring_push_def)

lemma ring_pop_frame [simp]:
  "length (rt_buf (ring_pop t)) = length (rt_buf t)" "rt_policy (ring_pop t) = rt_policy t"
  "rt_closed (ring_pop t) = rt_closed t" "rt_dropped (ring_pop t) = rt_dropped t"
  by (simp_all add: ring_pop_def)

text \<open>The effect of a critical section of \<open>Dispatch\<close> on the queue the ring represents.\<close>

definition dispatch_effect :: "Record \<Rightarrow> RingTransport \<Rightarrow> Record list \<Rightarrow> dispatched \<times> RingTransport \<Rightarrow> bool" where
  "dispatch_effect c t q res \<longleftrightarrow>
     length (rt_buf (snd res)) = length (rt_buf t) \<and> rt_policy (snd res) = rt_policy t \<and>
     rt_closed (snd res) = rt_closed t \<and>
     (case fst res of
        Ignored \<Rightarrow> rt_closed t \<and> snd res = t
      | MustWait \<Rightarrow> \<not> rt_closed t \<and> snd res = t \<and> rt_policy t = Block \<and> length q = length (rt_buf t)
      | Rejected \<Rightarrow> \<not> rt_closed t \<and> snd res = t \<and> rt_policy t = DropNewest \<and> length q = length (rt_buf t)
      | Stored \<Rightarrow> \<not> rt_closed t \<and> rt_dropped (snd res) = rt_dropped t \<and> length q < length (rt_buf t) \<and>
          ring_ok (snd res) \<and> ring_queue (snd res) = q @ [c]
      | Replaced old \<Rightarrow> \<not> rt_closed t \<and> rt_policy t = DropOldest \<and> length q = length (rt_buf t) \<and>
          rt_dropped (snd res) = rt_dropped t + 1 \<and> q \<noteq> [] \<and> old = Some (hd q) \<and>
          ring_ok (snd res) \<and> ring_queue (snd res) = tl q @ [c])"

lemma dispatch_wait_effect:
  assumes "ring_rep t q" "rt_policy t = Block"
  shows "dispatch_effect c t q (dispatch_wait c t)"
  using assms ring_rep_ok [OF ring_rep_push [OF assms(1)]]
  by (auto simp: dispatch_effect_def dispatch_wait_def ring_full_rep ring_rep_def
      intro: le_neq_implies_less)

lemma ring_Dispatch_effect:
  assumes "ring_rep t q"
  shows "dispatch_effect c t q (ring_Dispatch c t)"
proof -
  consider (closed) "rt_closed t" | (room) "\<not> rt_closed t" "\<not> ring_full t"
    | (full) "\<not> rt_closed t" "ring_full t"
    by blast
  then show ?thesis
  proof cases
    case closed
    then show ?thesis by (simp add: ring_Dispatch_def dispatch_effect_def)
  next
    case room
    then have "length q < length (rt_buf t)"
      using assms ring_full_rep [OF assms] by (simp add: ring_rep_def)
    with room show ?thesis
      using ring_rep_ok [OF ring_rep_push [OF assms]] by (simp add: ring_Dispatch_def dispatch_effect_def)
  next
    case full
    then have len: "length q = length (rt_buf t)" using assms by (simp add: ring_full_rep)
    then obtain x q' where q: "q = x # q'" using assms by (cases q) (auto simp: ring_rep_def)
    let ?t = "(ring_pop t)\<lparr>rt_dropped := rt_dropped t + 1\<rparr>"
    have "ring_rep ?t q'" using ring_rep_pop(2) assms q by simp
    then have "ring_rep (ring_push c ?t) (q' @ [c])"
      by (rule ring_rep_push) (use len q in simp)
    note ring_rep_ok [OF this]
    with this full len q assms ring_rep_pop(1) show ?thesis
      using dispatch_wait_effect [OF assms]
      by (cases "rt_policy t") (simp_all add: ring_Dispatch_def dispatch_effect_def Let_def)
  qed
qed

section \<open>The invariant of the system\<close>

abbreviation isCounting :: "ring_pc \<Rightarrow> bool" where
  "isCounting p \<equiv> p = Counting"

abbreviation isPastDone :: "ring_pc \<Rightarrow> bool" where
  "isPastDone p \<equiv> p = SyncingSink \<or> p = ClosingSink"

abbreviation isClosing :: "ring_pc \<Rightarrow> bool" where
  "isClosing p \<equiv> p = AwaitDone \<or> isPastDone p"

text \<open>The data, the worker's program counter and the counter of losses.\<close>

definition data_inv :: "nat \<Rightarrow> OverflowPolicy \<Rightarrow> ring_sys \<Rightarrow> bool" where
  "data_inv n p s \<longleftrightarrow>
     ring_ok (rs_ring s) \<and>
     length (rt_buf (rs_ring s)) = n \<and> rt_policy (rs_ring s) = p \<and>
     rs_worker s \<noteq> WPanic \<and> rs_worker s \<noteq> WEmit None \<and>
     (rs_worker s = WDone \<longrightarrow> rt_closed (rs_ring s) \<and> ring_queue (rs_ring s) = []) \<and>
     rt_dropped (rs_ring s) + of_nat (cnt isCounting (rs_threads s)) = of_nat (length (rs_lost s))"

text \<open>No wake-up is lost.\<close>

definition wake_inv :: "ring_sys \<Rightarrow> bool" where
  "wake_inv s \<longleftrightarrow>
     (rs_worker s = WParked \<longrightarrow> ring_queue (rs_ring s) = [] \<and> \<not> rt_closed (rs_ring s)) \<and>
     (0 < cnt isParked (rs_threads s) \<longrightarrow> \<not> rt_closed (rs_ring s) \<and>
        length (rt_buf (rs_ring s)) \<le> length (ring_queue (rs_ring s)) + cnt isWoken (rs_threads s)) \<and>
     (0 < cnt isParked (rs_threads s) + cnt isWoken (rs_threads s) \<longrightarrow> rt_policy (rs_ring s) = Block)"

text \<open>The sink is closed once, by the thread that closed the ring, after the worker finished.\<close>

definition close_inv :: "ring_sys \<Rightarrow> bool" where
  "close_inv s \<longleftrightarrow>
     cnt isClosing (rs_threads s) + count_list (rs_calls s) SinkClose
       = (if rt_closed (rs_ring s) then 1 else 0) \<and>
     (0 < cnt isPastDone (rs_threads s) \<or> SinkClose \<in> set (rs_calls s) \<longrightarrow> rs_worker s = WDone) \<and>
     no_emit_after_close (rs_calls s)"

definition ring_inv :: "nat \<Rightarrow> OverflowPolicy \<Rightarrow> ring_sys \<Rightarrow> bool" where
  "ring_inv n p s \<longleftrightarrow> data_inv n p s \<and> wake_inv s \<and> close_inv s"

lemma wake_worker_eq [simp]:
  "wake_worker w = WParked \<longleftrightarrow> False" "wake_worker w = WDone \<longleftrightarrow> w = WDone"
  "wake_worker w = WPanic \<longleftrightarrow> w = WPanic" "wake_worker w = WEmit x \<longleftrightarrow> w = WEmit x"
  by (cases w; simp add: wake_worker_def)+

lemma after_dispatch_data:
  assumes inv: "data_inv n p s" and i: "i < length (rs_threads s)"
    and pc: "rs_threads s ! i = Idle \<or> rs_threads s ! i = Woken c"
    and eff: "dispatch_effect c (rs_ring s) (ring_queue (rs_ring s)) res"
  shows "data_inv n p (after_dispatch i c res s)"
proof -
  have "rs_threads s ! i \<noteq> Counting" using pc by auto
  with inv eff show ?thesis
    by (cases "fst res")
      (simp_all add: data_inv_def after_dispatch_def dispatch_effect_def cnt_upd [OF i]
        ring_rep_queue Let_def add.assoc [symmetric])
qed

lemma after_dispatch_wake:
  assumes inv: "wake_inv s" and i: "i < length (rs_threads s)"
    and pc: "rs_threads s ! i = Idle \<or> rs_threads s ! i = Woken c"
    and eff: "dispatch_effect c (rs_ring s) (ring_queue (rs_ring s)) res"
  shows "wake_inv (after_dispatch i c res s)"
proof -
  have "\<not> isParked (rs_threads s ! i)"
    and "isWoken (rs_threads s ! i) \<Longrightarrow> 0 < cnt isWoken (rs_threads s)"
    using pc cnt_pos [of i "rs_threads s" isWoken] i by auto
  with inv eff show ?thesis
    by (cases "fst res"; cases "isWoken (rs_threads s ! i)")
      (simp_all add: wake_inv_def after_dispatch_def dispatch_effect_def cnt_upd [OF i]
        ring_rep_queue Let_def le_SucI)
qed

lemma after_dispatch_close:
  assumes inv: "close_inv s" and i: "i < length (rs_threads s)"
    and pc: "rs_threads s ! i = Idle \<or> rs_threads s ! i = Woken c"
    and eff: "dispatch_effect c (rs_ring s) q res"
  shows "close_inv (after_dispatch i c res s)"
proof -
  have "\<not> isClosing (rs_threads s ! i)" using pc by auto
  with inv eff show ?thesis
    by (cases "fst res")
      (simp_all add: close_inv_def after_dispatch_def dispatch_effect_def cnt_upd [OF i] Let_def)
qed

lemma dispatch_wait_ok:
  assumes "data_inv n p s" "wake_inv s" "i < length (rs_threads s)" "rs_threads s ! i = Woken c"
  shows "dispatch_effect c (rs_ring s) (ring_queue (rs_ring s)) (dispatch_wait c (rs_ring s))"
proof (rule dispatch_wait_effect)
  show "ring_rep (rs_ring s) (ring_queue (rs_ring s))"
    using assms(1) by (simp add: data_inv_def ring_ok_def)
  have "0 < cnt isWoken (rs_threads s)" using assms(3,4) by (auto intro: cnt_pos)
  then show "rt_policy (rs_ring s) = Block" using assms(2) by (simp add: wake_inv_def)
qed

lemma ring_Dispatch_ok:
  "data_inv n p s \<Longrightarrow> dispatch_effect c (rs_ring s) (ring_queue (rs_ring s)) (ring_Dispatch c (rs_ring s))"
  by (rule ring_Dispatch_effect) (simp add: data_inv_def ring_ok_def)

lemma ring_run_cases:
  assumes "ring_ok t" "ring_run t = (res, t')"
  shows "res = Park \<and> ring_queue t = [] \<and> \<not> rt_closed t \<or>
    res = Exit \<and> ring_queue t = [] \<and> rt_closed t \<or>
    ring_queue t \<noteq> [] \<and> res = Took (Some (hd (ring_queue t))) \<and> ring_ok t' \<and>
      ring_queue t' = tl (ring_queue t) \<and> t' = ring_pop t"
proof (cases "ring_queue t")
  case Nil
  then have "rt_count t = 0" using assms(1) by (simp add: ring_ok_def ring_rep_def)
  with Nil assms(2) show ?thesis by (auto simp: ring_run_def split: if_splits)
next
  case (Cons x q)
  then have "ring_rep t (x # q)" "rt_count t \<noteq> 0" using assms(1) by (simp_all add: ring_ok_def ring_rep_def)
  with assms(2) Cons show ?thesis
    using ring_rep_pop [of t x q] ring_rep_ok [of "ring_pop t" q] by (auto simp: ring_run_def)
qed

lemma signal_cases:
  assumes "signal_notFull ps ps'"
  shows "(cnt isParked ps = 0 \<and> ps' = ps) \<or>
    (\<exists>j c. j < length ps \<and> ps ! j = Parked c \<and> ps' = ps[j := Woken c])"
proof (cases "list_ex isParked ps")
  case True
  then obtain j where "j < length ps" "isParked (ps ! j)" "ps' = ps[j := wake_producer (ps ! j)]"
    using assms by (auto simp: signal_notFull_def list_ex_iff)
  then show ?thesis by (cases "ps ! j") auto
next
  case False
  then show ?thesis using assms by (auto simp: signal_notFull_def list_ex_iff cnt_zero)
qed

lemma signal_frame:
  assumes "signal_notFull ps ps'"
  shows "cnt isCounting ps' = cnt isCounting ps" "cnt isClosing ps' = cnt isClosing ps"
    "cnt isPastDone ps' = cnt isPastDone ps"
  using signal_cases [OF assms] by (auto simp: cnt_upd)

lemma signal_wakes:
  assumes "signal_notFull ps ps'"
  shows "cnt isParked ps = 0 \<and> ps' = ps \<or>
    0 < cnt isParked ps \<and> cnt isParked ps' = cnt isParked ps - 1 \<and> cnt isWoken ps' = Suc (cnt isWoken ps)"
  using signal_cases [OF assms] by (auto simp: cnt_upd dest: cnt_pos [where P = isParked])

lemma wake_producer_pc [simp]:
  "isParked (wake_producer x) = False" "wake_producer x = Counting \<longleftrightarrow> x = Counting"
  "wake_producer x = AwaitDone \<longleftrightarrow> x = AwaitDone" "wake_producer x = SyncingSink \<longleftrightarrow> x = SyncingSink"
  "wake_producer x = ClosingSink \<longleftrightarrow> x = ClosingSink"
  "isWoken (wake_producer x) \<longleftrightarrow> isParked x \<or> isWoken x"
  by (cases x; simp)+

lemma cnt_disj: "(\<And>x. P x \<Longrightarrow> \<not> Q x) \<Longrightarrow> cnt (\<lambda>x. P x \<or> Q x) xs = cnt P xs + cnt Q xs"
  by (induction xs) (auto simp: cnt_def)

lemma cnt_False [simp]: "cnt (\<lambda>x. False) xs = 0"
  by (simp add: cnt_def)

lemma data_inv_step:
  assumes "ring_step s s'" "data_inv n p s" "wake_inv s"
  shows "data_inv n p s'"
  using assms
proof (cases rule: ring_step.cases)
  case (rs_dispatch i r)
  then show ?thesis using assms(2) by (simp add: after_dispatch_data ring_Dispatch_ok)
next
  case (rs_resume i c)
  then show ?thesis using assms(2,3) after_dispatch_data dispatch_wait_ok by simp
next
  case (rs_count i)
  then have "0 < cnt isCounting (rs_threads s)" by (auto intro: cnt_pos)
  then have "rt_dropped (rs_ring s) + 1 + word_of_nat (cnt isCounting (rs_threads s) - 1)
      = rt_dropped (rs_ring s) + word_of_nat (cnt isCounting (rs_threads s))"
    by (cases "cnt isCounting (rs_threads s)") simp_all
  with rs_count assms(2) show ?thesis by (simp add: data_inv_def cnt_upd ring_ok_def)
next
  case (rs_take x t ps)
  then show ?thesis
    using assms(2) ring_run_cases [of "rs_ring s" "Took x" t] signal_frame(1) [of "rs_threads s" ps]
    by (auto simp: data_inv_def)
next
  case (rs_exit t)
  then show ?thesis using assms(2) ring_run_cases [of "rs_ring s" Exit t] by (simp add: data_inv_def)
next
  case (rs_close i t)
  then show ?thesis using assms(2)
    by (auto simp: data_inv_def ring_Close_def ring_ok_def cnt_map o_def cnt_upd split: if_splits)
qed (simp_all add: data_inv_def cnt_upd)

lemma wake_inv_step:
  assumes "ring_step s s'" "data_inv n p s" "wake_inv s"
  shows "wake_inv s'"
  using assms
proof (cases rule: ring_step.cases)
  case (rs_dispatch i r)
  then show ?thesis using assms(2,3) by (simp add: after_dispatch_wake ring_Dispatch_ok)
next
  case (rs_resume i c)
  then show ?thesis using assms(2,3) after_dispatch_wake dispatch_wait_ok by simp
next
  case (rs_park t)
  then show ?thesis
    using assms(2,3) ring_run_cases [of "rs_ring s" Park t] by (simp add: wake_inv_def data_inv_def)
next
  case (rs_take x t ps)
  then have "length (ring_queue (rs_ring s)) = Suc (length (ring_queue t))" "t = ring_pop (rs_ring s)"
    using assms(2) ring_run_cases [of "rs_ring s" "Took x" t] by (auto simp: data_inv_def)
  with rs_take assms(3) signal_wakes [of "rs_threads s" ps] show ?thesis
    by (auto simp: wake_inv_def)
next
  case (rs_close i t)
  have "0 < cnt (\<lambda>x. isParked x \<or> isWoken x) (rs_threads s) \<Longrightarrow> rt_policy (rs_ring s) = Block"
    using assms(3) by (subst (asm) cnt_disj) (auto simp: wake_inv_def elim: isParked.elims)
  with rs_close show ?thesis
    by (auto simp: wake_inv_def ring_Close_def cnt_map o_def cnt_upd cnt_zero split: if_splits)
qed (simp_all add: wake_inv_def cnt_upd)

lemma close_inv_step:
  assumes "ring_step s s'" "data_inv n p s" "wake_inv s" "close_inv s"
  shows "close_inv s'"
  using assms
proof (cases rule: ring_step.cases)
  case (rs_dispatch i r)
  then show ?thesis using assms(2,4) after_dispatch_close [OF _ _ _ ring_Dispatch_ok] by simp
next
  case (rs_resume i c)
  then show ?thesis using assms(2-4) after_dispatch_close [OF _ _ _ dispatch_wait_ok] by simp
next
  case (rs_take x t ps)
  then have "t = ring_pop (rs_ring s)"
    using assms(2) ring_run_cases [of "rs_ring s" "Took x" t] by (auto simp: data_inv_def)
  with rs_take assms(4) signal_frame [of "rs_threads s" ps] show ?thesis
    by (auto simp: close_inv_def)
next
  case (rs_close i t)
  then show ?thesis using assms(4)
    by (auto simp: close_inv_def ring_Close_def cnt_map o_def cnt_upd split: if_splits)
next
  case (rs_close_sync i)
  then have "0 < cnt isPastDone (rs_threads s)" by (auto intro: cnt_pos)
  with rs_close_sync show ?thesis using assms(4)
    by (simp add: close_inv_def cnt_upd no_emit_after_close_snoc)
next
  case (rs_close_sink i)
  then have "0 < cnt isPastDone (rs_threads s)" "0 < cnt isClosing (rs_threads s)"
    by (auto intro: cnt_pos)
  with rs_close_sink show ?thesis using assms(4)
    by (auto simp: close_inv_def cnt_upd no_emit_after_close_snoc split: if_splits)
qed (auto simp: close_inv_def cnt_upd no_emit_after_close_snoc intro: cnt_pos)

lemma ring_inv_step: "ring_inv n p s \<Longrightarrow> ring_step s s' \<Longrightarrow> ring_inv n p s'"
  unfolding ring_inv_def using data_inv_step wake_inv_step close_inv_step by blast

lemma ring_inv_start: "ring_inv (ring_capacity capacity) p (ring_start capacity p n)"
proof -
  have "ring_ok (NewRingTransport capacity p)" "ring_queue (NewRingTransport capacity p) = []"
    using ring_rep_ok [OF ring_rep_New] by auto
  then show ?thesis
    by (simp add: ring_inv_def data_inv_def wake_inv_def close_inv_def ring_start_def cnt_replicate)
      (simp add: NewRingTransport_def)
qed

section \<open>Refinement of the abstract transport\<close>

definition ring_abs :: "ring_sys \<Rightarrow> Record tstate" where
  "ring_abs s = \<lparr>t_queue = ring_queue (rs_ring s),
     t_inflight = (case rs_worker s of WEmit x \<Rightarrow> x | _ \<Rightarrow> None),
     t_delivered = emitted (rs_calls s), t_offered = rs_offered s, t_lost = rs_lost s,
     t_dropped = length (rs_lost s), t_closed = rt_closed (rs_ring s),
     t_done = (rs_worker s = WDone)\<rparr>"

definition ring_cfg :: "nat \<Rightarrow> OverflowPolicy \<Rightarrow> tconfig" where
  "ring_cfg n p = \<lparr>tc_policy = p, tc_cap = n, tc_guarded = True, tc_exact = True\<rparr>"

lemma wake_worker_inflight [simp]:
  "(case wake_worker w of WEmit x \<Rightarrow> x | _ \<Rightarrow> None) = (case w of WEmit x \<Rightarrow> x | _ \<Rightarrow> None)"
  by (cases w) (simp_all add: wake_worker_def)

lemma after_dispatch_sim:
  assumes inv: "data_inv n p s" and eff: "dispatch_effect c (rs_ring s) (ring_queue (rs_ring s)) res"
  shows "(tstep (ring_cfg n p))\<^sup>*\<^sup>* (ring_abs s) (ring_abs (after_dispatch i c res s))"
proof (cases "fst res")
  case Rejected
  then have "tstep (ring_cfg n p) (ring_abs s) (ring_abs (after_dispatch i c res s))"
    using t_reject [of "ring_cfg n p" "ring_abs s" c] inv eff
    by (simp add: ring_abs_def after_dispatch_def dispatch_effect_def data_inv_def ring_cfg_def)
  then show ?thesis by (rule r_into_rtranclp)
next
  case Stored
  then have "tstep (ring_cfg n p) (ring_abs s) (ring_abs (after_dispatch i c res s))"
    using t_offer [of "ring_abs s" "ring_cfg n p" c] inv eff
    by (simp add: ring_abs_def after_dispatch_def dispatch_effect_def data_inv_def ring_cfg_def)
  then show ?thesis by (rule r_into_rtranclp)
next
  case (Replaced old)
  define m where "m = (ring_abs s)\<lparr>t_queue := tl (ring_queue (rs_ring s)),
    t_lost := rs_lost s @ [hd (ring_queue (rs_ring s))], t_dropped := Suc (length (rs_lost s))\<rparr>"
  have "tstep (ring_cfg n p) (ring_abs s) m"
    using t_evict [of "ring_cfg n p" "ring_abs s" "hd (ring_queue (rs_ring s))" "tl (ring_queue (rs_ring s))"] inv eff Replaced
    by (simp add: ring_abs_def m_def dispatch_effect_def data_inv_def ring_cfg_def)
  moreover have "length (tl (ring_queue (rs_ring s))) < n"
    using inv eff Replaced
    by (cases "ring_queue (rs_ring s)") (auto simp: dispatch_effect_def data_inv_def)
  then have "tstep (ring_cfg n p) m (ring_abs (after_dispatch i c res s))"
    using t_offer [of m "ring_cfg n p" c] inv eff Replaced
    by (simp add: ring_abs_def m_def after_dispatch_def dispatch_effect_def data_inv_def ring_cfg_def)
  ultimately show ?thesis by (meson r_into_rtranclp rtranclp.rtrancl_into_rtrancl)
qed (use inv eff in \<open>simp_all add: ring_abs_def after_dispatch_def dispatch_effect_def\<close>)

lemma ring_step_sim:
  assumes "ring_inv n p s" "ring_step s s'"
  shows "(tstep (ring_cfg n p))\<^sup>*\<^sup>* (ring_abs s) (ring_abs s')"
proof -
  have inv: "data_inv n p s" "wake_inv s" using assms(1) by (auto simp: ring_inv_def)
  have one: "(tstep (ring_cfg n p))\<^sup>*\<^sup>* (ring_abs s) (ring_abs s')"
    if "tstep (ring_cfg n p) (ring_abs s) u" "u = ring_abs s'" for u
    using that by auto
  from assms(2) show ?thesis
  proof (cases rule: ring_step.cases)
    case (rs_dispatch i r)
    then show ?thesis using inv after_dispatch_sim ring_Dispatch_ok by simp
  next
    case (rs_resume i c)
    then show ?thesis using inv after_dispatch_sim dispatch_wait_ok by simp
  next
    case (rs_take x t ps)
    then have "ring_queue (rs_ring s) \<noteq> []" "x = Some (hd (ring_queue (rs_ring s)))"
      "ring_queue t = tl (ring_queue (rs_ring s))" "rt_closed t = rt_closed (rs_ring s)"
      using inv ring_run_cases [of "rs_ring s" "Took x" t] by (auto simp: data_inv_def)
    with rs_take show ?thesis
      by (intro one [OF t_take [of "ring_abs s" "hd (ring_queue (rs_ring s))" "tl (ring_queue (rs_ring s))"]])
        (simp_all add: ring_abs_def)
  next
    case (rs_emit x)
    then show ?thesis by (intro one [OF t_emit [of "ring_abs s" x]]) (simp_all add: ring_abs_def)
  next
    case (rs_exit t)
    then show ?thesis using inv ring_run_cases [of "rs_ring s" Exit t]
      by (intro one [OF t_exit [of "ring_abs s"]]) (simp_all add: ring_abs_def data_inv_def)
  next
    case (rs_close i t)
    then show ?thesis
      by (intro one [OF t_close [of _ "ring_abs s"]])
        (auto simp: ring_abs_def ring_Close_def split: if_splits)
  qed (use inv in \<open>simp_all add: ring_abs_def data_inv_def\<close>)
qed

text \<open>The ring transport provides the contract of asynchronous transports.\<close>

interpretation ring: transport "ring_cfg (ring_capacity capacity) p" "\<lambda>s. \<exists>n. s = ring_start capacity p n"
  ring_step "ring_inv (ring_capacity capacity) p" ring_abs
proof unfold_locales
  show "ring_abs s = t_init" if "\<exists>n. s = ring_start capacity p n" for s
    using that ring_rep_ok [OF ring_rep_New, of capacity p]
    by (auto simp: ring_abs_def t_init_def ring_start_def) (simp add: NewRingTransport_def)
qed (auto intro: ring_inv_start ring_inv_step ring_step_sim)

section \<open>Draining\<close>

text \<open>What the worker still has to do once the ring is closed, in steps.\<close>

definition drain_work :: "ring_sys \<Rightarrow> nat" where
  "drain_work s = 2 * length (ring_queue (rs_ring s)) +
     (case rs_worker s of WEmit x \<Rightarrow> 2 | WDone \<Rightarrow> 0 | _ \<Rightarrow> 1)"

lemma drain_progress:
  assumes inv: "ring_inv n p s" and closed: "rt_closed (rs_ring s)" and busy: "rs_worker s \<noteq> WDone"
  shows "\<exists>s'. ring_step s s' \<and> drain_work s' < drain_work s \<and> rt_closed (rs_ring s') \<and>
    t_path (ring_abs s') = t_path (ring_abs s)"
proof (cases "rs_worker s")
  case WReady
  have ok: "ring_ok (rs_ring s)" using inv by (simp add: ring_inv_def data_inv_def)
  obtain res t where run: "ring_run (rs_ring s) = (res, t)" by fastforce
  have "cnt isParked (rs_threads s) = 0" using inv closed by (auto simp: ring_inv_def wake_inv_def)
  then have sig: "signal_notFull (rs_threads s) (rs_threads s)"
    by (auto simp: signal_notFull_def list_ex_iff cnt_zero)
  consider "res = Exit" "ring_queue (rs_ring s) = []"
    | x q where "res = Took (Some x)" "ring_queue (rs_ring s) = x # q" "ring_queue t = q"
      "rt_closed t"
    using ring_run_cases [OF ok run] closed by (cases "ring_queue (rs_ring s)") auto
  then show ?thesis
  proof cases
    case 1
    then show ?thesis using rs_exit [OF WReady] run closed WReady
      by (intro exI [of _ "s\<lparr>rs_worker := WDone\<rparr>"])
        (simp add: drain_work_def ring_abs_def t_path_def)
  next
    case 2
    then show ?thesis using rs_take [OF WReady _ sig] run closed WReady
      by (intro exI [of _ "s\<lparr>rs_worker := WEmit (Some x), rs_ring := t, rs_threads := rs_threads s\<rparr>"])
        (simp add: drain_work_def ring_abs_def t_path_def)
  qed
next
  case (WEmit y)
  then obtain x where x: "rs_worker s = WEmit (Some x)"
    using inv by (cases y) (auto simp: ring_inv_def data_inv_def)
  then show ?thesis using rs_emit [OF x] closed
    by (intro exI [of _ "s\<lparr>rs_worker := WReady, rs_calls := rs_calls s @ [SinkEmit x]\<rparr>"])
      (simp add: drain_work_def ring_abs_def t_path_def)
qed (use inv closed busy in \<open>auto simp: ring_inv_def data_inv_def wake_inv_def\<close>)

lemma drain_run:
  assumes "ring_inv n p s" "rt_closed (rs_ring s)"
  shows "\<exists>s'. ring_step\<^sup>*\<^sup>* s s' \<and> rs_worker s' = WDone \<and> emitted (rs_calls s') = t_path (ring_abs s)"
  using assms
proof (induction "drain_work s" arbitrary: s rule: less_induct)
  case less
  show ?case
  proof (cases "rs_worker s = WDone")
    case True
    then have "ring_queue (rs_ring s) = []"
      using less.prems(1) by (simp add: ring_inv_def data_inv_def)
    with True show ?thesis
      by (intro exI [of _ s]) (simp add: ring_abs_def t_path_def)
  next
    case False
    with drain_progress [OF less.prems] obtain s1 where s1: "ring_step s s1"
      "drain_work s1 < drain_work s" "rt_closed (rs_ring s1)" "t_path (ring_abs s1) = t_path (ring_abs s)"
      by blast
    with less.hyps [of s1] ring_inv_step [OF less.prems(1)] show ?thesis
      by (metis converse_rtranclp_into_rtranclp)
  qed
qed

lemma drain_monotone:
  assumes "ring_inv n p s" "rt_closed (rs_ring s)" "ring_step s s'"
  shows "drain_work s' \<le> drain_work s \<and> rt_closed (rs_ring s')"
  using assms(3)
proof (cases rule: ring_step.cases)
  case (rs_take x t ps)
  then show ?thesis using assms ring_run_cases [of "rs_ring s" "Took x" t]
    by (cases "ring_queue (rs_ring s)") (auto simp: drain_work_def ring_inv_def data_inv_def)
qed (use assms in \<open>auto simp: drain_work_def after_dispatch_def ring_Dispatch_def dispatch_wait_def
      ring_run_def ring_Close_def split: if_splits\<close>)

section \<open>Concrete runs\<close>

definition ring_dispatch_at :: "nat \<Rightarrow> string \<Rightarrow> ring_sys \<Rightarrow> ring_sys" where
  "ring_dispatch_at i msg s =
     (let c = Clone (zeroRecord\<lparr>rMessage := msg\<rparr>)
      in after_dispatch i c (ring_Dispatch c (rs_ring s)) s)"

lemma ring_dispatch_at_reach:
  "ring_step\<^sup>*\<^sup>* s0 s \<Longrightarrow> i < length (rs_threads s) \<and> rs_threads s ! i = Idle \<Longrightarrow>
     ring_step\<^sup>*\<^sup>* s0 (ring_dispatch_at i msg s)"
  using rs_dispatch [of i s "zeroRecord\<lparr>rMessage := msg\<rparr>"]
  by (simp add: ring_dispatch_at_def Let_def rtranclp.rtrancl_into_rtrancl)

text \<open>Three records into a ring of two slots: the third overflows.\<close>

definition ring_demo :: "OverflowPolicy \<Rightarrow> ring_sys" where
  "ring_demo p = ring_dispatch_at 1 ''c'' (ring_dispatch_at 0 ''b'' (ring_dispatch_at 0 ''a'' (ring_start 2 p 2)))"

lemma ring_demo_DropOldest: "ring_step\<^sup>*\<^sup>* (ring_start 2 DropOldest 2) (ring_demo DropOldest)"
  unfolding ring_demo_def
  by (intro ring_dispatch_at_reach rtranclp.rtrancl_refl; code_simp)

lemma ring_demo_Block: "ring_step\<^sup>*\<^sup>* (ring_start 2 Block 2) (ring_demo Block)"
  unfolding ring_demo_def
  by (intro ring_dispatch_at_reach rtranclp.rtrancl_refl; code_simp)

text \<open>One record, then \<open>Close\<close> until it returns; the state after each step.\<close>

abbreviation ring_a :: Record where
  "ring_a \<equiv> Clone (zeroRecord\<lparr>rMessage := ''a''\<rparr>)"

definition ring_closing :: "Record option \<Rightarrow> nat \<Rightarrow> worker_pc \<Rightarrow> ring_pc \<Rightarrow> sink_call list \<Rightarrow> ring_sys" where
  "ring_closing slot h w pc calls =
     \<lparr>rs_ring = \<lparr>rt_buf = [slot, None], rt_head = h, rt_tail = 1, rt_count = 1 - h, rt_policy = Block,
        rt_closed = True, rt_dropped = 0\<rparr>,
      rs_worker = w, rs_threads = [pc], rs_calls = calls, rs_offered = [ring_a], rs_lost = []\<rparr>"

lemma ring_closing_reach:
  "ring_step\<^sup>*\<^sup>* (ring_start 2 Block 1) (ring_closing (Some ring_a) 0 WReady AwaitDone [])"
proof -
  let ?s1 = "ring_dispatch_at 0 ''a'' (ring_start 2 Block 1)"
  let ?a2 = "ring_closing (Some ring_a) 0 WReady AwaitDone []"
  have s1: "ring_step\<^sup>*\<^sup>* (ring_start 2 Block 1) ?s1"
    by (intro ring_dispatch_at_reach rtranclp.rtrancl_refl) (simp add: ring_start_def)
  let ?u = "\<lparr>rs_ring = (rs_ring ?a2)\<lparr>rt_closed := False\<rparr>, rs_worker = WReady,
      rs_threads = [Idle], rs_calls = [], rs_offered = [ring_a], rs_lost = []\<rparr>"
  have "?s1 = ?u"
    by (simp add: ring_dispatch_at_def ring_start_def NewRingTransport_def ring_capacity_def
        ring_Dispatch_def ring_full_def ring_push_def after_dispatch_def wake_worker_def
        ring_closing_def numeral_2_eq_2 Let_def)
  with s1 have "ring_step\<^sup>*\<^sup>* (ring_start 2 Block 1) ?u" by metis
  moreover have "ring_step ?u ?a2"
    using rs_close [of 0 ?u "rs_ring ?a2"]
    by (simp add: ring_closing_def ring_Close_def wake_worker_def)
  ultimately show ?thesis by (rule rtranclp.rtrancl_into_rtrancl)
qed

lemma ring_closed_reach:
  "ring_step\<^sup>*\<^sup>* (ring_start 2 Block 1) (ring_closing None 1 WDone Idle [SinkEmit ring_a, SinkSync, SinkClose])"
proof -
  let ?a2 = "ring_closing (Some ring_a) 0 WReady AwaitDone []"
  let ?e = "[SinkEmit ring_a]"
  have "ring_step ?a2 (ring_closing None 1 (WEmit (Some ring_a)) AwaitDone [])"
    using rs_take [of ?a2 "Some ring_a" "rs_ring (ring_closing None 1 WReady AwaitDone [])" "[AwaitDone]"]
    by (simp add: ring_closing_def ring_run_def ring_pop_def signal_notFull_def)
  moreover have "ring_step (ring_closing None 1 (WEmit (Some ring_a)) AwaitDone [])
      (ring_closing None 1 WReady AwaitDone ?e)"
    using rs_emit [of "ring_closing None 1 (WEmit (Some ring_a)) AwaitDone []"]
    by (simp add: ring_closing_def)
  moreover have "ring_step (ring_closing None 1 WReady AwaitDone ?e) (ring_closing None 1 WDone AwaitDone ?e)"
    using rs_exit [of "ring_closing None 1 WReady AwaitDone ?e"]
    by (simp add: ring_closing_def ring_run_def)
  moreover have "ring_step (ring_closing None 1 WDone AwaitDone ?e) (ring_closing None 1 WDone SyncingSink ?e)"
    using rs_done [of 0 "ring_closing None 1 WDone AwaitDone ?e"] by (simp add: ring_closing_def)
  moreover have "ring_step (ring_closing None 1 WDone SyncingSink ?e)
      (ring_closing None 1 WDone ClosingSink (?e @ [SinkSync]))"
    using rs_close_sync [of 0 "ring_closing None 1 WDone SyncingSink ?e"] by (simp add: ring_closing_def)
  moreover have "ring_step (ring_closing None 1 WDone ClosingSink (?e @ [SinkSync]))
      (ring_closing None 1 WDone Idle [SinkEmit ring_a, SinkSync, SinkClose])"
    using rs_close_sink [of 0 "ring_closing None 1 WDone ClosingSink (?e @ [SinkSync])"]
    by (simp add: ring_closing_def)
  ultimately show ?thesis
    using ring_closing_reach by (meson rtranclp.rtrancl_into_rtrancl)
qed

section \<open>Properties\<close>

text \<open>
  C7: Refinement. Every reachable state of the ring with its threads is, read through
  \<open>ring_abs\<close>, a reachable state of the abstract bounded FIFO transport of the same policy and
  capacity.
\<close>

theorem ring_refines:
  assumes "ring_step\<^sup>*\<^sup>* (ring_start capacity p n) s"
  shows "(tstep (ring_cfg (ring_capacity capacity) p))\<^sup>*\<^sup>* t_init (ring_abs s)"
  by (rule ring.reach_sim [OF _ assms]) blast

theorem ring_refines_witness:
  "(tstep (ring_cfg 2 DropOldest))\<^sup>*\<^sup>* t_init (ring_abs (ring_demo DropOldest))
   \<and> map rMessage (t_queue (ring_abs (ring_demo DropOldest))) = [''b'', ''c'']"
proof -
  have "map rMessage (t_queue (ring_abs (ring_demo DropOldest))) = [''b'', ''c'']" by code_simp
  then show ?thesis
    using ring_refines [OF ring_demo_DropOldest] by (simp add: ring_capacity_def)
qed

text \<open>
  C8: Accounting and order. Whatever the interleaving of producers, closers and the worker, each
  record accepted by \<open>Dispatch\<close> is exactly once either lost to the policy or on its way
  (delivered to the sink, held by the worker, or queued), the sequence of those on their way is in
  the order of acceptance, the queue stays within the capacity, and \<open>Dropped\<close> plus the
  increments still pending is the number of losses, modulo the width of the counter.
\<close>

theorem ring_accounting:
  assumes "ring_step\<^sup>*\<^sup>* (ring_start capacity p n) s"
  shows "mset (rs_offered s) = mset (t_path (ring_abs s)) + mset (rs_lost s)
    \<and> subseq (t_path (ring_abs s)) (rs_offered s)
    \<and> length (ring_queue (rs_ring s)) \<le> ring_capacity capacity
    \<and> rt_dropped (rs_ring s) + of_nat (cnt isCounting (rs_threads s)) = of_nat (length (rs_lost s))"
proof -
  have "ring_inv (ring_capacity capacity) p s" using ring.reach_inv assms by blast
  then show ?thesis
    using ring.conservation [OF _ assms, of capacity p]
    by (auto simp: ring_inv_def data_inv_def ring_cfg_def ring_abs_def)
qed

theorem ring_accounting_witness:
  "ring_step\<^sup>*\<^sup>* (ring_start 2 DropOldest 2) (ring_demo DropOldest)
   \<and> map rMessage (rs_lost (ring_demo DropOldest)) = [''a'']
   \<and> mset (rs_offered (ring_demo DropOldest))
     = mset (t_path (ring_abs (ring_demo DropOldest))) + mset (rs_lost (ring_demo DropOldest))"
proof -
  have "map rMessage (rs_lost (ring_demo DropOldest)) = [''a'']" by code_simp
  then show ?thesis
    using ring_demo_DropOldest ring_accounting [OF ring_demo_DropOldest] by blast
qed

text \<open>
  Under \<open>Block\<close> the ring is lossless: the records delivered, then the one the worker holds,
  then the queue, are exactly the accepted records in order, and \<open>Dropped\<close> is 0.
\<close>

lemma ring_block_lossless:
  assumes "ring_step\<^sup>*\<^sup>* (ring_start capacity Block n) s"
  shows "emitted (rs_calls s) @ opt_list (t_inflight (ring_abs s)) @ ring_queue (rs_ring s) = rs_offered s
    \<and> rs_lost s = []"
proof -
  have "t_path (ring_abs s) = t_offered (ring_abs s)" "t_dropped (ring_abs s) = 0"
    using ring.lossless [OF _ assms, of capacity Block] by (auto simp: ring_cfg_def)
  then show ?thesis by (simp add: t_path_def ring_abs_def)
qed

theorem ring_block_lossless_witness:
  "ring_step\<^sup>*\<^sup>* (ring_start 2 Block 2) (ring_demo Block)
   \<and> rs_threads (ring_demo Block) ! 1 \<noteq> Idle
   \<and> emitted (rs_calls (ring_demo Block)) @ opt_list (t_inflight (ring_abs (ring_demo Block)))
       @ ring_queue (rs_ring (ring_demo Block)) = rs_offered (ring_demo Block)"
proof -
  have "isParked (rs_threads (ring_demo Block) ! 1)" by code_simp
  then have "rs_threads (ring_demo Block) ! 1 \<noteq> Idle" by auto
  then show ?thesis
    using ring_demo_Block ring_block_lossless [OF ring_demo_Block] by blast
qed

text \<open>
  C9: \<open>Close\<close> drains before it closes. Once the ring is closed the worker never has more work
  than before, always has a next step that reduces it, and finishing it delivers everything
  that was queued, in order.
\<close>

theorem ring_close_drains:
  assumes "ring_step\<^sup>*\<^sup>* (ring_start capacity p n) s" "rt_closed (rs_ring s)"
  shows "(\<forall>s'. ring_step s s' \<longrightarrow> drain_work s' \<le> drain_work s)
    \<and> (rs_worker s \<noteq> WDone \<longrightarrow> (\<exists>s'. ring_step s s' \<and> drain_work s' < drain_work s))
    \<and> (\<exists>s'. ring_step\<^sup>*\<^sup>* s s' \<and> rs_worker s' = WDone \<and>
         emitted (rs_calls s') = emitted (rs_calls s) @ opt_list (t_inflight (ring_abs s)) @ ring_queue (rs_ring s))"
proof -
  have "ring_inv (ring_capacity capacity) p s" using ring.reach_inv assms(1) by blast
  moreover have "t_path (ring_abs s) = emitted (rs_calls s) @ opt_list (t_inflight (ring_abs s)) @ ring_queue (rs_ring s)"
    by (simp add: t_path_def ring_abs_def)
  ultimately show ?thesis
    using drain_progress drain_run drain_monotone assms(2) by metis
qed

theorem ring_close_drains_witness:
  "\<exists>s. ring_step\<^sup>*\<^sup>* (ring_closing (Some ring_a) 0 WReady AwaitDone []) s
     \<and> rs_worker s = WDone \<and> emitted (rs_calls s) = [ring_a]"
  using ring_close_drains [OF ring_closing_reach]
  by (simp add: ring_closing_def ring_abs_def ring_queue_def ring_items_def)

text \<open>
  C11: The sink behind the ring: it is closed at most once, no record reaches it after that,
  and when it has been closed the worker is done and every accepted record was delivered or
  counted as lost.
\<close>

theorem ring_sink_protocol:
  assumes "ring_step\<^sup>*\<^sup>* (ring_start capacity p n) s"
  shows "no_emit_after_close (rs_calls s) \<and> count_list (rs_calls s) SinkClose \<le> 1
    \<and> (SinkClose \<in> set (rs_calls s) \<longrightarrow>
        rs_worker s = WDone \<and> mset (rs_offered s) = mset (emitted (rs_calls s)) + mset (rs_lost s))"
proof -
  have inv: "ring_inv (ring_capacity capacity) p s" using ring.reach_inv assms by blast
  then have "cnt isClosing (rs_threads s) + count_list (rs_calls s) SinkClose \<le> 1"
    by (simp add: ring_inv_def close_inv_def)
  moreover have "t_path (ring_abs s) = emitted (rs_calls s)" if "rs_worker s = WDone"
    using inv that by (simp add: t_path_def ring_abs_def ring_inv_def data_inv_def)
  moreover have "mset (rs_offered s) = mset (t_path (ring_abs s)) + mset (rs_lost s)"
    using ring.conservation(1) [OF _ assms, of capacity p] by (auto simp: ring_abs_def)
  ultimately show ?thesis
    using inv by (auto simp: ring_inv_def close_inv_def)
qed

theorem ring_sink_protocol_witness:
  "mset (rs_offered (ring_closing None 1 WDone Idle [SinkEmit ring_a, SinkSync, SinkClose]))
   = mset [ring_a]"
  using ring_sink_protocol [OF ring_closed_reach] by (simp add: ring_closing_def)

text \<open>
  C10: No wake-up is lost and the worker never dereferences an empty slot: a parked worker implies
  an empty open ring; a producer parked on \<open>notFull\<close> implies an open ring whose free slots are
  all claimed by producers already woken (in particular a full ring when none is woken).
\<close>

theorem ring_no_lost_wakeup:
  assumes "ring_step\<^sup>*\<^sup>* (ring_start capacity p n) s"
  shows "rs_worker s \<noteq> WPanic
    \<and> (rs_worker s = WParked \<longrightarrow> rt_count (rs_ring s) = 0 \<and> \<not> rt_closed (rs_ring s))
    \<and> (0 < cnt isParked (rs_threads s) \<longrightarrow> \<not> rt_closed (rs_ring s) \<and>
         length (rt_buf (rs_ring s)) \<le> rt_count (rs_ring s) + cnt isWoken (rs_threads s))"
proof -
  have "ring_inv (ring_capacity capacity) p s" using ring.reach_inv assms by blast
  then show ?thesis
    by (auto simp: ring_inv_def data_inv_def wake_inv_def ring_ok_def ring_rep_def)
qed

theorem ring_no_lost_wakeup_witness:
  "0 < cnt isParked (rs_threads (ring_demo Block))
   \<and> length (rt_buf (rs_ring (ring_demo Block)))
     \<le> rt_count (rs_ring (ring_demo Block)) + cnt isWoken (rs_threads (ring_demo Block))"
proof -
  have "0 < cnt isParked (rs_threads (ring_demo Block))" by code_simp
  then show ?thesis using ring_no_lost_wakeup [OF ring_demo_Block] by blast
qed

end
