(* ===== verification/Transport_Channel.thy ===== *)
theory Transport_Channel
  imports Transport_Spec
begin

text \<open>
  \<open>ChannelTransport\<close> of \<open>transport.go\<close>. The buffered Go channel is a bounded
  list with a closed flag and Go's rules: a send on a closed channel panics, a receive from a
  closed empty channel succeeds with the zero value. Every channel operation and every atomic
  counter update is a step of its own, so the races between producers, the worker and \<open>Close\<close>
  are all interleavings of the system. The system refines the abstract transport;
  after \<open>Close\<close> producers panic and the worker delivers what was accepted.
\<close>

section \<open>The channel\<close>

datatype once_state = NotRun | Running | Finished

record ChannelTransport =
  ct_ch :: "Record list"
  ct_cap :: nat
  ct_chclosed :: bool
  ct_policy :: OverflowPolicy
  ct_dropped :: u64
  ct_once :: once_state

definition chan_capacity :: "int \<Rightarrow> nat" where
  "chan_capacity capacity = (if capacity < 1 then 1024 else nat capacity)"

definition NewChannelTransport :: "int \<Rightarrow> OverflowPolicy \<Rightarrow> ChannelTransport" where
  "NewChannelTransport capacity policy =
     \<lparr>ct_ch = [], ct_cap = chan_capacity capacity, ct_chclosed = False, ct_policy = policy,
      ct_dropped = 0, ct_once = NotRun\<rparr>"

datatype sent = Sent | SendFull | SendPanic

definition chan_send :: "Record \<Rightarrow> ChannelTransport \<Rightarrow> sent \<times> ChannelTransport" where
  "chan_send c t =
     (if ct_chclosed t then (SendPanic, t)
      else if length (ct_ch t) < ct_cap t then (Sent, t\<lparr>ct_ch := ct_ch t @ [c]\<rparr>)
      else (SendFull, t))"

datatype received = Got Record | Zero | NoneReady

definition chan_recv :: "ChannelTransport \<Rightarrow> received \<times> ChannelTransport" where
  "chan_recv t =
     (case ct_ch t of
        x # xs \<Rightarrow> (Got x, t\<lparr>ct_ch := xs\<rparr>)
      | [] \<Rightarrow> (if ct_chclosed t then Zero else NoneReady, t))"

section \<open>Threads\<close>

text \<open>
  The program counter of a producer or closer: at the blocking send, at the \<open>DropNewest\<close> select,
  before its counter update, at the outer and inner select of the \<open>DropOldest\<close> loop, before its
  counter update; in \<open>Close\<close>, running the \<open>once\<close> body, waiting for it, and at the two sink calls.
\<close>

datatype chan_pc = ChIdle | ChSend Record | ChTryNewest Record | ChCountNewest
  | ChTryOldest Record | ChEvict Record | ChCountOldest Record | ChPanicked
  | ChAwaitDone | ChOnceWait | ChSyncSink | ChCloseSink

datatype chan_worker = ChRange | ChEmit Record | ChDone

record chan_sys =
  cs_t :: ChannelTransport
  cs_worker :: chan_worker
  cs_threads :: "chan_pc list"
  cs_calls :: "sink_call list"
  cs_offered :: "Record list"
  cs_lost :: "Record list"
  cs_miscounts :: nat

definition chan_start :: "int \<Rightarrow> OverflowPolicy \<Rightarrow> nat \<Rightarrow> chan_sys" where
  "chan_start capacity policy n =
     \<lparr>cs_t = NewChannelTransport capacity policy, cs_worker = ChRange,
      cs_threads = replicate n ChIdle, cs_calls = [], cs_offered = [], cs_lost = [],
      cs_miscounts = 0\<rparr>"

definition chan_Dispatch_entry :: "OverflowPolicy \<Rightarrow> Record \<Rightarrow> chan_pc" where
  "chan_Dispatch_entry p c =
     (case p of Block \<Rightarrow> ChSend c | DropNewest \<Rightarrow> ChTryNewest c | DropOldest \<Rightarrow> ChTryOldest c)"

text \<open>The select or send at a program counter; \<open>None\<close> when the goroutine blocks.\<close>

fun chan_try :: "chan_pc \<Rightarrow> sent \<Rightarrow> chan_pc option" where
  "chan_try (ChSend c) Sent = Some ChIdle"
| "chan_try (ChSend c) SendFull = None"
| "chan_try (ChTryNewest c) Sent = Some ChIdle"
| "chan_try (ChTryNewest c) SendFull = Some ChCountNewest"
| "chan_try (ChTryOldest c) Sent = Some ChIdle"
| "chan_try (ChTryOldest c) SendFull = Some (ChEvict c)"
| "chan_try p SendPanic = Some ChPanicked"
| "chan_try p r = None"

fun sending :: "chan_pc \<Rightarrow> Record option" where
  "sending (ChSend c) = Some c"
| "sending (ChTryNewest c) = Some c"
| "sending (ChTryOldest c) = Some c"
| "sending p = None"

definition after_send :: "nat \<Rightarrow> Record \<Rightarrow> chan_pc \<Rightarrow> sent \<times> ChannelTransport \<Rightarrow> chan_sys \<Rightarrow> chan_sys" where
  "after_send i c pc' res s =
     (let s1 = s\<lparr>cs_t := snd res, cs_threads := (cs_threads s)[i := pc']\<rparr>
      in if fst res = Sent then s1\<lparr>cs_offered := cs_offered s @ [c]\<rparr>
         else if pc' = ChCountNewest
           then s1\<lparr>cs_offered := cs_offered s @ [c], cs_lost := cs_lost s @ [c]\<rparr>
         else s1)"

definition after_evict :: "nat \<Rightarrow> Record \<Rightarrow> received \<times> ChannelTransport \<Rightarrow> chan_sys \<Rightarrow> chan_sys" where
  "after_evict i c res s =
     (let s1 = s\<lparr>cs_t := snd res\<rparr>; th = (\<lambda>p. (cs_threads s)[i := p])
      in case fst res of
           Got x \<Rightarrow> s1\<lparr>cs_threads := th (ChCountOldest c), cs_lost := cs_lost s @ [x]\<rparr>
         | Zero \<Rightarrow> s1\<lparr>cs_threads := th (ChCountOldest c), cs_miscounts := Suc (cs_miscounts s)\<rparr>
         | NoneReady \<Rightarrow> s1\<lparr>cs_threads := th (ChTryOldest c)\<rparr>)"

definition chan_count :: "chan_sys \<Rightarrow> chan_sys" where
  "chan_count s = s\<lparr>cs_t := (cs_t s)\<lparr>ct_dropped := ct_dropped (cs_t s) + 1\<rparr>\<rparr>"

inductive chan_step :: "chan_sys \<Rightarrow> chan_sys \<Rightarrow> bool" where
  cs_dispatch: "i < length (cs_threads s) \<Longrightarrow> cs_threads s ! i = ChIdle \<Longrightarrow>
     chan_step s (s\<lparr>cs_threads := (cs_threads s)[i := chan_Dispatch_entry (ct_policy (cs_t s)) (Clone r)]\<rparr>)"
| cs_send: "i < length (cs_threads s) \<Longrightarrow> sending (cs_threads s ! i) = Some c \<Longrightarrow>
     chan_try (cs_threads s ! i) (fst (chan_send c (cs_t s))) = Some pc' \<Longrightarrow>
     chan_step s (after_send i c pc' (chan_send c (cs_t s)) s)"
| cs_evict: "i < length (cs_threads s) \<Longrightarrow> cs_threads s ! i = ChEvict c \<Longrightarrow>
     chan_step s (after_evict i c (chan_recv (cs_t s)) s)"
| cs_count_newest: "i < length (cs_threads s) \<Longrightarrow> cs_threads s ! i = ChCountNewest \<Longrightarrow>
     chan_step s ((chan_count s)\<lparr>cs_threads := (cs_threads s)[i := ChIdle]\<rparr>)"
| cs_count_oldest: "i < length (cs_threads s) \<Longrightarrow> cs_threads s ! i = ChCountOldest c \<Longrightarrow>
     chan_step s ((chan_count s)\<lparr>cs_threads := (cs_threads s)[i := ChTryOldest c]\<rparr>)"
| cs_recv: "cs_worker s = ChRange \<Longrightarrow> chan_recv (cs_t s) = (Got x, t) \<Longrightarrow>
     chan_step s (s\<lparr>cs_t := t, cs_worker := ChEmit x\<rparr>)"
| cs_range_end: "cs_worker s = ChRange \<Longrightarrow> chan_recv (cs_t s) = (Zero, t) \<Longrightarrow>
     chan_step s (s\<lparr>cs_worker := ChDone\<rparr>)"
| cs_emit: "cs_worker s = ChEmit x \<Longrightarrow>
     chan_step s (s\<lparr>cs_worker := ChRange, cs_calls := cs_calls s @ [SinkEmit x]\<rparr>)"
| cs_sync: "i < length (cs_threads s) \<Longrightarrow> cs_threads s ! i = ChIdle \<Longrightarrow>
     chan_step s (s\<lparr>cs_calls := cs_calls s @ [SinkSync]\<rparr>)"
| cs_close_first: "i < length (cs_threads s) \<Longrightarrow> cs_threads s ! i = ChIdle \<Longrightarrow> ct_once (cs_t s) = NotRun \<Longrightarrow>
     chan_step s (s\<lparr>cs_t := (cs_t s)\<lparr>ct_chclosed := True, ct_once := Running\<rparr>,
       cs_threads := (cs_threads s)[i := ChAwaitDone]\<rparr>)"
| cs_close_other: "i < length (cs_threads s) \<Longrightarrow> cs_threads s ! i = ChIdle \<Longrightarrow> ct_once (cs_t s) \<noteq> NotRun \<Longrightarrow>
     chan_step s (s\<lparr>cs_threads := (cs_threads s)[i := ChOnceWait]\<rparr>)"
| cs_close_done: "i < length (cs_threads s) \<Longrightarrow> cs_threads s ! i = ChAwaitDone \<Longrightarrow> cs_worker s = ChDone \<Longrightarrow>
     chan_step s (s\<lparr>cs_t := (cs_t s)\<lparr>ct_once := Finished\<rparr>,
       cs_threads := (cs_threads s)[i := ChSyncSink]\<rparr>)"
| cs_close_passed: "i < length (cs_threads s) \<Longrightarrow> cs_threads s ! i = ChOnceWait \<Longrightarrow> ct_once (cs_t s) = Finished \<Longrightarrow>
     chan_step s (s\<lparr>cs_threads := (cs_threads s)[i := ChSyncSink]\<rparr>)"
| cs_close_sync: "i < length (cs_threads s) \<Longrightarrow> cs_threads s ! i = ChSyncSink \<Longrightarrow>
     chan_step s (s\<lparr>cs_threads := (cs_threads s)[i := ChCloseSink], cs_calls := cs_calls s @ [SinkSync]\<rparr>)"
| cs_close_sink: "i < length (cs_threads s) \<Longrightarrow> cs_threads s ! i = ChCloseSink \<Longrightarrow>
     chan_step s (s\<lparr>cs_threads := (cs_threads s)[i := ChIdle], cs_calls := cs_calls s @ [SinkClose]\<rparr>)"

section \<open>The invariant\<close>

fun isChCounting :: "chan_pc \<Rightarrow> bool" where
  "isChCounting ChCountNewest = True"
| "isChCounting (ChCountOldest c) = True"
| "isChCounting p = False"

text \<open>Program counters a policy can reach, and those that presuppose a closed channel.\<close>

fun pc_policy :: "OverflowPolicy \<Rightarrow> chan_pc \<Rightarrow> bool" where
  "pc_policy p (ChSend c) = (p = Block)"
| "pc_policy p (ChTryNewest c) = (p = DropNewest)"
| "pc_policy p ChCountNewest = (p = DropNewest)"
| "pc_policy p (ChTryOldest c) = (p = DropOldest)"
| "pc_policy p (ChEvict c) = (p = DropOldest)"
| "pc_policy p (ChCountOldest c) = (p = DropOldest)"
| "pc_policy p _ = True"

definition chan_data_inv :: "nat \<Rightarrow> OverflowPolicy \<Rightarrow> chan_sys \<Rightarrow> bool" where
  "chan_data_inv n p s \<longleftrightarrow>
     ct_cap (cs_t s) = n \<and> ct_policy (cs_t s) = p \<and> length (ct_ch (cs_t s)) \<le> n \<and>
     cnt (\<lambda>pc. \<not> pc_policy p pc) (cs_threads s) = 0 \<and>
     (cs_worker s = ChDone \<longrightarrow> ct_chclosed (cs_t s) \<and> ct_ch (cs_t s) = []) \<and>
     (0 < cs_miscounts s \<or> 0 < cnt (\<lambda>pc. pc = ChPanicked) (cs_threads s) \<longrightarrow> ct_chclosed (cs_t s)) \<and>
     ct_dropped (cs_t s) + of_nat (cnt isChCounting (cs_threads s))
       = of_nat (length (cs_lost s) + cs_miscounts s)"

definition chan_close_inv :: "chan_sys \<Rightarrow> bool" where
  "chan_close_inv s \<longleftrightarrow>
     (ct_chclosed (cs_t s) \<longleftrightarrow> ct_once (cs_t s) \<noteq> NotRun) \<and>
     (ct_once (cs_t s) = Finished \<longrightarrow> cs_worker s = ChDone) \<and>
     (0 < cnt (\<lambda>pc. pc = ChSyncSink \<or> pc = ChCloseSink) (cs_threads s) \<or> SinkClose \<in> set (cs_calls s)
        \<longrightarrow> ct_once (cs_t s) = Finished) \<and>
     no_emit_after_close (cs_calls s)"

definition chan_inv :: "nat \<Rightarrow> OverflowPolicy \<Rightarrow> chan_sys \<Rightarrow> bool" where
  "chan_inv n p s \<longleftrightarrow> chan_data_inv n p s \<and> chan_close_inv s"

lemma send_cases:
  assumes "sending pc = Some c" "chan_try pc (fst (chan_send c t)) = Some pc'"
  shows "ct_chclosed t \<and> chan_send c t = (SendPanic, t) \<and> pc' = ChPanicked \<or>
    \<not> ct_chclosed t \<and> length (ct_ch t) < ct_cap t \<and> pc' = ChIdle \<and>
      chan_send c t = (Sent, t\<lparr>ct_ch := ct_ch t @ [c]\<rparr>) \<or>
    \<not> ct_chclosed t \<and> \<not> length (ct_ch t) < ct_cap t \<and> chan_send c t = (SendFull, t) \<and>
      (pc = ChTryNewest c \<and> pc' = ChCountNewest \<or> pc = ChTryOldest c \<and> pc' = ChEvict c)"
  using assms by (cases pc) (auto simp: chan_send_def split: if_splits)

lemma pc_policy_at:
  assumes "chan_data_inv n p s" "i < length (cs_threads s)"
  shows "pc_policy p (cs_threads s ! i)"
  using assms by (auto simp: chan_data_inv_def cnt_zero)

lemma chan_send_data:
  assumes inv: "chan_data_inv n p s" and i: "i < length (cs_threads s)"
    and c: "sending (cs_threads s ! i) = Some c"
    and pc': "chan_try (cs_threads s ! i) (fst (chan_send c (cs_t s))) = Some pc'"
  shows "chan_data_inv n p (after_send i c pc' (chan_send c (cs_t s)) s)"
proof -
  have pc: "pc_policy p (cs_threads s ! i)" using inv i by (rule pc_policy_at)
  have "\<not> isChCounting (cs_threads s ! i)" "cs_threads s ! i \<noteq> ChPanicked"
    using c by (cases "cs_threads s ! i"; simp)+
  with inv pc send_cases [OF c pc'] show ?thesis
    by (elim disjE conjE) (simp_all add: chan_data_inv_def after_send_def cnt_upd [OF i])
qed

lemma chan_evict_data:
  assumes inv: "chan_data_inv n p s" and i: "i < length (cs_threads s)"
    and pc: "cs_threads s ! i = ChEvict c"
  shows "chan_data_inv n p (after_evict i c (chan_recv (cs_t s)) s)"
proof -
  have "p = DropOldest" using pc_policy_at [OF inv i] pc by simp
  then show ?thesis
    using inv pc
    by (cases "ct_ch (cs_t s)")
      (auto simp: chan_data_inv_def after_evict_def chan_recv_def cnt_upd [OF i])
qed

lemma chan_data_step:
  assumes "chan_step s s'" "chan_data_inv n p s"
  shows "chan_data_inv n p s'"
  using assms
proof (cases rule: chan_step.cases)
  case (cs_send i c pc')
  then show ?thesis using assms(2) chan_send_data by simp
next
  case (cs_evict i c)
  then show ?thesis using assms(2) chan_evict_data by simp
next
  case (cs_dispatch i r)
  then show ?thesis using assms(2)
    by (cases p) (simp_all add: chan_data_inv_def chan_Dispatch_entry_def cnt_upd)
next
  case (cs_count_newest i)
  then have "p = DropNewest" using pc_policy_at [OF assms(2)] by fastforce
  with cs_count_newest show ?thesis
    using assms(2) count_word [of i "cs_threads s" isChCounting ChIdle "ct_dropped (cs_t s)"]
    by (simp add: chan_data_inv_def chan_count_def cnt_upd [where P = "\<lambda>pc. pc = ChPanicked"]
        cnt_upd [where P = "\<lambda>pc. \<not> pc_policy DropNewest pc"])
next
  case (cs_count_oldest i c)
  then have "p = DropOldest" using pc_policy_at [OF assms(2)] by fastforce
  with cs_count_oldest show ?thesis
    using assms(2) count_word [of i "cs_threads s" isChCounting "ChTryOldest c" "ct_dropped (cs_t s)"]
    by (simp add: chan_data_inv_def chan_count_def cnt_upd [where P = "\<lambda>pc. pc = ChPanicked"]
        cnt_upd [where P = "\<lambda>pc. \<not> pc_policy DropOldest pc"])
qed (auto simp: chan_data_inv_def chan_recv_def cnt_upd split: list.splits if_splits)

lemma chan_close_step:
  assumes "chan_step s s'" "chan_close_inv s" "chan_data_inv n p s"
  shows "chan_close_inv s'"
  using assms
proof (cases rule: chan_step.cases)
  case (cs_send i c pc')
  then have "\<not> (cs_threads s ! i = ChSyncSink \<or> cs_threads s ! i = ChCloseSink)" by auto
  with send_cases [OF cs_send(3,4)] cs_send assms(2) show ?thesis
    by (elim disjE conjE) (auto simp: chan_close_inv_def after_send_def cnt_upd)
next
  case (cs_evict i c)
  then show ?thesis using assms(2)
    by (cases "ct_ch (cs_t s)") (auto simp: chan_close_inv_def after_evict_def chan_recv_def cnt_upd)
next
  case (cs_close_sink i)
  then have "0 < cnt (\<lambda>pc. pc = ChSyncSink \<or> pc = ChCloseSink) (cs_threads s)" by (auto intro: cnt_pos)
  with cs_close_sink show ?thesis using assms(2)
    by (auto simp: chan_close_inv_def cnt_upd no_emit_after_close_snoc)
next
  case (cs_close_sync i)
  then have "0 < cnt (\<lambda>pc. pc = ChSyncSink \<or> pc = ChCloseSink) (cs_threads s)" by (auto intro: cnt_pos)
  with cs_close_sync show ?thesis using assms(2)
    by (auto simp: chan_close_inv_def cnt_upd no_emit_after_close_snoc)
next
  case (cs_close_done i)
  then show ?thesis using assms(2,3) by (auto simp: chan_close_inv_def chan_data_inv_def cnt_upd)
next
  case (cs_dispatch i r)
  then show ?thesis using assms(2)
    by (cases "ct_policy (cs_t s)") (auto simp: chan_close_inv_def chan_Dispatch_entry_def cnt_upd)
qed (auto simp: chan_close_inv_def chan_recv_def chan_count_def cnt_upd no_emit_after_close_snoc
    split: list.splits if_splits)

lemma chan_inv_step: "chan_inv n p s \<Longrightarrow> chan_step s s' \<Longrightarrow> chan_inv n p s'"
  unfolding chan_inv_def using chan_data_step chan_close_step by blast

lemma chan_inv_start: "chan_inv (chan_capacity capacity) p (chan_start capacity p n)"
  by (simp add: chan_inv_def chan_data_inv_def chan_close_inv_def chan_start_def
      NewChannelTransport_def cnt_replicate)

section \<open>Refinement of the abstract transport\<close>

definition chan_abs :: "chan_sys \<Rightarrow> Record tstate" where
  "chan_abs s = \<lparr>t_queue = ct_ch (cs_t s),
     t_inflight = (case cs_worker s of ChEmit x \<Rightarrow> Some x | _ \<Rightarrow> None),
     t_delivered = emitted (cs_calls s), t_offered = cs_offered s, t_lost = cs_lost s,
     t_dropped = length (cs_lost s) + cs_miscounts s, t_closed = ct_chclosed (cs_t s),
     t_done = (cs_worker s = ChDone)\<rparr>"

lemma chan_abs_simps [simp]:
  "t_queue (chan_abs s) = ct_ch (cs_t s)" "t_offered (chan_abs s) = cs_offered s"
  "t_lost (chan_abs s) = cs_lost s" "t_delivered (chan_abs s) = emitted (cs_calls s)"
  "t_dropped (chan_abs s) = length (cs_lost s) + cs_miscounts s" "t_closed (chan_abs s) = ct_chclosed (cs_t s)"
  "t_done (chan_abs s) = (cs_worker s = ChDone)"
  by (simp_all add: chan_abs_def)

definition chan_cfg :: "nat \<Rightarrow> OverflowPolicy \<Rightarrow> tconfig" where
  "chan_cfg n p = \<lparr>tc_policy = p, tc_cap = n, tc_guarded = True, tc_exact = True\<rparr>"

lemma chan_sim_one:
  "tstep (chan_cfg n p) (chan_abs s) u \<Longrightarrow> u = chan_abs s' \<Longrightarrow> (tstep (chan_cfg n p))\<^sup>*\<^sup>* (chan_abs s) (chan_abs s')"
  by auto

lemma chan_sim_send:
  assumes inv: "chan_data_inv n p s" and i: "i < length (cs_threads s)"
    and c: "sending (cs_threads s ! i) = Some c"
    and pc': "chan_try (cs_threads s ! i) (fst (chan_send c (cs_t s))) = Some pc'"
  shows "(tstep (chan_cfg n p))\<^sup>*\<^sup>* (chan_abs s) (chan_abs (after_send i c pc' (chan_send c (cs_t s)) s))"
  using send_cases [OF c pc']
proof (elim disjE)
  assume "\<not> ct_chclosed (cs_t s) \<and> length (ct_ch (cs_t s)) < ct_cap (cs_t s) \<and> pc' = ChIdle \<and>
    chan_send c (cs_t s) = (Sent, (cs_t s)\<lparr>ct_ch := ct_ch (cs_t s) @ [c]\<rparr>)"
  then show ?thesis using inv
    by (intro chan_sim_one [OF t_offer [of "chan_abs s" _ c]])
      (simp_all add: chan_abs_def chan_cfg_def chan_data_inv_def after_send_def)
next
  assume full: "\<not> ct_chclosed (cs_t s) \<and> \<not> length (ct_ch (cs_t s)) < ct_cap (cs_t s) \<and>
    chan_send c (cs_t s) = (SendFull, cs_t s) \<and>
    (cs_threads s ! i = ChTryNewest c \<and> pc' = ChCountNewest \<or>
     cs_threads s ! i = ChTryOldest c \<and> pc' = ChEvict c)"
  show ?thesis
  proof (cases "pc' = ChCountNewest")
    case True
    then have "p = DropNewest" using full pc_policy_at [OF inv i] by auto
    with True full show ?thesis using inv
      by (intro chan_sim_one [OF t_reject [of _ "chan_abs s" c]])
        (auto simp: chan_abs_def chan_cfg_def chan_data_inv_def after_send_def)
  qed (use full in \<open>simp add: chan_abs_def after_send_def\<close>)
qed (simp add: chan_abs_def after_send_def)

lemma chan_sim_evict:
  assumes "p = DropOldest"
  shows "(tstep (chan_cfg n p))\<^sup>*\<^sup>* (chan_abs s) (chan_abs (after_evict i c (chan_recv (cs_t s)) s))"
proof (cases "ct_ch (cs_t s)")
  case Nil
  show ?thesis
  proof (cases "ct_chclosed (cs_t s)")
    case True
    with Nil assms show ?thesis
      by (intro chan_sim_one [OF t_miscount [of _ "chan_abs s"]])
        (simp_all add: chan_abs_def chan_cfg_def after_evict_def chan_recv_def)
  qed (use Nil in \<open>simp add: chan_abs_def after_evict_def chan_recv_def\<close>)
next
  case (Cons y ys)
  with assms show ?thesis
    by (intro chan_sim_one [OF t_evict [of _ "chan_abs s" y ys]])
      (simp_all add: chan_abs_def chan_cfg_def after_evict_def chan_recv_def)
qed

lemma chan_step_sim:
  assumes "chan_inv n p s" "chan_step s s'"
  shows "(tstep (chan_cfg n p))\<^sup>*\<^sup>* (chan_abs s) (chan_abs s')"
  using assms(2)
proof (cases rule: chan_step.cases)
  have inv: "chan_data_inv n p s" using assms(1) by (simp add: chan_inv_def)
  case (cs_send i c pc')
  show ?thesis unfolding cs_send(1) by (rule chan_sim_send [OF inv cs_send(2-4)])
next
  have inv: "chan_data_inv n p s" using assms(1) by (simp add: chan_inv_def)
  case (cs_evict i c)
  then have "p = DropOldest" using pc_policy_at [OF inv cs_evict(2)] by simp
  then show ?thesis unfolding cs_evict(1) by (rule chan_sim_evict)
next
  case (cs_recv x t)
  then show ?thesis
    by (intro chan_sim_one [OF t_take [of "chan_abs s" x "ct_ch t"]])
      (auto simp: chan_abs_def chan_recv_def split: list.splits if_splits)
next
  case (cs_range_end t)
  then show ?thesis
    by (intro chan_sim_one [OF t_exit [of "chan_abs s"]])
      (auto simp: chan_abs_def chan_recv_def split: list.splits if_splits)
next
  case (cs_emit x)
  then show ?thesis by (intro chan_sim_one [OF t_emit [of "chan_abs s" x]]) (simp_all add: chan_abs_def)
next
  case (cs_close_first i)
  then show ?thesis by (intro chan_sim_one [OF t_close [of _ "chan_abs s"]]) (simp_all add: chan_abs_def)
qed (simp_all add: chan_abs_def chan_count_def)

text \<open>The channel transport provides the same contract as the ring.\<close>

interpretation chan: transport "chan_cfg (chan_capacity capacity) p" "\<lambda>s. \<exists>n. s = chan_start capacity p n"
  chan_step "chan_inv (chan_capacity capacity) p" chan_abs
proof unfold_locales
  show "chan_abs s = t_init" if "\<exists>n. s = chan_start capacity p n" for s
    using that by (auto simp: chan_abs_def t_init_def chan_start_def NewChannelTransport_def)
qed (auto intro: chan_inv_start chan_inv_step chan_step_sim)

section \<open>Concrete runs\<close>

definition chan_at :: "Record list \<Rightarrow> bool \<Rightarrow> OverflowPolicy \<Rightarrow> once_state \<Rightarrow> chan_worker \<Rightarrow> chan_pc list \<Rightarrow>
    sink_call list \<Rightarrow> Record list \<Rightarrow> Record list \<Rightarrow> chan_sys" where
  "chan_at ch closed p once w th calls off lost =
     \<lparr>cs_t = \<lparr>ct_ch = ch, ct_cap = 1, ct_chclosed = closed, ct_policy = p, ct_dropped = 0, ct_once = once\<rparr>,
      cs_worker = w, cs_threads = th, cs_calls = calls, cs_offered = off, cs_lost = lost, cs_miscounts = 0\<rparr>"

abbreviation chan_a :: Record where
  "chan_a \<equiv> Clone (zeroRecord\<lparr>rMessage := ''a''\<rparr>)"

abbreviation chan_b :: Record where
  "chan_b \<equiv> Clone (zeroRecord\<lparr>rMessage := ''b''\<rparr>)"

lemmas chan_run_defs = chan_at_def chan_start_def NewChannelTransport_def chan_capacity_def
  chan_Dispatch_entry_def chan_send_def after_send_def chan_recv_def

text \<open>The first thread stores a record; the second is at its send, on the full channel.\<close>

definition chan_full :: "OverflowPolicy \<Rightarrow> chan_sys" where
  "chan_full p = chan_at [chan_a] False p NotRun ChRange [ChIdle, chan_Dispatch_entry p chan_b] [] [chan_a] []"

lemma chan_full_reach: "chan_step\<^sup>*\<^sup>* (chan_start 1 p 2) (chan_full p)"
proof -
  let ?s1 = "chan_at [] False p NotRun ChRange [chan_Dispatch_entry p chan_a, ChIdle] [] [] []"
  let ?s2 = "chan_at [chan_a] False p NotRun ChRange [ChIdle, ChIdle] [] [chan_a] []"
  have "chan_step (chan_start 1 p 2) ?s1"
    using cs_dispatch [of 0 "chan_start 1 p 2" "zeroRecord\<lparr>rMessage := ''a''\<rparr>"]
    by (simp add: chan_run_defs numeral_2_eq_2)
  moreover have "chan_step ?s1 ?s2"
    using cs_send [of 0 ?s1 chan_a ChIdle] by (cases p) (simp_all add: chan_run_defs)
  moreover have "chan_step ?s2 (chan_full p)"
    using cs_dispatch [of 1 ?s2 "zeroRecord\<lparr>rMessage := ''b''\<rparr>"]
    by (simp add: chan_run_defs chan_full_def)
  ultimately show ?thesis by (meson rtranclp.rtrancl_into_rtrancl rtranclp.rtrancl_refl)
qed

text \<open>Under \<open>DropNewest\<close> the second record is rejected; under \<open>Block\<close> the channel is closed.\<close>

definition chan_rejected :: chan_sys where
  "chan_rejected = chan_at [chan_a] False DropNewest NotRun ChRange [ChIdle, ChCountNewest] []
     [chan_a, chan_b] [chan_b]"

definition chan_closing :: chan_sys where
  "chan_closing = chan_at [chan_a] True Block Running ChRange [ChAwaitDone, ChSend chan_b] [] [chan_a] []"

definition chan_closed :: chan_sys where
  "chan_closed = chan_at [] True Block Finished ChDone [ChIdle, ChSend chan_b]
     [SinkEmit chan_a, SinkSync, SinkClose] [chan_a] []"

lemma chan_rejected_reach: "chan_step\<^sup>*\<^sup>* (chan_start 1 DropNewest 2) chan_rejected"
proof -
  have "chan_step (chan_full DropNewest) chan_rejected"
    using cs_send [of 1 "chan_full DropNewest" chan_b ChCountNewest]
    by (simp add: chan_run_defs chan_full_def chan_rejected_def)
  with chan_full_reach show ?thesis by (rule rtranclp.rtrancl_into_rtrancl)
qed

lemma chan_closing_reach: "chan_step\<^sup>*\<^sup>* (chan_start 1 Block 2) chan_closing"
proof -
  have "chan_step (chan_full Block) chan_closing"
    using cs_close_first [of 0 "chan_full Block"] by (simp add: chan_run_defs chan_full_def chan_closing_def)
  with chan_full_reach show ?thesis by (rule rtranclp.rtrancl_into_rtrancl)
qed

lemma chan_closed_reach: "chan_step\<^sup>*\<^sup>* (chan_start 1 Block 2) chan_closed"
proof -
  let ?s = "\<lambda>ch once w pc calls. chan_at ch True Block once w [pc, ChSend chan_b] calls [chan_a] []"
  let ?e = "[SinkEmit chan_a]"
  have "chan_step chan_closing (?s [] Running (ChEmit chan_a) ChAwaitDone [])"
    using cs_recv [of chan_closing chan_a] by (simp add: chan_run_defs chan_closing_def)
  moreover have "chan_step (?s [] Running (ChEmit chan_a) ChAwaitDone []) (?s [] Running ChRange ChAwaitDone ?e)"
    using cs_emit [of "?s [] Running (ChEmit chan_a) ChAwaitDone []"] by (simp add: chan_run_defs)
  moreover have "chan_step (?s [] Running ChRange ChAwaitDone ?e) (?s [] Running ChDone ChAwaitDone ?e)"
    using cs_range_end [of "?s [] Running ChRange ChAwaitDone ?e"] by (simp add: chan_run_defs)
  moreover have "chan_step (?s [] Running ChDone ChAwaitDone ?e) (?s [] Finished ChDone ChSyncSink ?e)"
    using cs_close_done [of 0 "?s [] Running ChDone ChAwaitDone ?e"] by (simp add: chan_run_defs)
  moreover have "chan_step (?s [] Finished ChDone ChSyncSink ?e)
      (?s [] Finished ChDone ChCloseSink (?e @ [SinkSync]))"
    using cs_close_sync [of 0 "?s [] Finished ChDone ChSyncSink ?e"] by (simp add: chan_run_defs)
  moreover have "chan_step (?s [] Finished ChDone ChCloseSink (?e @ [SinkSync])) chan_closed"
    using cs_close_sink [of 0 "?s [] Finished ChDone ChCloseSink (?e @ [SinkSync])"]
    by (simp add: chan_run_defs chan_closed_def)
  ultimately show ?thesis
    using chan_closing_reach by (meson rtranclp.rtrancl_into_rtrancl)
qed

section \<open>Properties\<close>

text \<open>
  C35: Accounting and order of the channel transport, over all interleavings: every record that was
  sent or rejected is exactly once lost or on its way, those on their way keep the order, the
  channel stays within its capacity, and until \<open>Close\<close> the counter \<open>Dropped\<close> plus the pending
  increments is the number of losses.
\<close>

theorem chan_accounting:
  assumes "chan_step\<^sup>*\<^sup>* (chan_start capacity p n) s"
  shows "mset (cs_offered s) = mset (t_path (chan_abs s)) + mset (cs_lost s)
    \<and> subseq (t_path (chan_abs s)) (cs_offered s)
    \<and> length (ct_ch (cs_t s)) \<le> chan_capacity capacity
    \<and> (\<not> ct_chclosed (cs_t s) \<longrightarrow>
         ct_dropped (cs_t s) + of_nat (cnt isChCounting (cs_threads s)) = of_nat (length (cs_lost s)))"
proof -
  have "chan_inv (chan_capacity capacity) p s" using chan.reach_inv assms by blast
  then have "\<not> ct_chclosed (cs_t s) \<longrightarrow>
      ct_dropped (cs_t s) + of_nat (cnt isChCounting (cs_threads s)) = of_nat (length (cs_lost s))"
    and "length (ct_ch (cs_t s)) \<le> chan_capacity capacity"
    by (auto simp: chan_inv_def chan_data_inv_def)
  moreover have "\<exists>m. chan_start capacity p n = chan_start capacity p m" by blast
  ultimately show ?thesis
    using chan.conservation(1,2) [OF _ assms, of capacity p] by simp
qed

theorem chan_accounting_witness:
  "chan_step\<^sup>*\<^sup>* (chan_start 1 DropNewest 2) chan_rejected \<and> cs_lost chan_rejected = [chan_b]
   \<and> ct_dropped (cs_t chan_rejected) + of_nat (cnt isChCounting (cs_threads chan_rejected)) = of_nat 1"
proof -
  have "cs_lost chan_rejected = [chan_b]" "\<not> ct_chclosed (cs_t chan_rejected)"
    by (simp_all add: chan_rejected_def chan_at_def)
  then show ?thesis using chan_accounting [OF chan_rejected_reach] chan_rejected_reach by simp
qed

text \<open>
  Under \<open>Block\<close> the channel transport loses nothing that was sent: delivered, held and queued
  records are the sent ones in order. After \<open>Close\<close> the sink receives no record, and when it has
  been closed every record sent was delivered.
\<close>

lemma chan_block_lossless:
  assumes "chan_step\<^sup>*\<^sup>* (chan_start capacity Block n) s"
  shows "t_path (chan_abs s) = cs_offered s \<and> cs_lost s = [] \<and> no_emit_after_close (cs_calls s)
    \<and> (SinkClose \<in> set (cs_calls s) \<longrightarrow> emitted (cs_calls s) = cs_offered s)"
proof -
  have inv: "chan_inv (chan_capacity capacity) Block s" using chan.reach_inv assms by blast
  have path: "t_path (chan_abs s) = t_offered (chan_abs s)" "t_dropped (chan_abs s) = 0"
    using chan.lossless [OF _ assms, of capacity Block] by (auto simp: chan_cfg_def)
  have "emitted (cs_calls s) = t_path (chan_abs s)" if "SinkClose \<in> set (cs_calls s)"
    using inv that by (simp add: chan_inv_def chan_close_inv_def chan_data_inv_def t_path_def chan_abs_def)
  with path inv show ?thesis
    by (simp add: chan_inv_def chan_close_inv_def)
qed

theorem chan_block_lossless_witness:
  "SinkClose \<in> set (cs_calls chan_closed) \<and> emitted (cs_calls chan_closed) = [chan_a]"
proof -
  have "SinkClose \<in> set (cs_calls chan_closed)" "cs_offered chan_closed = [chan_a]"
    by (simp_all add: chan_closed_def chan_at_def)
  then show ?thesis using chan_block_lossless [OF chan_closed_reach] by simp
qed

section \<open>After Close\<close>

text \<open>A call of \<open>Dispatch\<close> that has not settled what becomes of its record.\<close>

fun undecided :: "chan_pc \<Rightarrow> bool" where
  "undecided (ChEvict c) = True"
| "undecided (ChCountOldest c) = True"
| "undecided pc = (sending pc \<noteq> None)"

lemma undecided_entry: "undecided (chan_Dispatch_entry p c)"
  by (cases p) (simp_all add: chan_Dispatch_entry_def)

lemma sending_undecided: "sending pc = Some c \<Longrightarrow> undecided pc"
  by (cases pc) simp_all

text \<open>What a step can change once the channel is closed.\<close>

definition after_close :: "OverflowPolicy \<Rightarrow> chan_sys \<Rightarrow> chan_sys \<Rightarrow> bool" where
  "after_close p s s' \<longleftrightarrow>
     ct_chclosed (cs_t s') \<and> cs_offered s' = cs_offered s \<and> (p \<noteq> DropOldest \<longrightarrow> cs_lost s' = cs_lost s)
     \<and> length (cs_threads s') = length (cs_threads s)
     \<and> (\<forall>i < length (cs_threads s). undecided (cs_threads s ! i) \<or> cs_threads s ! i = ChPanicked
          \<longrightarrow> undecided (cs_threads s' ! i) \<or> cs_threads s' ! i = ChPanicked)"

lemma after_close_step:
  assumes "chan_step s s'" "chan_data_inv n p s" "ct_chclosed (cs_t s)"
  shows "after_close p s s'"
  using assms(1)
proof (cases rule: chan_step.cases)
  case (cs_send i c pc')
  then show ?thesis using send_cases [OF cs_send(3,4)] assms(3)
    by (auto simp: after_close_def after_send_def nth_list_update)
next
  case (cs_evict i c)
  then have "p = DropOldest" using pc_policy_at [OF assms(2)] by fastforce
  then show ?thesis using cs_evict assms(3)
    by (cases "ct_ch (cs_t s)") (auto simp: after_close_def after_evict_def chan_recv_def nth_list_update)
qed (use assms(3) in \<open>auto simp: after_close_def chan_recv_def chan_count_def nth_list_update
    split: list.splits if_splits\<close>)

lemma after_close_trans: "after_close p s t \<Longrightarrow> after_close p t u \<Longrightarrow> after_close p s u"
  by (auto simp: after_close_def)

lemma after_close_run:
  assumes "chan_step\<^sup>*\<^sup>* s s'" "chan_inv n p s" "ct_chclosed (cs_t s)"
  shows "after_close p s s' \<and> chan_inv n p s'"
  using assms
proof (induction rule: rtranclp_induct)
  case base
  then show ?case by (simp add: after_close_def)
next
  case (step t u)
  then have "after_close p s t" "chan_inv n p t" by simp_all
  moreover from this have "after_close p t u"
    using after_close_step [OF step(2)] by (auto simp: chan_inv_def after_close_def)
  ultimately show ?case using after_close_trans chan_inv_step step(2) by blast
qed

text \<open>The goroutine of such a call, run on its own, panics.\<close>

lemma panic_send:
  assumes "i < length (cs_threads s)" "sending (cs_threads s ! i) = Some c" "ct_chclosed (cs_t s)"
  shows "\<exists>s'. chan_step\<^sup>*\<^sup>* s s' \<and> cs_threads s' = (cs_threads s)[i := ChPanicked]"
proof -
  have "chan_send c (cs_t s) = (SendPanic, cs_t s)" using assms(3) by (simp add: chan_send_def)
  moreover have "chan_try (cs_threads s ! i) SendPanic = Some ChPanicked"
    using assms(2) by (cases "cs_threads s ! i") simp_all
  ultimately show ?thesis
    using cs_send [OF assms(1,2), of ChPanicked] by (auto simp: after_send_def)
qed

lemma panic_count:
  assumes "i < length (cs_threads s)" "cs_threads s ! i = ChCountOldest c" "ct_chclosed (cs_t s)"
  shows "\<exists>s'. chan_step\<^sup>*\<^sup>* s s' \<and> cs_threads s' = (cs_threads s)[i := ChPanicked]"
proof -
  let ?s1 = "(chan_count s)\<lparr>cs_threads := (cs_threads s)[i := ChTryOldest c]\<rparr>"
  have "\<exists>s'. chan_step\<^sup>*\<^sup>* ?s1 s' \<and> cs_threads s' = (cs_threads ?s1)[i := ChPanicked]"
    using assms by (intro panic_send [where c = c]) (simp_all add: chan_count_def)
  then show ?thesis
    using cs_count_oldest [OF assms(1,2)] by (auto intro: converse_rtranclp_into_rtranclp)
qed

lemma panic_run:
  assumes "i < length (cs_threads s)" "undecided (cs_threads s ! i)" "ct_chclosed (cs_t s)"
  shows "\<exists>s'. chan_step\<^sup>*\<^sup>* s s' \<and> cs_threads s' = (cs_threads s)[i := ChPanicked]"
proof (cases "cs_threads s ! i")
  case (ChEvict c)
  let ?s1 = "after_evict i c (chan_recv (cs_t s)) s"
  have s1: "cs_threads ?s1 = (cs_threads s)[i := ChCountOldest c]" "ct_chclosed (cs_t ?s1)"
    using assms(3) by (cases "ct_ch (cs_t s)"; simp add: after_evict_def chan_recv_def)+
  have "\<exists>s'. chan_step\<^sup>*\<^sup>* ?s1 s' \<and> cs_threads s' = (cs_threads ?s1)[i := ChPanicked]"
    using assms(1) by (intro panic_count [where c = c]) (simp_all add: s1)
  then show ?thesis
    using cs_evict [OF assms(1) ChEvict] s1(1) by (auto intro: converse_rtranclp_into_rtranclp)
qed (use assms panic_send panic_count in auto)

text \<open>The worker, run on its own, empties the closed channel and ends.\<close>

lemma chan_drain:
  assumes "ct_chclosed (cs_t s)" "cs_worker s = ChRange"
  shows "\<exists>s'. chan_step\<^sup>*\<^sup>* s s' \<and> cs_worker s' = ChDone \<and> cs_threads s' = cs_threads s \<and> cs_lost s' = cs_lost s"
  using assms
proof (induction "ct_ch (cs_t s)" arbitrary: s)
  case Nil
  then have "chan_step s (s\<lparr>cs_worker := ChDone\<rparr>)" by (intro cs_range_end) (simp_all add: chan_recv_def)
  then show ?case by (intro exI [of _ "s\<lparr>cs_worker := ChDone\<rparr>"]) auto
next
  case (Cons x xs)
  let ?s1 = "s\<lparr>cs_t := (cs_t s)\<lparr>ct_ch := xs\<rparr>, cs_worker := ChEmit x\<rparr>"
  let ?s2 = "?s1\<lparr>cs_worker := ChRange, cs_calls := cs_calls ?s1 @ [SinkEmit x]\<rparr>"
  have "chan_step s ?s1" using Cons(2,4) by (intro cs_recv) (simp_all add: chan_recv_def flip: Cons(2))
  moreover have "chan_step ?s1 ?s2" by (rule cs_emit) simp
  moreover have "\<exists>s'. chan_step\<^sup>*\<^sup>* ?s2 s' \<and> cs_worker s' = ChDone \<and> cs_threads s' = cs_threads ?s2 \<and> cs_lost s' = cs_lost ?s2"
    using Cons(3) by (intro Cons(1)) simp_all
  ultimately show ?case by (auto intro: converse_rtranclp_into_rtranclp)
qed

lemma chan_drain_any:
  assumes "ct_chclosed (cs_t s)"
  shows "\<exists>s'. chan_step\<^sup>*\<^sup>* s s' \<and> cs_worker s' = ChDone \<and> cs_threads s' = cs_threads s \<and> cs_lost s' = cs_lost s"
proof (cases "cs_worker s")
  case (ChEmit x)
  have "\<exists>s'. chan_step\<^sup>*\<^sup>* (s\<lparr>cs_worker := ChRange, cs_calls := cs_calls s @ [SinkEmit x]\<rparr>) s'
      \<and> cs_worker s' = ChDone \<and> cs_threads s' = cs_threads s \<and> cs_lost s' = cs_lost s"
    using chan_drain [of "s\<lparr>cs_worker := ChRange, cs_calls := cs_calls s @ [SinkEmit x]\<rparr>"] assms by simp
  then show ?thesis using cs_emit [OF ChEmit] by (auto intro: converse_rtranclp_into_rtranclp)
qed (use assms chan_drain in auto)

text \<open>
  C36: What \<open>Close\<close> does to the calls around it, under every policy and interleaving. No producer
  panics before \<open>Close\<close> was called. Once it was called: no record is accepted any more, and except under
  \<open>DropOldest\<close> none is lost any more; no call of \<open>Dispatch\<close> that is under way without having
  settled its record, or that is made later, ever returns: it stays in \<open>Dispatch\<close> until it
  panics, and each can take the panic with its own steps alone, a producer blocked on the full
  channel included; and the worker can always finish, after which exactly the records accepted before
  \<open>Close\<close> and not lost have been delivered.
\<close>

theorem chan_close_panics:
  assumes "chan_step\<^sup>*\<^sup>* (chan_start capacity p n) s" "chan_step\<^sup>*\<^sup>* s s'"
  shows "(ChPanicked \<in> set (cs_threads s) \<longrightarrow> ct_once (cs_t s) \<noteq> NotRun)
    \<and> (ct_once (cs_t s) \<noteq> NotRun \<longrightarrow>
        cs_offered s' = cs_offered s \<and> (p \<noteq> DropOldest \<longrightarrow> cs_lost s' = cs_lost s)
        \<and> (\<forall>i < length (cs_threads s). undecided (cs_threads s ! i)
             \<longrightarrow> undecided (cs_threads s' ! i) \<or> cs_threads s' ! i = ChPanicked)
        \<and> (\<forall>i < length (cs_threads s). \<forall>r. cs_threads s ! i = ChIdle \<longrightarrow>
             (\<exists>u v. chan_step s u \<and> cs_threads u = (cs_threads s)[i := chan_Dispatch_entry p (Clone r)]
                \<and> undecided (cs_threads u ! i) \<and> chan_step\<^sup>*\<^sup>* u v \<and> cs_threads v = (cs_threads s)[i := ChPanicked]))
        \<and> (\<forall>i < length (cs_threads s'). undecided (cs_threads s' ! i)
             \<longrightarrow> (\<exists>u. chan_step\<^sup>*\<^sup>* s' u \<and> cs_threads u = (cs_threads s')[i := ChPanicked]))
        \<and> (\<exists>u. chan_step\<^sup>*\<^sup>* s' u \<and> cs_worker u = ChDone \<and> cs_threads u = cs_threads s' \<and> cs_lost u = cs_lost s'
             \<and> mset (cs_offered s) = mset (emitted (cs_calls u)) + mset (cs_lost u)))"
proof -
  let ?n = "chan_capacity capacity"
  have inv: "chan_inv ?n p s" using chan.reach_inv assms(1) by blast
  have once: "ct_chclosed (cs_t s) \<longleftrightarrow> ct_once (cs_t s) \<noteq> NotRun" and pol: "ct_policy (cs_t s) = p"
    using inv by (auto simp: chan_inv_def chan_close_inv_def chan_data_inv_def)
  have "ct_chclosed (cs_t s)" if "ChPanicked \<in> set (cs_threads s)"
  proof -
    obtain i where "i < length (cs_threads s)" "cs_threads s ! i = ChPanicked" using \<open>ChPanicked \<in> set (cs_threads s)\<close> by (auto simp: in_set_conv_nth)
    then have "0 < cnt (\<lambda>pc. pc = ChPanicked) (cs_threads s)" by (auto intro: cnt_pos)
    then show ?thesis using inv by (auto simp: chan_inv_def chan_data_inv_def)
  qed
  note before = this
  show ?thesis
  proof (intro conjI impI)
    show "ct_once (cs_t s) \<noteq> NotRun" if "ChPanicked \<in> set (cs_threads s)" using before that once by blast
    assume "ct_once (cs_t s) \<noteq> NotRun"
    then have closed: "ct_chclosed (cs_t s)" using once by simp
    have run: "after_close p s s'" "chan_inv ?n p s'" using after_close_run [OF assms(2) inv closed] by auto
    then have closed': "ct_chclosed (cs_t s')" by (simp add: after_close_def)
    show off: "cs_offered s' = cs_offered s" using run(1) by (simp add: after_close_def)
    show "cs_lost s' = cs_lost s" if "p \<noteq> DropOldest" using run(1) that by (simp add: after_close_def)
    show "\<forall>i < length (cs_threads s). undecided (cs_threads s ! i)
        \<longrightarrow> undecided (cs_threads s' ! i) \<or> cs_threads s' ! i = ChPanicked"
      using run(1) by (simp add: after_close_def)
    show "\<forall>i < length (cs_threads s'). undecided (cs_threads s' ! i)
        \<longrightarrow> (\<exists>u. chan_step\<^sup>*\<^sup>* s' u \<and> cs_threads u = (cs_threads s')[i := ChPanicked])"
      using panic_run closed' by blast
    show "\<forall>i < length (cs_threads s). \<forall>r. cs_threads s ! i = ChIdle \<longrightarrow>
        (\<exists>u v. chan_step s u \<and> cs_threads u = (cs_threads s)[i := chan_Dispatch_entry p (Clone r)]
           \<and> undecided (cs_threads u ! i) \<and> chan_step\<^sup>*\<^sup>* u v \<and> cs_threads v = (cs_threads s)[i := ChPanicked])"
    proof (intro allI impI)
      fix i r assume i: "i < length (cs_threads s)" "cs_threads s ! i = ChIdle"
      let ?u = "s\<lparr>cs_threads := (cs_threads s)[i := chan_Dispatch_entry p (Clone r)]\<rparr>"
      have "chan_step s ?u" using cs_dispatch [OF i, of r] pol by simp
      moreover have "undecided (cs_threads ?u ! i)" using i(1) by (simp add: undecided_entry)
      moreover obtain v where "chan_step\<^sup>*\<^sup>* ?u v" "cs_threads v = (cs_threads s)[i := ChPanicked]"
        using panic_run [of i ?u] i(1) closed by (auto simp: undecided_entry)
      ultimately show "\<exists>u v. chan_step s u \<and> cs_threads u = (cs_threads s)[i := chan_Dispatch_entry p (Clone r)]
           \<and> undecided (cs_threads u ! i) \<and> chan_step\<^sup>*\<^sup>* u v \<and> cs_threads v = (cs_threads s)[i := ChPanicked]"
        by (intro exI [of _ ?u] exI [of _ v]) simp
    qed
    obtain u where u: "chan_step\<^sup>*\<^sup>* s' u" "cs_worker u = ChDone" "cs_threads u = cs_threads s'" "cs_lost u = cs_lost s'"
      using chan_drain_any [OF closed'] by blast
    have reach: "chan_step\<^sup>*\<^sup>* (chan_start capacity p n) u" using assms u(1) by (meson rtranclp_trans)
    have "after_close p s' u" "chan_inv ?n p u" using after_close_run [OF u(1) run(2) closed'] by auto
    then have "cs_offered u = cs_offered s" "t_path (chan_abs u) = emitted (cs_calls u)"
      using u(2) off by (auto simp: after_close_def chan_inv_def chan_data_inv_def t_path_def chan_abs_def)
    moreover have "mset (cs_offered u) = mset (t_path (chan_abs u)) + mset (cs_lost u)"
      using chan.conservation(1) [OF _ reach, of capacity p] by auto
    ultimately show "\<exists>u. chan_step\<^sup>*\<^sup>* s' u \<and> cs_worker u = ChDone \<and> cs_threads u = cs_threads s' \<and> cs_lost u = cs_lost s'
        \<and> mset (cs_offered s) = mset (emitted (cs_calls u)) + mset (cs_lost u)"
      using u by auto
  qed
qed

text \<open>
  The second thread is blocked on the full channel when the first calls \<open>Close\<close>: it can only
  panic, its record is not accepted, and the record stored before is delivered.
\<close>

theorem chan_close_panics_witness:
  "chan_step\<^sup>*\<^sup>* (chan_start 1 Block 2) chan_closing
   \<and> cs_threads chan_closing = [ChAwaitDone, ChSend chan_b]
   \<and> (\<exists>u. chan_step\<^sup>*\<^sup>* chan_closing u \<and> cs_threads u = [ChAwaitDone, ChPanicked])
   \<and> (\<exists>u. chan_step\<^sup>*\<^sup>* chan_closing u \<and> cs_worker u = ChDone \<and> mset (emitted (cs_calls u)) = {#chan_a#})"
proof -
  have th: "cs_threads chan_closing = [ChAwaitDone, ChSend chan_b]" "ct_once (cs_t chan_closing) \<noteq> NotRun"
    "cs_offered chan_closing = [chan_a]" "cs_lost chan_closing = []"
    by (simp_all add: chan_closing_def chan_at_def)
  note main = chan_close_panics [OF chan_closing_reach rtranclp.rtrancl_refl, THEN conjunct2, rule_format, OF th(2)]
  have "1 < length (cs_threads chan_closing)" "undecided (cs_threads chan_closing ! 1)" by (simp_all add: th(1))
  with main obtain u where u: "chan_step\<^sup>*\<^sup>* chan_closing u" "cs_threads u = (cs_threads chan_closing)[1 := ChPanicked]"
    by blast
  from main obtain v where v: "chan_step\<^sup>*\<^sup>* chan_closing v" "cs_worker v = ChDone" "cs_lost v = cs_lost chan_closing"
    "mset (cs_offered chan_closing) = mset (emitted (cs_calls v)) + mset (cs_lost v)" by blast
  have "cs_threads u = [ChAwaitDone, ChPanicked]" using u(2) by (simp add: th(1))
  moreover have "mset (emitted (cs_calls v)) = {#chan_a#}" using v(3,4) by (simp add: th(3,4))
  ultimately show ?thesis using chan_closing_reach th(1) u(1) v(1,2) by blast
qed

end
