(* ===== verification/MPMC_Queue.thy ===== *)
theory MPMC_Queue
  imports Prelude
begin

unbundle bit_operations_syntax

text \<open>
  The lock-free bounded queue of \<open>transport_disruptor.go\<close> (\<open>mpmc\<close>), at the granularity of its
  memory accesses: every atomic load, store and compare-and-swap and every access to a cell's
  value is a step of its own, so any number of enqueuing and dequeuing goroutines interleave
  in all ways. The invariant relates the cells to a history of claimed positions; from it
  follow that the queue is first-in first-out with every element taken once, that no two
  goroutines ever access the value of one cell at the same time, and when \<open>enqueue\<close> and
  \<open>dequeue\<close> may report full and empty.
\<close>

section \<open>The queue\<close>

record 'a cell =
  cl_seq :: u64
  cl_val :: "'a option"

record 'a mpmc =
  q_buf :: "'a cell list"
  q_mask :: u64
  q_enq :: u64
  q_deq :: u64

text \<open>The rounding loop works on a 64-bit signed \<open>int\<close>; \<open>None\<close> is a loop that does not end.\<close>

partial_function (option) round_up :: "u64 \<Rightarrow> u64 \<Rightarrow> u64 option" where
  "round_up sz n = (if sint n < sint sz then round_up sz (push_bit 1 n) else Some n)"

definition newMPMC :: "u64 \<Rightarrow> 'a mpmc option" where
  "newMPMC sz =
     (case round_up sz 2 of
        None \<Rightarrow> None
      | Some n \<Rightarrow>
          Some \<lparr>q_buf = map (\<lambda>i. \<lparr>cl_seq = of_nat i, cl_val = None\<rparr>) [0..<unat n],
                q_mask = n - 1, q_enq = 0, q_deq = 0\<rparr>)"

section \<open>The operations, access by access\<close>

text \<open>
  Program counters, with the local \<open>pos\<close> (and \<open>v\<close> in \<open>dequeue\<close>): before the load of the cursor,
  the load of the cell's sequence number, the compare-and-swap, the accesses to the cell's
  value, and the store of the new sequence number. A failed compare-and-swap goes round the
  loop with the same \<open>pos\<close>.
\<close>

datatype enq_pc = ELoad | ESeq u64 | ECas u64 | EVal u64 | EPub u64

datatype 'a deq_pc = DLoad | DSeq u64 | DCas u64 | DVal u64 | DNil u64 "'a option" | DPub u64 "'a option"

definition cell_at :: "'a mpmc \<Rightarrow> u64 \<Rightarrow> 'a cell" where
  "cell_at q pos = q_buf q ! unat (pos AND q_mask q)"

definition set_cell :: "u64 \<Rightarrow> ('a cell \<Rightarrow> 'a cell) \<Rightarrow> 'a mpmc \<Rightarrow> 'a mpmc" where
  "set_cell pos f q = q\<lparr>q_buf := (q_buf q)[unat (pos AND q_mask q) := f (cell_at q pos)]\<rparr>"

text \<open>\<open>Inl\<close>: the next program counter; \<open>Inr\<close>: the result returned. \<open>dif\<close> is a wrapping \<open>int64\<close>.\<close>

fun enqueue :: "'a \<Rightarrow> enq_pc \<Rightarrow> 'a mpmc \<Rightarrow> (enq_pc + bool) \<times> 'a mpmc" where
  "enqueue v ELoad q = (Inl (ESeq (q_enq q)), q)"
| "enqueue v (ESeq pos) q =
     (let dif = sint (cl_seq (cell_at q pos) - pos)
      in if dif = 0 then (Inl (ECas pos), q)
         else if dif < 0 then (Inr False, q)
         else (Inl ELoad, q))"
| "enqueue v (ECas pos) q =
     (if q_enq q = pos then (Inl (EVal pos), q\<lparr>q_enq := pos + 1\<rparr>) else (Inl (ESeq pos), q))"
| "enqueue v (EVal pos) q = (Inl (EPub pos), set_cell pos (\<lambda>c. c\<lparr>cl_val := Some v\<rparr>) q)"
| "enqueue v (EPub pos) q = (Inr True, set_cell pos (\<lambda>c. c\<lparr>cl_seq := pos + 1\<rparr>) q)"

fun dequeue :: "'a deq_pc \<Rightarrow> 'a mpmc \<Rightarrow> ('a deq_pc + ('a option \<times> bool)) \<times> 'a mpmc" where
  "dequeue DLoad q = (Inl (DSeq (q_deq q)), q)"
| "dequeue (DSeq pos) q =
     (let dif = sint (cl_seq (cell_at q pos) - (pos + 1))
      in if dif = 0 then (Inl (DCas pos), q)
         else if dif < 0 then (Inr (None, False), q)
         else (Inl DLoad, q))"
| "dequeue (DCas pos) q =
     (if q_deq q = pos then (Inl (DVal pos), q\<lparr>q_deq := pos + 1\<rparr>) else (Inl (DSeq pos), q))"
| "dequeue (DVal pos) q = (Inl (DNil pos (cl_val (cell_at q pos))), q)"
| "dequeue (DNil pos v) q = (Inl (DPub pos v), set_cell pos (\<lambda>c. c\<lparr>cl_val := None\<rparr>) q)"
| "dequeue (DPub pos v) q = (Inr (v, True), set_cell pos (\<lambda>c. c\<lparr>cl_seq := pos + q_mask q + 1\<rparr>) q)"

section \<open>Arithmetic\<close>

lemma push_pow: "push_bit 1 (2 ^ k :: u64) = 2 ^ Suc k"
  by (simp add: push_bit_eq_mult)

lemma unat_of_small: "k < 2 ^ 64 \<Longrightarrow> unat (of_nat k :: u64) = k"
  by (simp add: unsigned_of_nat take_bit_nat_eq_self)

lemma unat_pow: "k < 64 \<Longrightarrow> unat (2 ^ k :: u64) = 2 ^ k"
  using unat_of_small [of "2 ^ k"] power_strict_increasing [of k 64 "2 :: nat"] by simp

lemma and_mask_mod:
  "unat (pos AND (2 ^ k - 1 :: u64)) = unat pos mod 2 ^ k"
proof -
  have "unat (take_bit k pos) = take_bit k (unat pos)" by (simp only: unsigned_take_bit_eq)
  moreover have "pos AND (2 ^ k - 1) = take_bit k pos" by (simp only: take_bit_eq_mask mask_eq_exp_minus_1)
  ultimately show ?thesis by (simp only: take_bit_eq_mod)
qed

lemma sint_of_small:
  assumes "- (2 ^ 63) \<le> i" "i < 2 ^ 63"
  shows "sint (word_of_int i :: u64) = i"
proof -
  have "sint (word_of_int i :: u64) = signed_take_bit 63 i"
    using sint_sbintrunc' [where 'a = 64, of i] by simp
  also have "\<dots> = i" using assms by (rule signed_take_bit_int_eq_self)
  finally show ?thesis .
qed

lemma unat_bound: "unat (a :: u64) < 2 ^ 63 \<Longrightarrow> int (unat a) < 2 ^ 63 \<and> 0 \<le> int (unat a)"
  by (simp del: of_nat_unat)

lemma sint_small:
  assumes "unat (a :: u64) < 2 ^ 63"
  shows "sint a = int (unat a)"
proof -
  have "sint (word_of_int (int (unat a)) :: u64) = int (unat a)"
    by (rule sint_of_small) (use unat_bound [OF assms] in linarith)+
  then show ?thesis by simp
qed

lemma sint_diff:
  fixes a b :: u64
  assumes "unat a < 2 ^ 63" "unat b < 2 ^ 63"
  shows "sint (a - b) = int (unat a) - int (unat b)"
proof -
  have "a - b = word_of_int (int (unat a) - int (unat b))" by simp
  moreover have "sint (word_of_int (int (unat a) - int (unat b)) :: u64) = int (unat a) - int (unat b)"
    by (rule sint_of_small) (use unat_bound [OF assms(1)] unat_bound [OF assms(2)] in linarith)+
  ultimately show ?thesis by simp
qed

section \<open>The history\<close>

text \<open>
  The history of the queue: the elements in the order in which their positions were claimed,
  the phase each position has reached, and the number of positions taken by dequeues.
  It is updated with the steps of the code and never read by them.
\<close>

datatype phase = Claimed | Written | Published | Taken | Fetched | Cleared | Released

record 'a hist =
  h_items :: "'a list"
  h_phase :: "phase list"
  h_deq :: nat

fun hist_enq :: "'a \<Rightarrow> enq_pc \<Rightarrow> 'a mpmc \<Rightarrow> 'a hist \<Rightarrow> 'a hist" where
  "hist_enq v (ECas pos) q h =
     (if q_enq q = pos then h\<lparr>h_items := h_items h @ [v], h_phase := h_phase h @ [Claimed]\<rparr> else h)"
| "hist_enq v (EVal pos) q h = h\<lparr>h_phase := (h_phase h)[unat pos := Written]\<rparr>"
| "hist_enq v (EPub pos) q h = h\<lparr>h_phase := (h_phase h)[unat pos := Published]\<rparr>"
| "hist_enq v pc q h = h"

fun hist_deq :: "'a deq_pc \<Rightarrow> 'a mpmc \<Rightarrow> 'a hist \<Rightarrow> 'a hist" where
  "hist_deq (DCas pos) q h =
     (if q_deq q = pos then h\<lparr>h_phase := (h_phase h)[unat pos := Taken], h_deq := Suc (h_deq h)\<rparr> else h)"
| "hist_deq (DVal pos) q h = h\<lparr>h_phase := (h_phase h)[unat pos := Fetched]\<rparr>"
| "hist_deq (DNil pos v) q h = h\<lparr>h_phase := (h_phase h)[unat pos := Cleared]\<rparr>"
| "hist_deq (DPub pos v) q h = h\<lparr>h_phase := (h_phase h)[unat pos := Released]\<rparr>"
| "hist_deq pc q h = h"

text \<open>The queue shared by goroutines, each in no operation, in \<open>enqueue\<close> or in \<open>dequeue\<close>.\<close>

datatype 'a op = OpNone | OpEnq 'a enq_pc | OpDeq "'a deq_pc"

record 'a qsys =
  qs_q :: "'a mpmc"
  qs_h :: "'a hist"
  qs_ops :: "'a op list"

fun enq_next :: "'a \<Rightarrow> enq_pc + bool \<Rightarrow> 'a op" where
  "enq_next v (Inl pc) = OpEnq v pc"
| "enq_next v (Inr ok) = OpNone"

fun deq_next :: "'a deq_pc + ('a option \<times> bool) \<Rightarrow> 'a op" where
  "deq_next (Inl pc) = OpDeq pc"
| "deq_next (Inr res) = OpNone"

definition run_enq :: "nat \<Rightarrow> 'a \<Rightarrow> enq_pc \<Rightarrow> 'a qsys \<Rightarrow> 'a qsys" where
  "run_enq i v pc s =
     (let (res, q) = enqueue v pc (qs_q s)
      in \<lparr>qs_q = q, qs_h = hist_enq v pc (qs_q s) (qs_h s), qs_ops = (qs_ops s)[i := enq_next v res]\<rparr>)"

definition run_deq :: "nat \<Rightarrow> 'a deq_pc \<Rightarrow> 'a qsys \<Rightarrow> 'a qsys" where
  "run_deq i pc s =
     (let (res, q) = dequeue pc (qs_q s)
      in \<lparr>qs_q = q, qs_h = hist_deq pc (qs_q s) (qs_h s), qs_ops = (qs_ops s)[i := deq_next res]\<rparr>)"

inductive qstep :: "'a qsys \<Rightarrow> 'a qsys \<Rightarrow> bool" where
  q_begin_enq: "i < length (qs_ops s) \<Longrightarrow> qs_ops s ! i = OpNone \<Longrightarrow>
     qstep s (s\<lparr>qs_ops := (qs_ops s)[i := OpEnq v ELoad]\<rparr>)"
| q_begin_deq: "i < length (qs_ops s) \<Longrightarrow> qs_ops s ! i = OpNone \<Longrightarrow>
     qstep s (s\<lparr>qs_ops := (qs_ops s)[i := OpDeq DLoad]\<rparr>)"
| q_enq: "i < length (qs_ops s) \<Longrightarrow> qs_ops s ! i = OpEnq v pc \<Longrightarrow> qstep s (run_enq i v pc s)"
| q_deq: "i < length (qs_ops s) \<Longrightarrow> qs_ops s ! i = OpDeq pc \<Longrightarrow> qstep s (run_deq i pc s)"

section \<open>The invariant\<close>

fun seq_of :: "nat \<Rightarrow> nat \<Rightarrow> phase \<Rightarrow> nat" where
  "seq_of n p Claimed = p"
| "seq_of n p Written = p"
| "seq_of n p Released = p + n"
| "seq_of n p f = p + 1"

definition cell_ok :: "nat \<Rightarrow> nat \<Rightarrow> 'a \<Rightarrow> phase \<Rightarrow> 'a cell \<Rightarrow> bool" where
  "cell_ok n p x f c \<longleftrightarrow>
     cl_seq c = of_nat (seq_of n p f) \<and> (f \<in> {Written, Published, Taken} \<longrightarrow> cl_val c = Some x)"

definition pre_taken :: "phase \<Rightarrow> bool" where
  "pre_taken f \<longleftrightarrow> f \<in> {Claimed, Written, Published}"

text \<open>What a goroutine in the middle of an operation knows of the history.\<close>

fun op_ok :: "nat \<Rightarrow> 'a hist \<Rightarrow> 'a op \<Rightarrow> bool" where
  "op_ok n h OpNone = True"
| "op_ok n h (OpEnq v ELoad) = True"
| "op_ok n h (OpEnq v (ESeq pos)) = (unat pos \<le> length (h_items h))"
| "op_ok n h (OpEnq v (ECas pos)) =
     (unat pos \<le> length (h_items h) \<and> (n \<le> unat pos \<longrightarrow> h_phase h ! (unat pos - n) = Released))"
| "op_ok n h (OpEnq v (EVal pos)) =
     (unat pos < length (h_items h) \<and> h_items h ! unat pos = v \<and> h_phase h ! unat pos = Claimed)"
| "op_ok n h (OpEnq v (EPub pos)) =
     (unat pos < length (h_items h) \<and> h_items h ! unat pos = v \<and> h_phase h ! unat pos = Written)"
| "op_ok n h (OpDeq DLoad) = True"
| "op_ok n h (OpDeq (DSeq pos)) = (unat pos \<le> h_deq h)"
| "op_ok n h (OpDeq (DCas pos)) =
     (unat pos \<le> h_deq h \<and> unat pos < length (h_items h) \<and> h_phase h ! unat pos \<notin> {Claimed, Written})"
| "op_ok n h (OpDeq (DVal pos)) = (unat pos < length (h_items h) \<and> h_phase h ! unat pos = Taken)"
| "op_ok n h (OpDeq (DNil pos v)) =
     (unat pos < length (h_items h) \<and> h_phase h ! unat pos = Fetched \<and> v = Some (h_items h ! unat pos))"
| "op_ok n h (OpDeq (DPub pos v)) =
     (unat pos < length (h_items h) \<and> h_phase h ! unat pos = Cleared \<and> v = Some (h_items h ! unat pos))"

text \<open>The position an operation has claimed or taken and not yet released.\<close>

fun owned :: "'a op \<Rightarrow> u64 option" where
  "owned (OpEnq v (EVal pos)) = Some pos"
| "owned (OpEnq v (EPub pos)) = Some pos"
| "owned (OpDeq (DVal pos)) = Some pos"
| "owned (OpDeq (DNil pos v)) = Some pos"
| "owned (OpDeq (DPub pos v)) = Some pos"
| "owned _ = None"

definition capacity_ok :: "nat \<Rightarrow> bool" where
  "capacity_ok n \<longleftrightarrow> (\<exists>k. n = 2 ^ k \<and> 0 < k \<and> k \<le> 62)"

definition cells_ok :: "nat \<Rightarrow> 'a mpmc \<Rightarrow> 'a hist \<Rightarrow> bool" where
  "cells_ok n q h \<longleftrightarrow>
     (\<forall>p < length (h_items h). length (h_items h) \<le> p + n \<longrightarrow>
        cell_ok n p (h_items h ! p) (h_phase h ! p) (q_buf q ! (p mod n))) \<and>
     (\<forall>j < n. length (h_items h) \<le> j \<longrightarrow> cl_seq (q_buf q ! j) = of_nat j)"

definition hist_ok :: "nat \<Rightarrow> 'a hist \<Rightarrow> bool" where
  "hist_ok n h \<longleftrightarrow>
     length (h_phase h) = length (h_items h) \<and> h_deq h \<le> length (h_items h) \<and>
     length (h_items h) < 2 ^ 62 \<and>
     (\<forall>p. p + n < length (h_items h) \<longrightarrow> h_phase h ! p = Released) \<and>
     (\<forall>p < length (h_items h). pre_taken (h_phase h ! p) \<longleftrightarrow> h_deq h \<le> p)"

definition owners_ok :: "'a op list \<Rightarrow> bool" where
  "owners_ok ops \<longleftrightarrow>
     (\<forall>i < length ops. \<forall>j < length ops. \<forall>pos.
        owned (ops ! i) = Some pos \<longrightarrow> owned (ops ! j) = Some pos \<longrightarrow> i = j)"

definition qinv :: "nat \<Rightarrow> 'a qsys \<Rightarrow> bool" where
  "qinv n s \<longleftrightarrow>
     capacity_ok n \<and> length (q_buf (qs_q s)) = n \<and> q_mask (qs_q s) = of_nat (n - 1) \<and>
     q_enq (qs_q s) = of_nat (length (h_items (qs_h s))) \<and> q_deq (qs_q s) = of_nat (h_deq (qs_h s)) \<and>
     hist_ok n (qs_h s) \<and> cells_ok n (qs_q s) (qs_h s) \<and>
     (\<forall>x \<in> set (qs_ops s). op_ok n (qs_h s) x) \<and> owners_ok (qs_ops s)"

subsection \<open>Positions and cells\<close>

lemma capacity_bounds: "capacity_ok n \<Longrightarrow> 2 \<le> n \<and> n \<le> 2 ^ 62"
proof -
  assume "capacity_ok n"
  then obtain k where k: "n = 2 ^ k" "0 < k" "k \<le> 62" by (auto simp: capacity_ok_def)
  have "2 ^ 1 \<le> n" "n \<le> 2 ^ 62"
    unfolding k(1) using k by (intro power_increasing; simp)+
  then show ?thesis by simp
qed

lemma mask_index:
  assumes "capacity_ok n"
  shows "unat (pos AND of_nat (n - 1) :: u64) = unat pos mod n"
proof -
  obtain k where "n = 2 ^ k" using assms by (auto simp: capacity_ok_def)
  then show ?thesis using and_mask_mod [of pos k] by (simp add: of_nat_diff)
qed

lemma window_unique:
  fixes p p' n :: nat
  assumes "p mod n = p' mod n" "p < p' + n" "p' < p + n"
  shows "p = p'"
proof -
  have "p = p'" if "p \<le> p'" "p mod n = p' mod n" "p' < p + n" for p p' :: nat
  proof -
    have "p' - p < n" "0 < n" using that by linarith+
    then show ?thesis using mod_window_inj [of 0 n "p' - p" p] that by simp
  qed
  then show ?thesis using assms by (metis nat_le_linear)
qed

text \<open>The last claimed position of a cell, when there is one.\<close>

lemma last_claim:
  fixes p n :: nat
  assumes "0 < n" "p mod n < e"
  obtains p' where "p' < e" "e \<le> p' + n" "p' mod n = p mod n"
proof -
  let ?k = "(e - 1 - p mod n) div n"
  let ?p = "p mod n + n * ?k"
  have a: "n * ?k \<le> e - 1 - p mod n" "e - 1 - p mod n < n * ?k + n"
    using assms(1) mod_less_divisor [of n "e - 1 - p mod n"] mult_div_mod_eq [of n "e - 1 - p mod n"]
    by linarith+
  have "?p < e" "e \<le> ?p + n" using assms(2) a by linarith+
  moreover have "?p mod n = p mod n" by simp
  ultimately show thesis using that by blast
qed

lemma qinvD:
  assumes "qinv n s"
  shows "capacity_ok n" "length (q_buf (qs_q s)) = n" "q_mask (qs_q s) = of_nat (n - 1)"
    "q_enq (qs_q s) = of_nat (length (h_items (qs_h s)))" "q_deq (qs_q s) = of_nat (h_deq (qs_h s))"
    "hist_ok n (qs_h s)" "cells_ok n (qs_q s) (qs_h s)" "owners_ok (qs_ops s)"
    "\<And>i. i < length (qs_ops s) \<Longrightarrow> op_ok n (qs_h s) (qs_ops s ! i)"
  using assms by (simp_all add: qinv_def)

lemma hist_okD:
  assumes "hist_ok n h"
  shows "\<And>p. p + n < length (h_items h) \<Longrightarrow> h_phase h ! p = Released"
    "\<And>p. p < length (h_items h) \<Longrightarrow> pre_taken (h_phase h ! p) \<longleftrightarrow> h_deq h \<le> p"
  using assms by (simp_all add: hist_ok_def)

lemma hist_bounds:
  assumes "hist_ok n h" "capacity_ok n"
  shows "length (h_phase h) = length (h_items h)" "h_deq h \<le> length (h_items h)" "length (h_items h) < 2 ^ 62"
    "length (h_items h) \<le> h_deq h + n"
proof -
  show "length (h_phase h) = length (h_items h)" "h_deq h \<le> length (h_items h)" "length (h_items h) < 2 ^ 62"
    using assms(1) by (simp_all add: hist_ok_def)
  show "length (h_items h) \<le> h_deq h + n"
  proof (rule ccontr)
    assume gt: "\<not> ?thesis"
    then have "h_phase h ! h_deq h = Released" using hist_okD(1) [OF assms(1)] by simp
    moreover have "pre_taken (h_phase h ! h_deq h)"
      using gt hist_okD(2) [OF assms(1), of "h_deq h"] by simp
    ultimately show False by (simp add: pre_taken_def)
  qed
qed

lemma cells_okD:
  "cells_ok n q h \<Longrightarrow> p < length (h_items h) \<Longrightarrow> length (h_items h) \<le> p + n \<Longrightarrow>
     cell_ok n p (h_items h ! p) (h_phase h ! p) (q_buf q ! (p mod n))"
  by (simp add: cells_ok_def)

lemma unat_cursor: "k < 2 ^ 63 \<Longrightarrow> unat (of_nat k :: u64) = k"
  using unat_of_small [of k] by simp

lemma of_nat_cursor: "k < 2 ^ 63 \<Longrightarrow> of_nat k = (pos :: u64) \<longleftrightarrow> k = unat pos"
  using unat_cursor [of k] by auto

lemma cell_at_eq: "qinv n s \<Longrightarrow> cell_at (qs_q s) pos = q_buf (qs_q s) ! (unat pos mod n)"
  by (simp only: cell_at_def qinvD(3) mask_index [OF qinvD(1)])

text \<open>
  What the sequence number of a cell tells about a position of the cell that is not ahead of the
  enqueue cursor: either the cell has never been used, or its last claimed position determines
  it.
\<close>

lemma cell_seq:
  assumes "qinv n s" "unat pos \<le> length (h_items (qs_h s))" "s' = cl_seq (cell_at (qs_q s) pos)"
  shows "length (h_items (qs_h s)) \<le> unat pos mod n \<and> unat pos < n
      \<and> unat pos = length (h_items (qs_h s)) \<and> unat s' = unat pos
    \<or> (\<exists>p. p < length (h_items (qs_h s)) \<and> length (h_items (qs_h s)) \<le> p + n \<and> p mod n = unat pos mod n
        \<and> unat s' = seq_of n p (h_phase (qs_h s) ! p)
        \<and> (p = unat pos \<or> p + n = unat pos \<and> unat pos = length (h_items (qs_h s)) \<or> unat pos + n \<le> p))"
proof -
  let ?e = "length (h_items (qs_h s))"
  note D = qinvD [OF assms(1)]
  have n: "0 < n" "n \<le> 2 ^ 62" using capacity_bounds [OF D(1)] by simp_all
  have e: "?e < 2 ^ 62" using hist_bounds(3) [OF D(6,1)] .
  have cell: "s' = cl_seq (q_buf (qs_q s) ! (unat pos mod n))"
    using assms(3) by (simp add: cell_at_eq [OF assms(1)])
  show ?thesis
  proof (cases "unat pos mod n < ?e")
    case False
    then have "cl_seq (q_buf (qs_q s) ! (unat pos mod n)) = of_nat (unat pos mod n)"
      using D(7) n by (simp add: cells_ok_def)
    moreover have "unat pos mod n = unat pos"
      using False assms(2) by (metis mod_less_eq_dividend le_antisym le_trans linorder_not_less)
    moreover from this have "unat pos < n" using n by (metis mod_less_divisor)
    ultimately show ?thesis using False assms(2) cell by simp
  next
    case True
    obtain p where p: "p < ?e" "?e \<le> p + n" "p mod n = unat pos mod n"
      using last_claim [OF n(1) True] .
    have "s' = of_nat (seq_of n p (h_phase (qs_h s) ! p))"
      using D(7) p cell by (auto simp: cells_ok_def cell_ok_def)
    moreover have "seq_of n p f < 2 ^ 63" for f
      using p e n by (cases f) simp_all
    ultimately have "unat s' = seq_of n p (h_phase (qs_h s) ! p)" using unat_cursor by simp
    moreover have "p = unat pos \<or> p + n = unat pos \<and> unat pos = ?e \<or> unat pos + n \<le> p"
    proof (cases "unat pos < p")
      case True
      then show ?thesis using window_unique [of p n "unat pos"] p(3) by fastforce
    next
      case False
      show ?thesis
      proof (cases "p = unat pos")
        case ne: False
        then have "p + n \<le> unat pos" using False window_unique [of p n "unat pos"] p(3) by fastforce
        then show ?thesis using p(2) assms(2) by simp
      qed simp
    qed
    ultimately show ?thesis using p by blast
  qed
qed

lemma seq_of_ge: "p \<le> seq_of n p f"
  by (cases f) simp_all

lemma seq_of_bound: "p < 2 ^ 62 \<Longrightarrow> n \<le> 2 ^ 62 \<Longrightarrow> seq_of n p f < 2 ^ 63"
  by (cases f) simp_all

lemma seq_of_cases:
  "2 \<le> n \<Longrightarrow> seq_of n p f = p + n \<Longrightarrow> f = Released"
  "2 \<le> n \<Longrightarrow> seq_of n p f = p + 1 \<Longrightarrow> f \<notin> {Claimed, Written}"
  "2 \<le> n \<Longrightarrow> seq_of n p f = p \<Longrightarrow> f \<in> {Claimed, Written}"
  by (cases f; simp)+

lemma unat_suc: "unat (pos :: u64) < 2 ^ 63 \<Longrightarrow> unat (pos + 1) = unat pos + 1"
  using unat_cursor [of "unat pos + 1"] unat_of_small [of "unat pos + 1"] by (simp add: add.commute)

text \<open>What the operations learn from the difference they compute.\<close>

lemma cursor_facts:
  assumes "qinv n s"
  shows "2 \<le> n" "n \<le> 2 ^ 62" "length (h_items (qs_h s)) < 2 ^ 62" "h_deq (qs_h s) \<le> length (h_items (qs_h s))"
  using capacity_bounds [OF qinvD(1) [OF assms]] hist_bounds [OF qinvD(6,1) [OF assms]] by simp_all

lemma seen_dif:
  assumes "qinv n s" "unat pos \<le> length (h_items (qs_h s))"
  defines "sq \<equiv> cl_seq (cell_at (qs_q s) pos)"
  shows "sint (sq - pos) = int (unat sq) - int (unat pos)"
    "sint (sq - (pos + 1)) = int (unat sq) - int (unat pos + 1)"
proof -
  note c = cursor_facts [OF assms(1)]
  have pos: "unat pos < 2 ^ 62" using assms(2) c(3) by simp
  have "unat sq < 2 ^ 63"
    using cell_seq [OF assms(1,2) refl, folded sq_def]
  proof
    assume "\<exists>p. p < length (h_items (qs_h s)) \<and> length (h_items (qs_h s)) \<le> p + n \<and> p mod n = unat pos mod n
        \<and> unat sq = seq_of n p (h_phase (qs_h s) ! p)
        \<and> (p = unat pos \<or> p + n = unat pos \<and> unat pos = length (h_items (qs_h s)) \<or> unat pos + n \<le> p)"
    then obtain p where "p < length (h_items (qs_h s))" "unat sq = seq_of n p (h_phase (qs_h s) ! p)" by blast
    then show ?thesis using seq_of_bound [of p n] c(2,3) by simp
  qed (use pos in simp)
  moreover have "unat pos < 2 ^ 63" "unat (pos + 1) < 2 ^ 63" "unat (pos + 1) = unat pos + 1"
    using pos unat_suc [of pos] by simp_all
  ultimately show "sint (sq - pos) = int (unat sq) - int (unat pos)"
    "sint (sq - (pos + 1)) = int (unat sq) - int (unat pos + 1)"
    using sint_diff [of sq pos] sint_diff [of sq "pos + 1"] by simp_all
qed

lemma enq_sees_free:
  assumes "qinv n s" "unat pos \<le> length (h_items (qs_h s))"
    and "sint (cl_seq (cell_at (qs_q s) pos) - pos) = 0" "n \<le> unat pos"
  shows "h_phase (qs_h s) ! (unat pos - n) = Released"
proof -
  let ?sq = "cl_seq (cell_at (qs_q s) pos)" and ?e = "length (h_items (qs_h s))"
  have sq: "unat ?sq = unat pos" using seen_dif(1) [OF assms(1,2)] assms(3) by linarith
  from cell_seq [OF assms(1,2) refl] assms(4) obtain p where
    p: "p < ?e" "unat ?sq = seq_of n p (h_phase (qs_h s) ! p)"
      "p = unat pos \<or> p + n = unat pos \<and> unat pos = ?e \<or> unat pos + n \<le> p"
    by auto
  from p(3) show ?thesis
  proof (elim disjE)
    assume "p = unat pos"
    then show ?thesis
      using hist_okD(1) [OF qinvD(6) [OF assms(1)], of "unat pos - n"] p(1) assms(4) by simp
  next
    assume "p + n = unat pos \<and> unat pos = ?e"
    then show ?thesis using seq_of_cases(1) [OF cursor_facts(1) [OF assms(1)]] p(2) sq
      by (metis add_diff_cancel_right')
  next
    assume "unat pos + n \<le> p"
    then show ?thesis using seq_of_ge [of p n] p(2) sq cursor_facts(1) [OF assms(1)]
      by (metis add_leD1 add_le_same_cancel1 le_antisym le_trans nle_le not_numeral_le_zero)
  qed
qed

lemma enq_sees_full:
  assumes "qinv n s" "unat pos \<le> length (h_items (qs_h s))"
    and "sint (cl_seq (cell_at (qs_q s) pos) - pos) < 0"
  shows "unat pos = length (h_items (qs_h s)) \<and> n \<le> unat pos \<and> h_phase (qs_h s) ! (unat pos - n) \<noteq> Released"
proof -
  let ?sq = "cl_seq (cell_at (qs_q s) pos)" and ?e = "length (h_items (qs_h s))"
  have sq: "unat ?sq < unat pos" using seen_dif(1) [OF assms(1,2)] assms(3) by linarith
  from cell_seq [OF assms(1,2) refl] sq obtain p where
    p: "unat ?sq = seq_of n p (h_phase (qs_h s) ! p)"
      "p = unat pos \<or> p + n = unat pos \<and> unat pos = ?e \<or> unat pos + n \<le> p"
    by auto
  moreover have "p < unat pos" using seq_of_ge [of p n] p(1) sq by (metis le_less_trans)
  ultimately have eq: "p + n = unat pos" "unat pos = ?e" by auto
  moreover have "h_phase (qs_h s) ! p \<noteq> Released" using p(1) sq eq by auto
  moreover have "unat pos - n = p" "n \<le> unat pos" using eq(1) by linarith+
  ultimately show ?thesis by (simp only:) simp
qed

lemma deq_sees_item:
  assumes "qinv n s" "unat pos \<le> h_deq (qs_h s)"
    and "sint (cl_seq (cell_at (qs_q s) pos) - (pos + 1)) = 0"
  shows "unat pos < length (h_items (qs_h s)) \<and> h_phase (qs_h s) ! unat pos \<notin> {Claimed, Written}"
proof -
  let ?sq = "cl_seq (cell_at (qs_q s) pos)" and ?e = "length (h_items (qs_h s))"
  note c = cursor_facts [OF assms(1)]
  have le: "unat pos \<le> ?e" using assms(2) c(4) by simp
  have sq: "unat ?sq = unat pos + 1" using seen_dif(2) [OF assms(1) le] assms(3) by linarith
  from cell_seq [OF assms(1) le refl] sq obtain p where
    p: "p < ?e" "unat ?sq = seq_of n p (h_phase (qs_h s) ! p)"
      "p = unat pos \<or> p + n = unat pos \<and> unat pos = ?e \<or> unat pos + n \<le> p"
    by auto
  have "p \<le> unat pos + 1" using seq_of_ge [of p n] p(2) sq by metis
  moreover have "seq_of n p f \<le> p + n" for f using c(1) by (cases f) simp_all
  then have "unat pos + 1 \<le> p + n" using p(2) sq by metis
  ultimately have "p = unat pos" using p(3) c(1) by linarith
  then show ?thesis using p(1,2) sq seq_of_cases(2) [OF c(1)] by metis
qed

lemma deq_sees_empty:
  assumes "qinv n s" "unat pos \<le> h_deq (qs_h s)"
    and "sint (cl_seq (cell_at (qs_q s) pos) - (pos + 1)) < 0"
  shows "h_deq (qs_h s) = length (h_items (qs_h s)) \<or>
    h_deq (qs_h s) < length (h_items (qs_h s)) \<and> h_phase (qs_h s) ! h_deq (qs_h s) \<in> {Claimed, Written}"
proof -
  let ?sq = "cl_seq (cell_at (qs_q s) pos)" and ?e = "length (h_items (qs_h s))"
  note c = cursor_facts [OF assms(1)]
  have le: "unat pos \<le> ?e" using assms(2) c(4) by simp
  have sq: "unat ?sq \<le> unat pos" using seen_dif(2) [OF assms(1) le] assms(3) by linarith
  show ?thesis
  proof (cases "unat pos = ?e")
    case True
    then show ?thesis using assms(2) c(4) by simp
  next
    case False
    with cell_seq [OF assms(1) le refl] sq obtain p where
      p: "p < ?e" "unat ?sq = seq_of n p (h_phase (qs_h s) ! p)" "p = unat pos \<or> unat pos + n \<le> p"
      by auto
    have "p \<le> unat pos" using seq_of_ge [of p n] p(2) sq by (metis le_trans)
    then have eq: "p = unat pos" using p(3) c(1) by linarith
    then have ph: "h_phase (qs_h s) ! unat pos \<in> {Claimed, Written}"
      using p(2) sq c(1) by (cases "h_phase (qs_h s) ! p") simp_all
    then have "h_deq (qs_h s) \<le> unat pos"
      using hist_okD(2) [OF qinvD(6) [OF assms(1)], of "unat pos"] eq p(1) by (auto simp: pre_taken_def)
    then show ?thesis using assms(2) ph eq p(1) by simp
  qed
qed

subsection \<open>Preservation\<close>

inductive advance :: "phase \<Rightarrow> phase \<Rightarrow> bool" where
  "advance Claimed Written"
| "advance Written Published"
| "advance Published Taken"
| "advance Taken Fetched"
| "advance Fetched Cleared"
| "advance Cleared Released"

inductive_cases advanceE: "advance f f'"

lemma owned_facts:
  assumes "op_ok n h x" "owned x = Some pos"
  shows "unat pos < length (h_items h)" "h_phase h ! unat pos \<notin> {Published, Released}"
  using assms by (cases "(n, h, x)" rule: op_ok.cases; auto)+

lemma op_ok_advance:
  assumes "op_ok n h x" "owned x \<noteq> Some pos" "advance (h_phase h ! unat pos) f" "unat pos < length (h_phase h)"
    "h_deq h \<le> d" "length (h_phase h) = length (h_items h)"
  shows "op_ok n (h\<lparr>h_phase := (h_phase h)[unat pos := f], h_deq := d\<rparr>) x"
proof -
  have other: "unat pos \<noteq> unat pos'" if "owned x = Some pos'" for pos' 
    using that assms(2) by (metis unsigned_word_eqI)
  have keep: "h_phase h ! p = Released \<Longrightarrow> (h_phase h)[unat pos := f] ! p = Released"
    "h_phase h ! p \<notin> {Claimed, Written} \<Longrightarrow> (h_phase h)[unat pos := f] ! p \<notin> {Claimed, Written}" for p
    using assms(3) by (auto simp: nth_list_update assms(4) elim: advanceE)
  show ?thesis
    using assms(1,4,5,6) other keep by (cases "(n, h, x)" rule: op_ok.cases) auto
qed

lemma owners_ok_new:
  assumes "owners_ok ops" "i < length ops"
    and "\<And>j pos. j < length ops \<Longrightarrow> j \<noteq> i \<Longrightarrow> owned x = Some pos \<Longrightarrow> owned (ops ! j) \<noteq> Some pos"
  shows "owners_ok (ops[i := x])"
  unfolding owners_ok_def
proof (intro allI impI)
  fix a b pos
  assume ab: "a < length (ops[i := x])" "b < length (ops[i := x])"
    and own: "owned (ops[i := x] ! a) = Some pos" "owned (ops[i := x] ! b) = Some pos"
  show "a = b"
    using ab own assms(3) [of b pos] assms(3) [of a pos] assms(1,2)
    by (cases "a = i"; cases "b = i") (auto simp: owners_ok_def)
qed

lemma owners_ok_update:
  assumes "owners_ok ops" "i < length ops" "owned x = None \<or> owned x = owned (ops ! i)"
  shows "owners_ok (ops[i := x])"
proof (rule owners_ok_new [OF assms(1,2)])
  fix j pos assume j: "j < length ops" "j \<noteq> i" "owned x = Some pos"
  then have "owned (ops ! i) = Some pos" using assms(3) by simp
  then show "owned (ops ! j) \<noteq> Some pos" using assms(1,2) j by (auto simp: owners_ok_def)
qed

lemma op_ok_update:
  assumes "\<And>j. j < length ops \<Longrightarrow> j \<noteq> i \<Longrightarrow> op_ok n h (ops ! j)" "op_ok n h x"
  shows "\<forall>y \<in> set (ops[i := x]). op_ok n h y"
  using assms by (metis in_set_conv_nth length_list_update nth_list_update_eq nth_list_update_neq)

text \<open>A step that only moves a program counter.\<close>

lemma qinv_local:
  assumes "qinv n s" "i < length (qs_ops s)" "op_ok n (qs_h s) x" "owned x = None"
  shows "qinv n \<lparr>qs_q = qs_q s, qs_h = qs_h s, qs_ops = (qs_ops s)[i := x]\<rparr>"
  using assms qinvD [OF assms(1)] owners_ok_update [of "qs_ops s" i x] op_ok_update [of "qs_ops s" i n "qs_h s" x]
  by (simp add: qinv_def)

text \<open>A step that moves one position to its next phase, with the cell it lives in.\<close>

lemma cells_ok_advance:
  assumes "cells_ok n q h" "p < length (h_items h)" "length (h_items h) \<le> p + n" "length (q_buf q) = n"
    "length (h_phase h) = length (h_items h)" "cell_ok n p (h_items h ! p) f c" "0 < n"
  shows "cells_ok n (q\<lparr>q_buf := (q_buf q)[p mod n := c], q_deq := d\<rparr>) (h\<lparr>h_phase := (h_phase h)[p := f], h_deq := d'\<rparr>)"
proof -
  have other: "p' mod n \<noteq> p mod n" if "p' < length (h_items h)" "length (h_items h) \<le> p' + n" "p' \<noteq> p" for p'
    using window_unique [of p' n p] that assms(2,3) by fastforce
  have low: "p mod n \<noteq> j" if "length (h_items h) \<le> j" for j
    using assms(2) that mod_less_eq_dividend [of p n] by linarith
  show ?thesis
    unfolding cells_ok_def
  proof (intro conjI allI impI; simp)
    fix p' assume p': "p' < length (h_items h)" "length (h_items h) \<le> p' + n"
    show "cell_ok n p' (h_items h ! p') ((h_phase h)[p := f] ! p') ((q_buf q)[p mod n := c] ! (p' mod n))"
      using assms p' other [OF p'] by (cases "p' = p") (simp_all add: cells_ok_def)
  next
    fix j assume "j < n" "length (h_items h) \<le> j"
    then show "cl_seq ((q_buf q)[p mod n := c] ! j) = word_of_nat j"
      using assms(1) low by (simp add: cells_ok_def)
  qed
qed

lemma hist_ok_advance:
  assumes "hist_ok n h" "p < length (h_items h)" "length (h_items h) \<le> p + n"
    and "pre_taken f \<longleftrightarrow> pre_taken (h_phase h ! p)"
  shows "hist_ok n (h\<lparr>h_phase := (h_phase h)[p := f]\<rparr>)"
  using assms unfolding hist_ok_def by (auto simp: nth_list_update)

lemma hist_ok_take:
  assumes "hist_ok n h" "h_deq h < length (h_items h)" "length (h_items h) \<le> h_deq h + n"
  shows "hist_ok n (h\<lparr>h_phase := (h_phase h)[h_deq h := Taken], h_deq := Suc (h_deq h)\<rparr>)"
  using assms unfolding hist_ok_def by (auto simp: nth_list_update pre_taken_def)

lemma not_released_window:
  assumes "hist_ok n h" "h_phase h ! p \<noteq> Released"
  shows "length (h_items h) \<le> p + n"
  using hist_okD(1) [OF assms(1), of p] assms(2) by fastforce

lemma qinv_advance:
  assumes inv: "qinv n s" and i: "i < length (qs_ops s)" "owned (qs_ops s ! i) = Some pos"
    and f: "advance (h_phase (qs_h s) ! unat pos) f"
    and c: "cell_ok n (unat pos) (h_items (qs_h s) ! unat pos) f c"
    and h': "h' = (qs_h s)\<lparr>h_phase := (h_phase (qs_h s))[unat pos := f]\<rparr>"
    and x: "op_ok n h' x" "owned x = None \<or> owned x = Some pos"
  shows "qinv n \<lparr>qs_q = (qs_q s)\<lparr>q_buf := (q_buf (qs_q s))[unat pos mod n := c]\<rparr>, qs_h = h', qs_ops = (qs_ops s)[i := x]\<rparr>"
proof -
  note D = qinvD [OF inv]
  note own = owned_facts [OF D(9) [OF i(1)] i(2)]
  note b = hist_bounds [OF D(6,1)]
  have n: "0 < n" using cursor_facts(1) [OF inv] by simp
  have win: "length (h_items (qs_h s)) \<le> unat pos + n" using not_released_window [OF D(6)] own(2) by simp
  have "op_ok n h' (qs_ops s ! j)" if "j < length (qs_ops s)" "j \<noteq> i" for j
  proof -
    have "owned (qs_ops s ! j) \<noteq> Some pos" using D(8) i that by (auto simp: owners_ok_def)
    then show ?thesis
      using op_ok_advance [OF D(9) [OF that(1)] _ f _ order_refl b(1)] own(1) b(1) h' by simp
  qed
  then have ops: "\<forall>y \<in> set ((qs_ops s)[i := x]). op_ok n h' y" using op_ok_update x(1) by blast
  have "pre_taken f \<longleftrightarrow> pre_taken (h_phase (qs_h s) ! unat pos)"
    using f own(2) by (auto simp: pre_taken_def elim: advanceE)
  then have "hist_ok n h'" using hist_ok_advance [OF D(6) own(1) win] h' by simp
  moreover have "cells_ok n ((qs_q s)\<lparr>q_buf := (q_buf (qs_q s))[unat pos mod n := c]\<rparr>) h'"
    using cells_ok_advance [OF D(7) own(1) win D(2) b(1) c n, of "q_deq (qs_q s)" "h_deq (qs_h s)"] h' by simp
  moreover have "owners_ok ((qs_ops s)[i := x])" using owners_ok_update [OF D(8) i(1)] x(2) i(2) by simp
  ultimately show ?thesis using D ops h' unfolding qinv_def by simp
qed

lemma qinv_take:
  assumes inv: "qinv n s" and i: "i < length (qs_ops s)" "qs_ops s ! i = OpDeq (DCas pos)"
    and pos: "q_deq (qs_q s) = pos"
  shows "qinv n (run_deq i (DCas pos) s)"
proof -
  note D = qinvD [OF inv] and c = cursor_facts [OF inv]
  note b = hist_bounds [OF D(6,1)]
  let ?h = "qs_h s"
  have p: "unat pos = h_deq ?h" using pos D(5) c(3,4) unat_cursor [of "h_deq ?h"] by simp
  have ok: "unat pos < length (h_items ?h)" "h_phase ?h ! unat pos \<notin> {Claimed, Written}"
    using D(9) [OF i(1)] i(2) by simp_all
  have pub: "h_phase ?h ! unat pos = Published"
    using hist_okD(2) [OF D(6) ok(1)] ok(2) p by (auto simp: pre_taken_def)
  have win: "length (h_items ?h) \<le> unat pos + n" using b(4) p by simp
  let ?h' = "?h\<lparr>h_phase := (h_phase ?h)[unat pos := Taken], h_deq := Suc (h_deq ?h)\<rparr>"
  have adv: "advance (h_phase ?h ! unat pos) Taken" unfolding pub by (rule advance.intros)
  have free: "owned (qs_ops s ! j) \<noteq> Some pos" if "j < length (qs_ops s)" for j
    using owned_facts(2) [OF D(9) [OF that]] pub by auto
  have "op_ok n ?h' (qs_ops s ! j)" if "j < length (qs_ops s)" for j
    using op_ok_advance [OF D(9) [OF that] free [OF that] adv _ _ b(1)] ok(1) b(1) by simp
  then have ops: "\<forall>y \<in> set ((qs_ops s)[i := OpDeq (DVal pos)]). op_ok n ?h' y"
    using ok(1) b(1) by (intro op_ok_update) simp_all
  have owners: "owners_ok ((qs_ops s)[i := OpDeq (DVal pos)])"
    using owners_ok_new [OF D(8) i(1)] free by fastforce
  have hist: "hist_ok n ?h'" using hist_ok_take [OF D(6)] ok(1) win p by simp
  let ?c = "q_buf (qs_q s) ! (unat pos mod n)"
  have "cell_ok n (unat pos) (h_items ?h ! unat pos) Published ?c"
    using D(7) ok(1) win pub unfolding cells_ok_def by metis
  then have "cell_ok n (unat pos) (h_items ?h ! unat pos) Taken ?c" by (simp add: cell_ok_def)
  from cells_ok_advance [OF D(7) ok(1) win D(2) b(1) this, of "pos + 1" "Suc (h_deq ?h)"]
  have cells: "cells_ok n ((qs_q s)\<lparr>q_deq := pos + 1\<rparr>) ?h'" using c(1) by simp
  show ?thesis
    using D pos ops owners hist cells unfolding qinv_def run_deq_def by (simp add: add.commute)
qed

lemma qinv_claim:
  assumes inv: "qinv n s" and i: "i < length (qs_ops s)" "qs_ops s ! i = OpEnq v (ECas pos)"
    and pos: "q_enq (qs_q s) = pos" and room: "Suc (length (h_items (qs_h s))) < 2 ^ 62"
  shows "qinv n (run_enq i v (ECas pos) s)"
proof -
  note D = qinvD [OF inv] and c = cursor_facts [OF inv]
  note b = hist_bounds [OF D(6,1)]
  let ?h = "qs_h s" and ?e = "length (h_items (qs_h s))"
  have p: "unat pos = ?e" using pos D(4) c(3) unat_cursor [of ?e] by simp
  have rel: "h_phase ?h ! k = Released" if "k + n = ?e" for k
    using D(9) [OF i(1)] i(2) p that by (metis add_diff_cancel_right' le_add2 op_ok.simps(4))
  let ?h' = "?h\<lparr>h_items := h_items ?h @ [v], h_phase := h_phase ?h @ [Claimed]\<rparr>"
  have hist: "hist_ok n ?h'"
    unfolding hist_ok_def
  proof (intro conjI allI impI)
    show "h_phase ?h' ! p = Released" if "p + n < length (h_items ?h')" for p
      using that hist_okD(1) [OF D(6), of p] rel b(1) c(1) by (cases "p + n = ?e") (auto simp: nth_append)
    show "pre_taken (h_phase ?h' ! p) = (h_deq ?h' \<le> p)" if "p < length (h_items ?h')" for p
      using that hist_okD(2) [OF D(6), of p] b(1,2) by (cases "p = ?e") (auto simp: nth_append pre_taken_def)
  qed (use b room in simp_all)
  have "cl_seq (q_buf (qs_q s) ! (?e mod n)) = of_nat ?e"
  proof (cases "?e < n")
    case True
    then show ?thesis using D(7) by (simp add: cells_ok_def)
  next
    case False
    then have "cell_ok n (?e - n) (h_items ?h ! (?e - n)) Released (q_buf (qs_q s) ! ((?e - n) mod n))"
      using cells_okD [OF D(7), of "?e - n"] rel [of "?e - n"] c(1) by simp
    then show ?thesis using False by (simp add: cell_ok_def le_mod_geq)
  qed
  then have cells: "cells_ok n ((qs_q s)\<lparr>q_enq := pos + 1\<rparr>) ?h'"
    using D(7) b(1) unfolding cells_ok_def by (auto simp: nth_append cell_ok_def less_Suc_eq)
  have "op_ok n ?h' x" if "op_ok n ?h x" for x
    using that b(1,2) c(1) by (cases "(n, ?h, x)" rule: op_ok.cases) (auto simp: nth_append)
  then have "\<And>j. j < length (qs_ops s) \<Longrightarrow> op_ok n ?h' (qs_ops s ! j)" using D(9) by blast
  then have ops: "\<forall>y \<in> set ((qs_ops s)[i := OpEnq v (EVal pos)]). op_ok n ?h' y"
    using p b(1) by (intro op_ok_update) (simp_all add: nth_append)
  have "owned (qs_ops s ! j) \<noteq> Some pos" if "j < length (qs_ops s)" for j
    using owned_facts(1) [OF D(9) [OF that]] p by fastforce
  then have "owners_ok ((qs_ops s)[i := OpEnq v (EVal pos)])"
    using owners_ok_new [OF D(8) i(1)] by fastforce
  then show ?thesis
    using D pos ops hist cells unfolding qinv_def run_enq_def by (simp add: add.commute)
qed

lemma cell_update:
  assumes "qinv n s"
  shows "set_cell pos f (qs_q s) =
    (qs_q s)\<lparr>q_buf := (q_buf (qs_q s))[unat pos mod n := f (q_buf (qs_q s) ! (unat pos mod n))]\<rparr>"
  by (simp only: set_cell_def qinvD(3) [OF assms] mask_index [OF qinvD(1) [OF assms]] cell_at_eq [OF assms])

lemma cell_ok_window:
  assumes "qinv n s" "i < length (qs_ops s)" "owned (qs_ops s ! i) = Some pos"
  shows "cell_ok n (unat pos) (h_items (qs_h s) ! unat pos) (h_phase (qs_h s) ! unat pos)
    (q_buf (qs_q s) ! (unat pos mod n))"
proof -
  note D = qinvD [OF assms(1)]
  note own = owned_facts [OF D(9) [OF assms(2)] assms(3)]
  then show ?thesis using D(7) not_released_window [OF D(6), of "unat pos"] by (simp add: cells_ok_def)
qed

lemma release_word:
  assumes "qinv n s"
  shows "pos + q_mask (qs_q s) + 1 = of_nat (unat pos + n)"
  using cursor_facts(1) [OF assms] qinvD(3) [OF assms] by (simp add: of_nat_diff)

lemma qinv_enq:
  assumes inv: "qinv n s" and i: "i < length (qs_ops s)" "qs_ops s ! i = OpEnq v pc"
    and room: "length (h_items (qs_h (run_enq i v pc s))) < 2 ^ 62"
  shows "qinv n (run_enq i v pc s)"
proof -
  note D = qinvD [OF inv] and c = cursor_facts [OF inv]
  have ok: "op_ok n (qs_h s) (OpEnq v pc)" using D(9) [OF i(1)] i(2) by simp
  note loc = qinv_local [OF inv i(1)] and adv = qinv_advance [OF inv i(1)]
  show ?thesis
  proof (cases pc)
    case ELoad
    then show ?thesis
      using loc [of "OpEnq v (ESeq (q_enq (qs_q s)))"] D(4) c(3) unat_cursor [of "length (h_items (qs_h s))"]
      by (simp add: run_enq_def)
  next
    case (ESeq pos)
    then have "unat pos \<le> length (h_items (qs_h s))" using ok by simp
    then show ?thesis
      using loc [of "OpEnq v (ECas pos)"] loc [of OpNone] loc [of "OpEnq v ELoad"] enq_sees_free [OF inv] ESeq
      by (simp add: run_enq_def Let_def)
  next
    case (ECas pos)
    show ?thesis
    proof (cases "q_enq (qs_q s) = pos")
      case True
      then show ?thesis using qinv_claim [OF inv i(1) _ True] i(2) room ECas by (simp add: run_enq_def)
    next
      case False
      then show ?thesis using loc [of "OpEnq v (ESeq pos)"] ok ECas by (simp add: run_enq_def)
    qed
  next
    case (EVal pos)
    then have own: "owned (qs_ops s ! i) = Some pos" using i(2) by simp
    show ?thesis
      using adv [OF own _ _ refl, of Written _ "OpEnq v (EPub pos)"] ok EVal cell_ok_window [OF inv i(1) own]
        hist_bounds(1) [OF D(6,1)]
      by (simp add: run_enq_def cell_update [OF inv] cell_ok_def advance.intros)
  next
    case (EPub pos)
    then have own: "owned (qs_ops s ! i) = Some pos" using i(2) by simp
    show ?thesis
      using adv [OF own _ _ refl, of Published _ OpNone] ok EPub cell_ok_window [OF inv i(1) own]
      by (simp add: run_enq_def cell_update [OF inv] cell_ok_def advance.intros add.commute)
  qed
qed

text \<open>A consumer at work on the cell it has claimed.\<close>

lemma qinv_deq_slot:
  assumes inv: "qinv n s" and i: "i < length (qs_ops s)" "qs_ops s ! i = OpDeq pc"
    and pc: "\<nexists>pos. pc = DSeq pos \<or> pc = DCas pos" "pc \<noteq> DLoad"
  shows "qinv n (run_deq i pc s)"
proof -
  note D = qinvD [OF inv] and adv = qinv_advance [OF inv i(1)]
  have ok: "op_ok n (qs_h s) (OpDeq pc)" using D(9) [OF i(1)] i(2) by simp
  note len = hist_bounds(1) [OF D(6,1)]
  show ?thesis
  proof (cases pc)
    case (DVal pos)
    then have own: "owned (qs_ops s ! i) = Some pos" using i(2) by simp
    note w = cell_ok_window [OF inv i(1) own]
    show ?thesis
      using adv [OF own _ _ refl, of Fetched "q_buf (qs_q s) ! (unat pos mod n)"
          "OpDeq (DNil pos (cl_val (q_buf (qs_q s) ! (unat pos mod n))))"] ok DVal w len
      by (simp add: run_deq_def cell_at_eq [OF inv] cell_ok_def advance.intros)
  next
    case (DNil pos v)
    then have own: "owned (qs_ops s ! i) = Some pos" using i(2) by simp
    show ?thesis
      using adv [OF own _ _ refl, of Cleared _ "OpDeq (DPub pos v)"] ok DNil cell_ok_window [OF inv i(1) own] len
      by (simp add: run_deq_def cell_update [OF inv] cell_ok_def advance.intros)
  next
    case (DPub pos v)
    then have own: "owned (qs_ops s ! i) = Some pos" using i(2) by simp
    show ?thesis
      using adv [OF own _ _ refl, of Released _ OpNone] ok DPub cell_ok_window [OF inv i(1) own]
      by (simp add: run_deq_def cell_update [OF inv] cell_ok_def advance.intros release_word [OF inv])
  qed (use pc in auto)
qed

lemma qinv_deq:
  assumes inv: "qinv n s" and i: "i < length (qs_ops s)" "qs_ops s ! i = OpDeq pc"
  shows "qinv n (run_deq i pc s)"
proof -
  note D = qinvD [OF inv] and c = cursor_facts [OF inv]
  have ok: "op_ok n (qs_h s) (OpDeq pc)" using D(9) [OF i(1)] i(2) by simp
  note loc = qinv_local [OF inv i(1)]
  show ?thesis
  proof (cases pc)
    case DLoad
    then show ?thesis
      using loc [of "OpDeq (DSeq (q_deq (qs_q s)))"] D(5) c(3,4) unat_cursor [of "h_deq (qs_h s)"]
      by (simp add: run_deq_def)
  next
    case (DSeq pos)
    then have "unat pos \<le> h_deq (qs_h s)" using ok by simp
    then show ?thesis
      using loc [of "OpDeq (DCas pos)"] loc [of OpNone] loc [of "OpDeq DLoad"] deq_sees_item [OF inv] DSeq
      by (simp add: run_deq_def Let_def)
  next
    case (DCas pos)
    show ?thesis
    proof (cases "q_deq (qs_q s) = pos")
      case True
      then show ?thesis using qinv_take [OF inv i(1) _ True] i(2) DCas by simp
    next
      case False
      then show ?thesis using loc [of "OpDeq (DSeq pos)"] ok DCas by (simp add: run_deq_def)
    qed
  qed (use qinv_deq_slot [OF inv i] in auto)
qed

section \<open>Runs\<close>

definition qs_start :: "'a mpmc \<Rightarrow> nat \<Rightarrow> 'a qsys" where
  "qs_start q m = \<lparr>qs_q = q, qs_h = \<lparr>h_items = [], h_phase = [], h_deq = 0\<rparr>, qs_ops = replicate m OpNone\<rparr>"

lemma sint_pow: "k \<le> 62 \<Longrightarrow> sint (2 ^ k :: u64) = 2 ^ k"
  using sint_small [of "2 ^ k"] unat_pow [of k] power_strict_increasing [of k 63 "2 :: nat"] by simp

lemma round_up_returns:
  assumes "sint sz \<le> 2 ^ 62" "k \<le> 62"
  shows "\<exists>j. round_up sz (2 ^ k) = Some (2 ^ j) \<and> k \<le> j \<and> j \<le> 62 \<and> sint sz \<le> 2 ^ j \<and> (k < j \<longrightarrow> 2 ^ (j - 1) < sint sz)"
  using assms(2)
proof (induction "62 - k" arbitrary: k)
  case 0
  then have k: "k = 62" by simp
  have "round_up sz (2 ^ 62) = Some (2 ^ 62)"
    using assms(1) sint_pow [of 62] by (subst round_up.simps) simp
  then show ?case unfolding k using assms(1) by (intro exI [of _ 62]) simp
next
  case (Suc d)
  show ?case
  proof (cases "2 ^ k < sint sz")
    case True
    have "d = 62 - Suc k" "Suc k \<le> 62" using Suc.hyps(2) by simp_all
    from Suc.hyps(1) [OF this] obtain j where
      j: "round_up sz (2 ^ Suc k) = Some (2 ^ j)" "Suc k \<le> j" "j \<le> 62" "sint sz \<le> 2 ^ j"
        "Suc k < j \<longrightarrow> 2 ^ (j - 1) < sint sz" by blast
    moreover have "round_up sz (2 ^ k) = round_up sz (2 ^ Suc k)"
      using True Suc.prems by (subst round_up.simps) (simp only: sint_pow push_pow if_True)
    moreover have "2 ^ (j - 1) < sint sz" using j(2,5) True by (cases "Suc k = j") auto
    ultimately show ?thesis by (metis Suc_leD)
  next
    case False
    then show ?thesis using Suc.prems by (auto simp: round_up.simps [of sz "2 ^ k"] sint_pow)
  qed
qed

text \<open>On the words the loop passes through, a return needs a size within the largest power of two.\<close>

lemma sint_pow_le: "sint (2 ^ k :: u64) \<le> 2 ^ 62"
proof (cases "k \<le> 62")
  case True
  then show ?thesis using power_increasing [of k 62 "2 :: int"] by (simp only: sint_pow)
next
  case False
  show ?thesis
  proof (cases "k = 63")
    case True
    have "sint (2 ^ 63 :: u64) \<le> 2 ^ 62" by code_simp
    then show ?thesis using True by simp
  next
    case ne: False
    then have "64 \<le> k" using False by simp
    then have "(2 :: u64) ^ k = 2 ^ 64 * 2 ^ (k - 64)" using power_add [of "2 :: u64" 64 "k - 64"] by simp
    moreover have "(2 :: u64) ^ 64 = 0" by code_simp
    ultimately have z: "(2 :: u64) ^ k = 0" by (simp only: mult_zero_left)
    show ?thesis unfolding z by simp
  qed
qed

lemma round_up_loops:
  assumes "2 ^ 62 < sint sz"
  shows "round_up sz (2 ^ k) = None"
proof (rule ccontr)
  assume "\<not> ?thesis"
  then obtain m where "round_up sz (2 ^ k) = Some m" by auto
  moreover have "\<forall>j. x = sz \<longrightarrow> y \<noteq> 2 ^ j" if "round_up x y = Some z" for x y z
  proof (rule round_up.raw_induct [OF _ that])
    fix f :: "u64 \<Rightarrow> u64 \<Rightarrow> u64 option" and x y z
    assume IH: "\<And>x y z. f x y = Some z \<Longrightarrow> \<forall>j. x = sz \<longrightarrow> y \<noteq> 2 ^ j"
      and body: "(if sint y < sint x then f x (push_bit 1 y) else Some y) = Some z"
    show "\<forall>j. x = sz \<longrightarrow> y \<noteq> 2 ^ j"
    proof (intro allI impI notI)
      fix j assume "x = sz" "y = 2 ^ j"
      moreover from this have "sint y < sint x" using sint_pow_le [of j] assms by simp
      ultimately show False using body IH [of x "push_bit 1 y" z] push_pow [of j] by (metis (full_types))
    qed
  qed
  ultimately show False by blast
qed

lemma newMPMC_shape:
  assumes "newMPMC sz = Some q"
  shows "\<exists>k. 0 < k \<and> k \<le> 62 \<and> sint sz \<le> 2 ^ k \<and> (1 < k \<longrightarrow> 2 ^ (k - 1) < sint sz) \<and> length (q_buf q) = 2 ^ k
    \<and> q = \<lparr>q_buf = map (\<lambda>i. \<lparr>cl_seq = of_nat i, cl_val = None\<rparr>) [0..<2 ^ k], q_mask = of_nat (2 ^ k - 1),
           q_enq = 0, q_deq = 0\<rparr>"
proof -
  have "round_up sz (2 ^ 1) \<noteq> None" using assms by (auto simp: newMPMC_def split: option.splits)
  then have "sint sz \<le> 2 ^ 62" using round_up_loops [of sz 1] by (meson linorder_not_less)
  from round_up_returns [OF this, of 1] obtain k where
    k: "round_up sz 2 = Some (2 ^ k)" "1 \<le> k" "k \<le> 62" "sint sz \<le> 2 ^ k" "1 < k \<longrightarrow> 2 ^ (k - 1) < sint sz"
    by auto
  moreover have "unat (2 ^ k :: u64) = 2 ^ k" using k(3) by (intro unat_pow) simp
  ultimately show ?thesis
    using assms by (intro exI [of _ k]) (auto simp: newMPMC_def of_nat_diff)
qed

lemma qinv_start:
  assumes "newMPMC sz = Some q"
  shows "qinv (length (q_buf q)) (qs_start q m)"
proof -
  obtain k where k: "0 < k" "k \<le> 62" "length (q_buf q) = 2 ^ k"
    and q: "q = \<lparr>q_buf = map (\<lambda>i. \<lparr>cl_seq = of_nat i, cl_val = None\<rparr>) [0..<2 ^ k], q_mask = of_nat (2 ^ k - 1),
           q_enq = 0, q_deq = 0\<rparr>"
    using newMPMC_shape [OF assms] by blast
  have "capacity_ok (2 ^ k)" using k by (auto simp: capacity_ok_def)
  moreover have "owners_ok (replicate m OpNone)" by (simp add: owners_ok_def)
  ultimately show ?thesis
    unfolding k(3) by (simp add: qinv_def qs_start_def hist_ok_def cells_ok_def q)
qed

lemma items_mono: "qstep s s' \<Longrightarrow> length (h_items (qs_h s)) \<le> length (h_items (qs_h s'))"
proof (induction rule: qstep.induct)
  case (q_enq i s v pc)
  then show ?case by (cases pc) (auto simp: run_enq_def split: prod.split)
next
  case (q_deq i s pc)
  then show ?case by (cases pc) (auto simp: run_deq_def split: prod.split)
qed simp_all

lemma qinv_step:
  assumes "qstep s s'" "qinv n s" "length (h_items (qs_h s')) < 2 ^ 62"
  shows "qinv n s'"
  using assms
proof (induction rule: qstep.induct)
  case (q_begin_enq i s v)
  moreover have "s\<lparr>qs_ops := (qs_ops s)[i := OpEnq v ELoad]\<rparr>
      = \<lparr>qs_q = qs_q s, qs_h = qs_h s, qs_ops = (qs_ops s)[i := OpEnq v ELoad]\<rparr>" by simp
  ultimately show ?case using qinv_local [of n s i "OpEnq v ELoad"] by (simp only: op_ok.simps owned.simps)
next
  case (q_begin_deq i s)
  moreover have "s\<lparr>qs_ops := (qs_ops s)[i := OpDeq DLoad]\<rparr>
      = \<lparr>qs_q = qs_q s, qs_h = qs_h s, qs_ops = (qs_ops s)[i := OpDeq DLoad]\<rparr>" by simp
  ultimately show ?case using qinv_local [of n s i "OpDeq DLoad"] by (simp only: op_ok.simps owned.simps)
next
  case (q_enq i s v pc)
  then show ?case by (intro qinv_enq)
next
  case (q_deq i s pc)
  then show ?case by (intro qinv_deq)
qed

lemma qinv_reach:
  assumes "newMPMC sz = Some q" "qstep\<^sup>*\<^sup>* (qs_start q m) s" "length (h_items (qs_h s)) < 2 ^ 62"
  shows "qinv (length (q_buf q)) s"
  using assms(2,3)
proof (induction rule: rtranclp_induct)
  case base
  then show ?case using qinv_start [OF assms(1)] by blast
next
  case (step s s')
  then show ?case using items_mono qinv_step by (metis le_less_trans)
qed

text \<open>The contents: claimed and not yet taken, in order.\<close>

definition contents :: "'a qsys \<Rightarrow> 'a list" where
  "contents s = drop (h_deq (qs_h s)) (h_items (qs_h s))"

text \<open>The position whose cell's value an operation is about to read or write.\<close>

fun val_access :: "'a op \<Rightarrow> u64 option" where
  "val_access (OpEnq v (EVal pos)) = Some pos"
| "val_access (OpDeq (DVal pos)) = Some pos"
| "val_access (OpDeq (DNil pos v)) = Some pos"
| "val_access _ = None"

lemma val_access_owned: "val_access x = Some pos \<Longrightarrow> owned x = Some pos"
  by (cases x rule: val_access.cases) simp_all

lemma owned_distinct_cells:
  assumes "qinv n s" "i < length (qs_ops s)" "j < length (qs_ops s)" "i \<noteq> j"
    and "owned (qs_ops s ! i) = Some a" "owned (qs_ops s ! j) = Some b"
  shows "unat (a AND q_mask (qs_q s)) \<noteq> unat (b AND q_mask (qs_q s))"
proof
  note D = qinvD [OF assms(1)]
  assume "unat (a AND q_mask (qs_q s)) = unat (b AND q_mask (qs_q s))"
  then have "unat a mod n = unat b mod n" by (simp only: D(3) mask_index [OF D(1)])
  moreover note oa = owned_facts [OF D(9) [OF assms(2)] assms(5)] and ob = owned_facts [OF D(9) [OF assms(3)] assms(6)]
  have "length (h_items (qs_h s)) \<le> unat a + n" "length (h_items (qs_h s)) \<le> unat b + n"
    using not_released_window [OF D(6)] oa(2) ob(2) by blast+
  ultimately have "unat a = unat b" using window_unique [of "unat a" n "unat b"] oa(1) ob(1) by simp
  then have "a = b" by (simp add: unsigned_word_eqI)
  then show False using D(8) assms by (auto simp: owners_ok_def)
qed

lemma enq_contents:
  assumes "qinv n s" "i < length (qs_ops s)" "qs_ops s ! i = OpEnq v pc"
  shows "contents (run_enq i v pc s) =
    (if \<exists>pos. pc = ECas pos \<and> q_enq (qs_q s) = pos then contents s @ [v] else contents s)"
  using cursor_facts(4) [OF assms(1)] by (cases pc) (auto simp: run_enq_def contents_def split: prod.split)

lemma deq_contents:
  assumes "qinv n s" "i < length (qs_ops s)" "qs_ops s ! i = OpDeq pc"
  shows "contents s =
    (if \<exists>pos. pc = DCas pos \<and> q_deq (qs_q s) = pos
     then h_items (qs_h s) ! h_deq (qs_h s) # contents (run_deq i pc s) else contents (run_deq i pc s))"
proof -
  have "contents s = h_items (qs_h s) ! h_deq (qs_h s) # drop (Suc (h_deq (qs_h s))) (h_items (qs_h s))"
    if pc: "pc = DCas pos" "q_deq (qs_q s) = pos" for pos
  proof -
    have "unat pos < length (h_items (qs_h s))" using qinvD(9) [OF assms(1,2)] assms(3) pc by simp
    moreover have "unat pos = h_deq (qs_h s)"
      using pc(2) qinvD(5) [OF assms(1)] unat_cursor [of "h_deq (qs_h s)"] cursor_facts(3,4) [OF assms(1)] by simp
    ultimately show ?thesis by (simp add: contents_def Cons_nth_drop_Suc)
  qed
  then show ?thesis by (cases pc) (auto simp: run_deq_def contents_def split: prod.split)
qed

section \<open>Unpublished positions\<close>

text \<open>A position that is claimed and not yet published belongs to a goroutine in \<open>enqueue\<close>.\<close>

fun publisher :: "'a op \<Rightarrow> nat option" where
  "publisher (OpEnq v (EVal pos)) = Some (unat pos)"
| "publisher (OpEnq v (EPub pos)) = Some (unat pos)"
| "publisher x = None"

definition unpublished :: "phase \<Rightarrow> bool" where
  "unpublished f \<longleftrightarrow> f = Claimed \<or> f = Written"

lemma unpublished_simps [simp]:
  "unpublished Claimed" "unpublished Written" "\<not> unpublished Published" "\<not> unpublished Taken"
  "\<not> unpublished Fetched" "\<not> unpublished Cleared" "\<not> unpublished Released"
  by (simp_all add: unpublished_def)

definition claims_ok :: "'a qsys \<Rightarrow> bool" where
  "claims_ok s \<longleftrightarrow>
     (\<forall>p < length (h_items (qs_h s)). unpublished (h_phase (qs_h s) ! p) \<longrightarrow> Some p \<in> publisher ` set (qs_ops s))"

lemma publisher_update:
  assumes "i < length ops" "Some p \<in> publisher ` set ops" "publisher (ops ! i) = Some p \<Longrightarrow> publisher x = Some p"
  shows "Some p \<in> publisher ` set (ops[i := x])"
proof -
  obtain j where j: "j < length ops" "publisher (ops ! j) = Some p"
    using assms(2) by (auto simp: in_set_conv_nth)
  have "ops[i := x] ! j \<in> set (ops[i := x])" using j(1) by simp
  moreover have "publisher (ops[i := x] ! j) = Some p" using j assms(1,3) by (cases "i = j") auto
  ultimately show ?thesis by (metis imageI)
qed

text \<open>
  A step of operation \<open>i\<close> keeps the property when every position it leaves unpublished either was
  so before, and is not abandoned, or is now its own.
\<close>

lemma claims_ok_step:
  assumes "claims_ok s" "i < length (qs_ops s)" "qs_ops s' = (qs_ops s)[i := x]"
    and "\<And>p. p < length (h_items (qs_h s')) \<Longrightarrow> unpublished (h_phase (qs_h s') ! p) \<Longrightarrow>
      publisher x = Some p \<or>
      p < length (h_items (qs_h s)) \<and> unpublished (h_phase (qs_h s) ! p) \<and> publisher (qs_ops s ! i) \<noteq> Some p"
  shows "claims_ok s'"
  unfolding claims_ok_def
proof (intro allI impI)
  fix p assume p: "p < length (h_items (qs_h s'))" "unpublished (h_phase (qs_h s') ! p)"
  from assms(4) [OF p] show "Some p \<in> publisher ` set (qs_ops s')"
  proof
    assume "publisher x = Some p"
    moreover have "x \<in> set (qs_ops s')" using assms(2,3) by (simp add: set_update_memI)
    ultimately show ?thesis by (metis imageI)
  next
    assume *: "p < length (h_items (qs_h s)) \<and> unpublished (h_phase (qs_h s) ! p) \<and> publisher (qs_ops s ! i) \<noteq> Some p"
    then have "Some p \<in> publisher ` set (qs_ops s)" using assms(1) by (simp add: claims_ok_def)
    then show ?thesis using publisher_update [OF assms(2)] * assms(3) by metis
  qed
qed

lemma hist_enq_unpublished:
  assumes "length (h_phase h) = length (h_items h)" "q_enq q = of_nat (length (h_items h))" "length (h_items h) < 2 ^ 63"
    and "enqueue v pc q = (res, q')" "p < length (h_items (hist_enq v pc q h))"
    and "unpublished (h_phase (hist_enq v pc q h) ! p)"
  shows "publisher (enq_next v res) = Some p \<or>
    p < length (h_items h) \<and> unpublished (h_phase h ! p) \<and> publisher (OpEnq v pc) \<noteq> Some p"
proof (cases pc)
  case (ECas pos)
  show ?thesis
  proof (cases "q_enq q = pos")
    case True
    then have "unat pos = length (h_items h)" using assms(2,3) unat_cursor by auto
    then show ?thesis using ECas True assms by (cases "p < length (h_items h)") (auto simp: nth_append)
  next
    case False
    then show ?thesis using ECas assms(4-6) by simp
  qed
next
  case (EVal pos)
  then show ?thesis using assms by (cases "p = unat pos") auto
next
  case (EPub pos)
  then show ?thesis using assms by (cases "p = unat pos") auto
next
  case (ESeq pos)
  then show ?thesis using assms(5,6) by simp
next
  case ELoad
  then show ?thesis using assms(5,6) by simp
qed

lemma claims_ok_enq:
  assumes inv: "qinv n s" and i: "i < length (qs_ops s)" "qs_ops s ! i = OpEnq v pc" and "claims_ok s"
  shows "claims_ok (run_enq i v pc s)"
proof -
  obtain res q where res: "enqueue v pc (qs_q s) = (res, q)" by fastforce
  have "length (h_items (qs_h s)) < 2 ^ 63" using cursor_facts(3) [OF inv] by simp
  note un = hist_enq_unpublished [OF hist_bounds(1) [OF qinvD(6,1) [OF inv]] qinvD(4) [OF inv] this res]
  show ?thesis
  proof (rule claims_ok_step [OF assms(4) i(1), of _ "enq_next v res"])
    show "qs_ops (run_enq i v pc s) = (qs_ops s)[i := enq_next v res]" using res by (simp add: run_enq_def)
    have h: "qs_h (run_enq i v pc s) = hist_enq v pc (qs_q s) (qs_h s)" using res by (simp add: run_enq_def)
    show "publisher (enq_next v res) = Some p \<or>
      p < length (h_items (qs_h s)) \<and> unpublished (h_phase (qs_h s) ! p) \<and> publisher (qs_ops s ! i) \<noteq> Some p"
      if "p < length (h_items (qs_h (run_enq i v pc s)))" "unpublished (h_phase (qs_h (run_enq i v pc s)) ! p)" for p
      using un that unfolding h i(2) by blast
  qed
qed

lemma hist_deq_unpublished:
  assumes "length (h_phase h) = length (h_items h)" "unpublished (h_phase (hist_deq pc q h) ! p)"
    "p < length (h_items (hist_deq pc q h))"
  shows "p < length (h_items h) \<and> unpublished (h_phase h ! p)"
proof -
  have *: "unpublished (xs[k := f] ! p) \<Longrightarrow> p < length xs \<Longrightarrow> \<not> unpublished f \<Longrightarrow> unpublished (xs ! p)" for xs k f
    by (cases "k = p") auto
  show ?thesis using assms by (cases pc) (auto dest!: * split: if_splits)
qed

lemma claims_ok_deq:
  assumes inv: "qinv n s" and i: "i < length (qs_ops s)" "qs_ops s ! i = OpDeq pc" and "claims_ok s"
  shows "claims_ok (run_deq i pc s)"
proof -
  obtain res q where res: "dequeue pc (qs_q s) = (res, q)" by fastforce
  have h: "qs_h (run_deq i pc s) = hist_deq pc (qs_q s) (qs_h s)" using res by (simp add: run_deq_def)
  show ?thesis
  proof (rule claims_ok_step [OF assms(4) i(1), of _ "deq_next res"])
    show "qs_ops (run_deq i pc s) = (qs_ops s)[i := deq_next res]" using res by (simp add: run_deq_def)
    show "publisher (deq_next res) = Some p \<or>
      p < length (h_items (qs_h s)) \<and> unpublished (h_phase (qs_h s) ! p) \<and> publisher (qs_ops s ! i) \<noteq> Some p"
      if "p < length (h_items (qs_h (run_deq i pc s)))" "unpublished (h_phase (qs_h (run_deq i pc s)) ! p)" for p
      using hist_deq_unpublished [OF hist_bounds(1) [OF qinvD(6,1) [OF inv]]] that unfolding h i(2) by simp
  qed
qed

lemma claims_ok_qstep:
  assumes "qstep s s'" "qinv n s" "claims_ok s"
  shows "claims_ok s'"
  using assms
proof (induction rule: qstep.induct)
  case (q_begin_enq i s v)
  then show ?case by (intro claims_ok_step [OF q_begin_enq(4,1), of _ "OpEnq v ELoad"]) simp_all
next
  case (q_begin_deq i s)
  then show ?case by (intro claims_ok_step [OF q_begin_deq(4,1), of _ "OpDeq DLoad"]) simp_all
qed (auto intro: claims_ok_enq claims_ok_deq)

lemma qinv_steps:
  assumes "qstep\<^sup>*\<^sup>* s s'" "qinv n s" "length (h_items (qs_h s')) < 2 ^ 62"
  shows "qinv n s'"
  using assms
proof (induction rule: rtranclp_induct)
  case (step s1 s2)
  then show ?case using items_mono [OF step.hyps(2)] qinv_step by fastforce
qed

lemma claims_ok_steps:
  assumes "qstep\<^sup>*\<^sup>* s s'" "qinv n s" "claims_ok s" "length (h_items (qs_h s')) < 2 ^ 62"
  shows "claims_ok s'"
  using assms
proof (induction rule: rtranclp_induct)
  case (step s1 s2)
  have "length (h_items (qs_h s1)) < 2 ^ 62" using items_mono [OF step.hyps(2)] step.prems(3) by simp
  then show ?case using step claims_ok_qstep [OF step.hyps(2)] qinv_steps [OF step.hyps(1)] by blast
qed

lemma claims_ok_start: "claims_ok (qs_start q m)"
  by (simp add: claims_ok_def qs_start_def)

text \<open>When \<open>dequeue\<close> reports empty, nothing is queued, or the oldest element is being written.\<close>

lemma dequeue_empty:
  assumes "qinv n s" "claims_ok s" "i < length (qs_ops s)" "qs_ops s ! i = OpDeq pc"
    and "dequeue pc (qs_q s) = (Inr (v, False), q)"
  shows "contents s = [] \<or> (\<exists>x \<in> set (qs_ops s). publisher x = Some (h_deq (qs_h s)))"
proof -
  obtain pos where pos: "pc = DSeq pos" "sint (cl_seq (cell_at (qs_q s) pos) - (pos + 1)) < 0"
    using assms(5) by (cases pc) (auto simp: Let_def split: if_splits)
  have "unat pos \<le> h_deq (qs_h s)" using qinvD(9) [OF assms(1,3)] assms(4) pos(1) by simp
  from deq_sees_empty [OF assms(1) this pos(2)] show ?thesis
  proof
    assume "h_deq (qs_h s) < length (h_items (qs_h s)) \<and> h_phase (qs_h s) ! h_deq (qs_h s) \<in> {Claimed, Written}"
    then have "Some (h_deq (qs_h s)) \<in> publisher ` set (qs_ops s)"
      using assms(2) by (auto simp: claims_ok_def unpublished_def)
    then show ?thesis by (auto simp: image_iff)
  qed (simp add: contents_def)
qed

section \<open>Properties\<close>

text \<open>
  C16: Construction ends, or does not: \<open>newMPMC\<close> returns exactly for sizes up to \<open>2\<^sup>6\<^sup>2\<close>, with the least
  power of two that is at least 2 and at least the size; for larger sizes the rounding loop
  shifts its variable to zero and never ends.
\<close>

theorem newMPMC_termination:
  "(newMPMC sz = (None :: 'a mpmc option) \<longleftrightarrow> 2 ^ 62 < sint sz) \<and>
   (\<forall>q :: 'a mpmc. newMPMC sz = Some q \<longrightarrow>
     (\<exists>k. length (q_buf q) = 2 ^ k \<and> 0 < k \<and> sint sz \<le> 2 ^ k \<and> (1 < k \<longrightarrow> 2 ^ (k - 1) < sint sz)))"
proof -
  have "round_up sz (2 ^ 1) = None \<longleftrightarrow> 2 ^ 62 < sint sz"
    using round_up_loops [of sz 1] round_up_returns [of sz 1] by fastforce
  moreover have "newMPMC sz = (None :: 'a mpmc option) \<longleftrightarrow> round_up sz (2 ^ 1) = None"
    by (simp add: newMPMC_def split: option.split)
  moreover have "\<exists>k. length (q_buf q) = 2 ^ k \<and> 0 < k \<and> sint sz \<le> 2 ^ k \<and> (1 < k \<longrightarrow> 2 ^ (k - 1) < sint sz)"
    if "newMPMC sz = Some q" for q :: "'a mpmc"
    using newMPMC_shape [OF that] by blast
  ultimately show ?thesis by (intro conjI allI impI) (simp only:, assumption)
qed

definition demo_queue :: "nat mpmc" where
  "demo_queue = \<lparr>q_buf = map (\<lambda>i. \<lparr>cl_seq = of_nat i, cl_val = None\<rparr>) [0..<4], q_mask = 3, q_enq = 0, q_deq = 0\<rparr>"

lemma newMPMC_demo: "newMPMC 3 = Some demo_queue"
proof -
  have "round_up 3 2 = Some 4" by (simp add: round_up.simps [of 3])
  then show ?thesis by (simp add: newMPMC_def demo_queue_def)
qed

theorem newMPMC_termination_witness:
  "\<exists>q :: nat mpmc. newMPMC 3 = Some q \<and> (\<exists>k. length (q_buf q) = 2 ^ k \<and> 3 \<le> (2 :: int) ^ k)"
proof -
  have "newMPMC 3 = Some demo_queue \<longrightarrow> (\<exists>k. length (q_buf demo_queue) = 2 ^ k \<and> 0 < k
      \<and> sint (3 :: u64) \<le> 2 ^ k \<and> (1 < k \<longrightarrow> 2 ^ (k - 1) < sint (3 :: u64)))"
    using newMPMC_termination [of 3, where 'a = nat] by blast
  then show ?thesis using newMPMC_demo by auto
qed

lemma qstep_contents:
  assumes inv: "qinv n s" and step: "qstep s s'"
  shows "contents s' = contents s
       \<or> (\<exists>i v pos. i < length (qs_ops s) \<and> qs_ops s ! i = OpEnq v (ECas pos) \<and> qs_ops s' ! i = OpEnq v (EVal pos) \<and> contents s' = contents s @ [v])
       \<or> (\<exists>i x pos. i < length (qs_ops s) \<and> qs_ops s ! i = OpDeq (DCas pos) \<and> qs_ops s' ! i = OpDeq (DVal pos) \<and> contents s = x # contents s'
            \<and> h_items (qs_h s') ! unat pos = x)"
  using step
proof cases
  case (q_enq i v pc)
  then show ?thesis
    using enq_contents [OF inv q_enq(2,3)]
  proof (cases "\<exists>pos. pc = ECas pos \<and> q_enq (qs_q s) = pos")
    case True
    then obtain pos where pos: "pc = ECas pos" "q_enq (qs_q s) = pos" by blast
    then have "qs_ops s' ! i = OpEnq v (EVal pos)" using q_enq by (simp add: run_enq_def)
    then show ?thesis using enq_contents [OF inv q_enq(2,3)] True q_enq pos(1) by auto
  qed simp
next
  case (q_deq i pc)
  show ?thesis
  proof (cases "\<exists>pos. pc = DCas pos \<and> q_deq (qs_q s) = pos")
    case True
    then obtain pos where pos: "pc = DCas pos" "q_deq (qs_q s) = pos" by blast
    then have "unat pos = h_deq (qs_h s)"
      using qinvD(5) [OF inv] unat_cursor [of "h_deq (qs_h s)"] cursor_facts(3,4) [OF inv] by simp
    moreover have "qs_ops s' ! i = OpDeq (DVal pos)" "h_items (qs_h s') = h_items (qs_h s)"
      using q_deq pos by (simp_all add: run_deq_def)
    ultimately show ?thesis using deq_contents [OF inv q_deq(2,3)] True q_deq pos(1) by auto
  next
    case False
    then have "contents s' = contents s" using deq_contents [OF inv q_deq(2,3)] q_deq(1) by (simp only: if_False)
    then show ?thesis by blast
  qed
qed (simp_all add: contents_def)

text \<open>
  C12: The lock-free queue is a bounded first-in first-out queue, whatever the interleaving of the
  memory accesses of any number of goroutines (within \<open>2\<^sup>6\<^sup>2\<close> enqueues, so that positions do not
  wrap): every step leaves the contents as they are, or is the successful compare-and-swap of an
  enqueue and appends its element, or is the successful compare-and-swap of a dequeue and
  removes the oldest element, which is the value that dequeue will return; the contents never
  exceed the capacity.
\<close>

theorem mpmc_fifo:
  assumes "newMPMC sz = Some q" "qstep\<^sup>*\<^sup>* (qs_start q m) s" "qstep s s'" "length (h_items (qs_h s')) < 2 ^ 62"
  shows "length (contents s') \<le> length (q_buf q)
    \<and> (contents s' = contents s
       \<or> (\<exists>i v pos. i < length (qs_ops s) \<and> qs_ops s ! i = OpEnq v (ECas pos) \<and> qs_ops s' ! i = OpEnq v (EVal pos) \<and> contents s' = contents s @ [v])
       \<or> (\<exists>i x pos. i < length (qs_ops s) \<and> qs_ops s ! i = OpDeq (DCas pos) \<and> qs_ops s' ! i = OpDeq (DVal pos) \<and> contents s = x # contents s'
            \<and> h_items (qs_h s') ! unat pos = x))
    \<and> (\<forall>x \<in> set (qs_ops s'). \<forall>pos v. x = OpDeq (DPub pos v) \<longrightarrow> v = Some (h_items (qs_h s') ! unat pos))"
proof -
  have inv': "qinv (length (q_buf q)) s'"
    using qinv_reach [OF assms(1) _ assms(4)] assms(2,3) by (meson rtranclp.rtrancl_into_rtrancl)
  have inv: "qinv (length (q_buf q)) s"
    using qinv_reach [OF assms(1,2)] items_mono [OF assms(3)] assms(4) by simp
  have "length (contents s') \<le> length (q_buf q)"
    using hist_bounds(4) [OF qinvD(6,1) [OF inv']] by (simp add: contents_def)
  moreover have "\<forall>x \<in> set (qs_ops s'). \<forall>pos v. x = OpDeq (DPub pos v) \<longrightarrow> v = Some (h_items (qs_h s') ! unat pos)"
    using inv' by (fastforce simp: qinv_def)
  ultimately show ?thesis using qstep_contents [OF inv assms(3)] by blast
qed

text \<open>Two goroutines enqueue; both have claimed a position and are about to write their value.\<close>

definition demo_claim :: "nat \<Rightarrow> nat \<Rightarrow> nat qsys \<Rightarrow> nat qsys" where
  "demo_claim i v s =
     (let s1 = run_enq i v ELoad (s\<lparr>qs_ops := (qs_ops s)[i := OpEnq v ELoad]\<rparr>)
      in run_enq i v (ESeq (of_nat i)) s1)"

definition demo_racing :: "nat qsys" where
  "demo_racing = demo_claim 1 8 (run_enq 0 7 (ECas 0) (demo_claim 0 7 (qs_start demo_queue 2)))"

lemma demo_claim_reach:
  assumes "i < length (qs_ops s)" "qs_ops s ! i = OpNone" "q_enq (qs_q s) = of_nat i"
  shows "qstep\<^sup>*\<^sup>* s (demo_claim i v s)"
proof -
  let ?s0 = "s\<lparr>qs_ops := (qs_ops s)[i := OpEnq v ELoad]\<rparr>"
  have "qstep s ?s0" using assms by (intro q_begin_enq)
  moreover have "qstep ?s0 (run_enq i v ELoad ?s0)" using assms by (intro q_enq) simp_all
  moreover have "qstep (run_enq i v ELoad ?s0) (demo_claim i v s)"
    unfolding demo_claim_def Let_def using assms by (intro q_enq) (simp_all add: run_enq_def)
  ultimately show ?thesis by (meson converse_rtranclp_into_rtranclp rtranclp.rtrancl_refl)
qed

lemma demo_first:
  "qstep\<^sup>*\<^sup>* (qs_start demo_queue 2) (demo_claim 0 7 (qs_start demo_queue 2))"
  "qstep (demo_claim 0 7 (qs_start demo_queue 2)) (run_enq 0 7 (ECas 0) (demo_claim 0 7 (qs_start demo_queue 2)))"
proof -
  show "qstep\<^sup>*\<^sup>* (qs_start demo_queue 2) (demo_claim 0 7 (qs_start demo_queue 2))"
    by (rule demo_claim_reach) (simp_all add: qs_start_def demo_queue_def)
  have "length (qs_ops (demo_claim 0 7 (qs_start demo_queue 2))) = 2"
    "qs_ops (demo_claim 0 7 (qs_start demo_queue 2)) ! 0 = OpEnq 7 (ECas 0)" by code_simp+
  then show "qstep (demo_claim 0 7 (qs_start demo_queue 2)) (run_enq 0 7 (ECas 0) (demo_claim 0 7 (qs_start demo_queue 2)))"
    by (intro q_enq) simp_all
qed

theorem mpmc_fifo_witness:
  "contents (run_enq 0 7 (ECas 0) (demo_claim 0 7 (qs_start demo_queue 2))) = [7]
   \<and> length (contents (run_enq 0 7 (ECas 0) (demo_claim 0 7 (qs_start demo_queue 2)))) \<le> length (q_buf demo_queue)"
proof -
  have "length (h_items (qs_h (run_enq 0 7 (ECas 0) (demo_claim 0 7 (qs_start demo_queue 2))))) = 1"
    "contents (run_enq 0 7 (ECas 0) (demo_claim 0 7 (qs_start demo_queue 2))) = [7]" by code_simp+
  then show ?thesis using mpmc_fifo [OF newMPMC_demo demo_first] by simp
qed

text \<open>
  C13: Freedom from data races: the plain accesses to the cells' values are never concurrent. In no
  reachable state are two goroutines about to access the value of one and the same cell.
\<close>

theorem mpmc_race_free:
  assumes "newMPMC sz = Some q" "qstep\<^sup>*\<^sup>* (qs_start q m) s" "length (h_items (qs_h s)) < 2 ^ 62"
    and "i < length (qs_ops s)" "j < length (qs_ops s)" "i \<noteq> j"
    and "val_access (qs_ops s ! i) = Some a" "val_access (qs_ops s ! j) = Some b"
  shows "unat (a AND q_mask (qs_q s)) \<noteq> unat (b AND q_mask (qs_q s))"
  using owned_distinct_cells [OF qinv_reach [OF assms(1-3)] assms(4-6)] assms(7,8) val_access_owned by blast

theorem mpmc_race_free_witness:
  "val_access (OpEnq (7 :: nat) (EVal 0)) = Some 0 \<and> unat ((0 :: u64) AND 3) \<noteq> unat ((1 :: u64) AND 3)"
proof -
  let ?s = "run_enq 1 8 (ECas 1) demo_racing"
  let ?s1 = "run_enq 0 7 (ECas 0) (demo_claim 0 7 (qs_start demo_queue 2))"
  have "length (qs_ops ?s1) = 2" "qs_ops ?s1 ! 1 = OpNone" "q_enq (qs_q ?s1) = 1" by code_simp+
  then have "qstep\<^sup>*\<^sup>* ?s1 demo_racing" unfolding demo_racing_def by (intro demo_claim_reach) simp_all
  moreover have ops: "qs_ops demo_racing ! 1 = OpEnq 8 (ECas 1)" "length (qs_ops demo_racing) = 2"
    "qs_ops ?s ! 0 = OpEnq 7 (EVal 0)" "qs_ops ?s ! 1 = OpEnq 8 (EVal 1)" "length (qs_ops ?s) = 2"
    "length (h_items (qs_h ?s)) = 2" "q_mask (qs_q ?s) = 3"
    by code_simp+
  moreover from ops have "qstep demo_racing ?s" by (intro q_enq) simp_all
  ultimately have "qstep\<^sup>*\<^sup>* (qs_start demo_queue 2) ?s" using demo_first by (meson rtranclp.rtrancl_into_rtrancl rtranclp_trans)
  from mpmc_race_free [OF newMPMC_demo this, of 0 1] ops show ?thesis by simp
qed

end
