(* ===== verification/Transport_Disruptor.thy ===== *)
theory Transport_Disruptor
  imports Transport_Spec MPMC_Queue
begin

text \<open>
  \<open>DisruptorTransport\<close> of \<open>transport_disruptor.go\<close>: producers, closers and one worker around the
  lock-free queue, with every memory access of the queue, every access to \<open>closed\<close> and \<open>dropped\<close>
  and every call of the sink as a step of its own. The system implements the abstract
  transport, except that it does not stop admitting records when it is closed.
\<close>

section \<open>The transport\<close>

record DisruptorTransport =
  dt_q :: "Record mpmc"
  dt_policy :: OverflowPolicy
  dt_dropped :: u64
  dt_closed :: bool
  dt_done :: bool

definition dis_capacity :: "u64 \<Rightarrow> u64" where
  "dis_capacity capacity = (if sint capacity < 2 then 1024 else capacity)"

definition NewDisruptorTransport :: "u64 \<Rightarrow> OverflowPolicy \<Rightarrow> DisruptorTransport option" where
  "NewDisruptorTransport capacity policy =
     (case newMPMC (dis_capacity capacity) of
        None \<Rightarrow> None
      | Some q \<Rightarrow> Some \<lparr>dt_q = q, dt_policy = policy, dt_dropped = 0, dt_closed = False, dt_done = False\<rparr>)"

text \<open>
  Goroutines calling \<open>Dispatch\<close>, \<open>Sync\<close> or \<open>Close\<close>: in \<open>enqueue\<close>, yielding before the next attempt,
  before the counter updates, in the \<open>dequeue\<close> that evicts, waiting for \<open>done\<close>, and at the two
  sink calls of \<open>Close\<close>. The worker: in the \<open>dequeue\<close> of its main loop and of its final drain, with
  the value taken, before the test of \<open>closed\<close>, and around the closing of \<open>done\<close>. Its counter \<open>idle\<close>
  selects between two identical branches and is left out.
\<close>

datatype dis_pc = DisIdle | DisEnq Record enq_pc | DisYield Record | DisCountNewest
  | DisEvict Record "Record deq_pc" | DisCountOldest Record
  | DisAwaitDone | DisSyncSink | DisCloseSink

datatype dis_worker = WDeq "Record deq_pc" | WEmit "Record option" | WCheckClosed
  | WDrain "Record deq_pc" | WDrainEmit "Record option" | WFinish | WDone

record dis_sys =
  ds_t :: DisruptorTransport
  ds_worker :: dis_worker
  ds_threads :: "dis_pc list"
  ds_calls :: "sink_call list"
  ds_h :: "Record hist"
  ds_offered :: "Record list"
  ds_lost :: "Record list"

definition dis_start :: "DisruptorTransport \<Rightarrow> nat \<Rightarrow> dis_sys" where
  "dis_start t n =
     \<lparr>ds_t = t, ds_worker = WDeq DLoad, ds_threads = replicate n DisIdle, ds_calls = [],
      ds_h = \<lparr>h_items = [], h_phase = [], h_deq = 0\<rparr>, ds_offered = [], ds_lost = []\<rparr>"

text \<open>Where \<open>Dispatch\<close> goes on after a step of its \<open>enqueue\<close>, and of its evicting \<open>dequeue\<close>.\<close>

fun enq_cont :: "OverflowPolicy \<Rightarrow> Record \<Rightarrow> enq_pc + bool \<Rightarrow> dis_pc" where
  "enq_cont p c (Inl pc) = DisEnq c pc"
| "enq_cont p c (Inr True) = DisIdle"
| "enq_cont Block c (Inr False) = DisYield c"
| "enq_cont DropNewest c (Inr False) = DisCountNewest"
| "enq_cont DropOldest c (Inr False) = DisEvict c DLoad"

fun evict_cont :: "Record \<Rightarrow> Record deq_pc + (Record option \<times> bool) \<Rightarrow> dis_pc" where
  "evict_cont c (Inl pc) = DisEvict c pc"
| "evict_cont c (Inr (v, True)) = DisCountOldest c"
| "evict_cont c (Inr (v, False)) = DisEnq c ELoad"

fun run_cont :: "Record deq_pc + (Record option \<times> bool) \<Rightarrow> dis_worker" where
  "run_cont (Inl pc) = WDeq pc"
| "run_cont (Inr (v, True)) = WEmit v"
| "run_cont (Inr (v, False)) = WCheckClosed"

fun drain_cont :: "Record deq_pc + (Record option \<times> bool) \<Rightarrow> dis_worker" where
  "drain_cont (Inl pc) = WDrain pc"
| "drain_cont (Inr (v, True)) = WDrainEmit v"
| "drain_cont (Inr (v, False)) = WFinish"

fun_cases drain_finishE: "drain_cont res = WFinish"

text \<open>Whether a step claims a position; the records claimed and lost are histories.\<close>

definition claims_enq :: "enq_pc \<Rightarrow> Record mpmc \<Rightarrow> bool" where
  "claims_enq pc q = (case pc of ECas pos \<Rightarrow> q_enq q = pos | _ \<Rightarrow> False)"

definition claims_deq :: "Record deq_pc \<Rightarrow> Record mpmc \<Rightarrow> bool" where
  "claims_deq pc q = (case pc of DCas pos \<Rightarrow> q_deq q = pos | _ \<Rightarrow> False)"

definition dis_enqueue :: "nat \<Rightarrow> Record \<Rightarrow> enq_pc \<Rightarrow> dis_sys \<Rightarrow> dis_sys" where
  "dis_enqueue i c pc s =
     (let t = ds_t s; (res, q) = enqueue c pc (dt_q t); rejected = (res = Inr False \<and> dt_policy t = DropNewest)
      in s\<lparr>ds_t := t\<lparr>dt_q := q\<rparr>,
           ds_threads := (ds_threads s)[i := enq_cont (dt_policy t) c res],
           ds_h := hist_enq c pc (dt_q t) (ds_h s),
           ds_offered := (if claims_enq pc (dt_q t) \<or> rejected then ds_offered s @ [c] else ds_offered s),
           ds_lost := (if rejected then ds_lost s @ [c] else ds_lost s)\<rparr>)"

definition dis_evict :: "nat \<Rightarrow> Record \<Rightarrow> Record deq_pc \<Rightarrow> dis_sys \<Rightarrow> dis_sys" where
  "dis_evict i c pc s =
     (let t = ds_t s; h = ds_h s; (res, q) = dequeue pc (dt_q t)
      in s\<lparr>ds_t := t\<lparr>dt_q := q\<rparr>,
           ds_threads := (ds_threads s)[i := evict_cont c res],
           ds_h := hist_deq pc (dt_q t) h,
           ds_lost := (if claims_deq pc (dt_q t) then ds_lost s @ [h_items h ! h_deq h] else ds_lost s)\<rparr>)"

definition dis_run :: "(Record deq_pc + (Record option \<times> bool) \<Rightarrow> dis_worker) \<Rightarrow> Record deq_pc \<Rightarrow> dis_sys \<Rightarrow> dis_sys" where
  "dis_run cont pc s =
     (let t = ds_t s; (res, q) = dequeue pc (dt_q t)
      in s\<lparr>ds_t := t\<lparr>dt_q := q\<rparr>, ds_worker := cont res, ds_h := hist_deq pc (dt_q t) (ds_h s)\<rparr>)"

definition dis_count :: "dis_sys \<Rightarrow> dis_sys" where
  "dis_count s = s\<lparr>ds_t := (ds_t s)\<lparr>dt_dropped := dt_dropped (ds_t s) + 1\<rparr>\<rparr>"

abbreviation goto :: "nat \<Rightarrow> dis_pc \<Rightarrow> dis_sys \<Rightarrow> dis_sys" where
  "goto i pc s \<equiv> s\<lparr>ds_threads := (ds_threads s)[i := pc]\<rparr>"

inductive dis_step :: "dis_sys \<Rightarrow> dis_sys \<Rightarrow> bool" where
  ds_dispatch: "i < length (ds_threads s) \<Longrightarrow> ds_threads s ! i = DisIdle \<Longrightarrow>
     dis_step s (goto i (DisEnq (Clone r) ELoad) s)"
| ds_enqueue: "i < length (ds_threads s) \<Longrightarrow> ds_threads s ! i = DisEnq c pc \<Longrightarrow>
     dis_step s (dis_enqueue i c pc s)"
| ds_yield: "i < length (ds_threads s) \<Longrightarrow> ds_threads s ! i = DisYield c \<Longrightarrow>
     dis_step s (goto i (DisEnq c ELoad) s)"
| ds_count_newest: "i < length (ds_threads s) \<Longrightarrow> ds_threads s ! i = DisCountNewest \<Longrightarrow>
     dis_step s (goto i DisIdle (dis_count s))"
| ds_evict: "i < length (ds_threads s) \<Longrightarrow> ds_threads s ! i = DisEvict c pc \<Longrightarrow>
     dis_step s (dis_evict i c pc s)"
| ds_count_oldest: "i < length (ds_threads s) \<Longrightarrow> ds_threads s ! i = DisCountOldest c \<Longrightarrow>
     dis_step s (goto i (DisEnq c ELoad) (dis_count s))"
| ds_run: "ds_worker s = WDeq pc \<Longrightarrow> dis_step s (dis_run run_cont pc s)"
| ds_emit: "ds_worker s = WEmit (Some x) \<Longrightarrow>
     dis_step s (s\<lparr>ds_worker := WDeq DLoad, ds_calls := ds_calls s @ [SinkEmit x]\<rparr>)"
| ds_check: "ds_worker s = WCheckClosed \<Longrightarrow>
     dis_step s (s\<lparr>ds_worker := (if dt_closed (ds_t s) then WDrain DLoad else WDeq DLoad)\<rparr>)"
| ds_drain: "ds_worker s = WDrain pc \<Longrightarrow> dis_step s (dis_run drain_cont pc s)"
| ds_drain_emit: "ds_worker s = WDrainEmit (Some x) \<Longrightarrow>
     dis_step s (s\<lparr>ds_worker := WDrain DLoad, ds_calls := ds_calls s @ [SinkEmit x]\<rparr>)"
| ds_finish: "ds_worker s = WFinish \<Longrightarrow>
     dis_step s (s\<lparr>ds_worker := WDone, ds_t := (ds_t s)\<lparr>dt_done := True\<rparr>\<rparr>)"
| ds_sync: "i < length (ds_threads s) \<Longrightarrow> ds_threads s ! i = DisIdle \<Longrightarrow>
     dis_step s (s\<lparr>ds_calls := ds_calls s @ [SinkSync]\<rparr>)"
| ds_close: "i < length (ds_threads s) \<Longrightarrow> ds_threads s ! i = DisIdle \<Longrightarrow>
     dis_step s (goto i (if dt_closed (ds_t s) then DisIdle else DisAwaitDone)
       (s\<lparr>ds_t := (ds_t s)\<lparr>dt_closed := True\<rparr>\<rparr>))"
| ds_close_done: "i < length (ds_threads s) \<Longrightarrow> ds_threads s ! i = DisAwaitDone \<Longrightarrow> dt_done (ds_t s) \<Longrightarrow>
     dis_step s (goto i DisSyncSink s)"
| ds_close_sync: "i < length (ds_threads s) \<Longrightarrow> ds_threads s ! i = DisSyncSink \<Longrightarrow>
     dis_step s (goto i DisCloseSink (s\<lparr>ds_calls := ds_calls s @ [SinkSync]\<rparr>))"
| ds_close_sink: "i < length (ds_threads s) \<Longrightarrow> ds_threads s ! i = DisCloseSink \<Longrightarrow>
     dis_step s (goto i DisIdle (s\<lparr>ds_calls := ds_calls s @ [SinkClose]\<rparr>))"

section \<open>The queue inside\<close>

fun worker_op :: "dis_worker \<Rightarrow> Record op" where
  "worker_op (WDeq pc) = OpDeq pc"
| "worker_op (WDrain pc) = OpDeq pc"
| "worker_op w = OpNone"

fun thread_op :: "dis_pc \<Rightarrow> Record op" where
  "thread_op (DisEnq c pc) = OpEnq c pc"
| "thread_op (DisEvict c pc) = OpDeq pc"
| "thread_op pc = OpNone"

definition qsys_of :: "dis_sys \<Rightarrow> Record qsys" where
  "qsys_of s = \<lparr>qs_q = dt_q (ds_t s), qs_h = ds_h s, qs_ops = worker_op (ds_worker s) # map thread_op (ds_threads s)\<rparr>"

lemma enq_cont_op:
  "thread_op (enq_cont p c res) = (if p = DropOldest \<and> res = Inr False then OpDeq DLoad else enq_next c res)"
  by (cases "(p, c, res)" rule: enq_cont.cases) auto

lemma evict_cont_op:
  "thread_op (evict_cont c res) = (if \<exists>v. res = Inr (v, False) then OpEnq c ELoad else deq_next res)"
  by (cases "(c, res)" rule: evict_cont.cases) auto

lemma cont_op [simp]: "worker_op (run_cont res) = deq_next res" "worker_op (drain_cont res) = deq_next res"
  by (cases res rule: run_cont.cases; simp)+

lemma qsys_goto: "qsys_of (goto i pc s) = (qsys_of s)\<lparr>qs_ops := (qs_ops (qsys_of s))[Suc i := thread_op pc]\<rparr>"
  by (simp add: qsys_of_def map_update)

lemma qsys_enqueue:
  assumes "i < length (ds_threads s)" "ds_threads s ! i = DisEnq c pc"
  shows "qstep\<^sup>*\<^sup>* (qsys_of s) (qsys_of (dis_enqueue i c pc s))"
proof -
  let ?q = "qsys_of s" and ?q1 = "run_enq (Suc i) c pc (qsys_of s)"
  obtain res q where res: "enqueue c pc (dt_q (ds_t s)) = (res, q)" by fastforce
  have 1: "qstep ?q ?q1" using assms by (intro q_enq) (simp_all add: qsys_of_def)
  show ?thesis
  proof (cases "dt_policy (ds_t s) = DropOldest \<and> res = Inr False")
    case True
    have "qstep ?q1 (?q1\<lparr>qs_ops := (qs_ops ?q1)[Suc i := OpDeq DLoad]\<rparr>)"
      using assms True res by (intro q_begin_deq) (simp_all add: run_enq_def qsys_of_def)
    moreover have "qsys_of (dis_enqueue i c pc s) = ?q1\<lparr>qs_ops := (qs_ops ?q1)[Suc i := OpDeq DLoad]\<rparr>"
      using True res by (simp add: qsys_of_def dis_enqueue_def run_enq_def map_update enq_cont_op Let_def)
    ultimately show ?thesis using 1 by (metis r_into_rtranclp rtranclp.rtrancl_into_rtrancl)
  next
    case False
    then have "qsys_of (dis_enqueue i c pc s) = ?q1"
      using res by (auto simp: qsys_of_def dis_enqueue_def run_enq_def map_update enq_cont_op Let_def)
    then show ?thesis using 1 by simp
  qed
qed

lemma qsys_evict:
  assumes "i < length (ds_threads s)" "ds_threads s ! i = DisEvict c pc"
  shows "qstep\<^sup>*\<^sup>* (qsys_of s) (qsys_of (dis_evict i c pc s))"
proof -
  let ?q = "qsys_of s" and ?q1 = "run_deq (Suc i) pc (qsys_of s)"
  obtain res q where res: "dequeue pc (dt_q (ds_t s)) = (res, q)" by fastforce
  have 1: "qstep ?q ?q1" using assms by (intro q_deq) (simp_all add: qsys_of_def)
  show ?thesis
  proof (cases "\<exists>v. res = Inr (v, False)")
    case True
    have "qstep ?q1 (?q1\<lparr>qs_ops := (qs_ops ?q1)[Suc i := OpEnq c ELoad]\<rparr>)"
      using assms True res by (intro q_begin_enq) (auto simp: run_deq_def qsys_of_def)
    moreover have "qsys_of (dis_evict i c pc s) = ?q1\<lparr>qs_ops := (qs_ops ?q1)[Suc i := OpEnq c ELoad]\<rparr>"
      using True res by (auto simp: qsys_of_def dis_evict_def run_deq_def map_update evict_cont_op Let_def)
    ultimately show ?thesis using 1 by (metis r_into_rtranclp rtranclp.rtrancl_into_rtrancl)
  next
    case False
    then have "qsys_of (dis_evict i c pc s) = ?q1"
      using res by (auto simp: qsys_of_def dis_evict_def run_deq_def map_update evict_cont_op Let_def)
    then show ?thesis using 1 by simp
  qed
qed

lemma qsys_run:
  assumes "worker_op (ds_worker s) = OpDeq pc" "\<And>res. worker_op (cont res) = deq_next res"
  shows "qsys_of (dis_run cont pc s) = run_deq 0 pc (qsys_of s)" "qstep (qsys_of s) (qsys_of (dis_run cont pc s))"
proof -
  show eq: "qsys_of (dis_run cont pc s) = run_deq 0 pc (qsys_of s)"
    using assms(2) by (simp add: qsys_of_def dis_run_def run_deq_def Let_def split: prod.split)
  have "qstep (qsys_of s) (run_deq 0 pc (qsys_of s))"
    using assms(1) by (intro q_deq) (simp_all add: qsys_of_def)
  then show "qstep (qsys_of s) (qsys_of (dis_run cont pc s))" using eq by simp
qed

lemma qsys_begin:
  assumes "i < length (ds_threads s)" "thread_op (ds_threads s ! i) = OpNone"
  shows "qstep (qsys_of s) (qsys_of (goto i (DisEnq c ELoad) s))"
  unfolding qsys_goto using assms by (simp, intro q_begin_enq) (simp_all add: qsys_of_def)

lemma op_quiet:
  "i < length ts \<Longrightarrow> thread_op (ts ! i) = OpNone \<Longrightarrow> (map thread_op ts)[i := OpNone] = map thread_op ts"
  by (simp add: list_update_same_conv)

lemma qsys_frame [simp]:
  "qsys_of (dis_count s) = qsys_of s" "qsys_of (s\<lparr>ds_calls := cs\<rparr>) = qsys_of s"
  "qsys_of (s\<lparr>ds_t := (ds_t s)\<lparr>dt_closed := b\<rparr>\<rparr>) = qsys_of s"
  by (simp_all add: qsys_of_def dis_count_def)

lemma worker_begin:
  assumes "worker_op (ds_worker s) = OpNone" "worker_op w = OpDeq DLoad"
  shows "qstep (qsys_of s) (qsys_of (s\<lparr>ds_worker := w\<rparr>))"
  using q_begin_deq [of 0 "qsys_of s"] assms by (simp add: qsys_of_def)

lemma dis_step_queue:
  assumes "dis_step s s'"
  shows "qstep\<^sup>*\<^sup>* (qsys_of s) (qsys_of s')"
  using assms
proof cases
  case (ds_dispatch i r)
  then show ?thesis using qsys_begin [of i s "Clone r"] by auto
next
  case (ds_yield i c)
  then show ?thesis using qsys_begin [of i s c] by auto
next
  case (ds_count_oldest i c)
  then show ?thesis using qsys_begin [of i s c] by (auto simp: dis_count_def qsys_of_def)
next
  case (ds_enqueue i c pc)
  then show ?thesis using qsys_enqueue by simp
next
  case (ds_evict i c pc)
  then show ?thesis using qsys_evict by simp
next
  case (ds_run pc)
  then show ?thesis using qsys_run(2) [of s pc run_cont] by auto
next
  case (ds_drain pc)
  then show ?thesis using qsys_run(2) [of s pc drain_cont] by auto
next
  case (ds_check)
  then show ?thesis using worker_begin [of s "if dt_closed (ds_t s) then WDrain DLoad else WDeq DLoad"] by auto
next
  case (ds_emit x)
  then show ?thesis using worker_begin [of s "WDeq DLoad"] by (auto simp: qsys_of_def)
next
  case (ds_drain_emit x)
  then show ?thesis using worker_begin [of s "WDrain DLoad"] by (auto simp: qsys_of_def)
qed (auto simp: qsys_of_def dis_count_def map_update op_quiet)

section \<open>The invariant\<close>

fun dis_pc_policy :: "OverflowPolicy \<Rightarrow> dis_pc \<Rightarrow> bool" where
  "dis_pc_policy p (DisYield c) = (p = Block)"
| "dis_pc_policy p DisCountNewest = (p = DropNewest)"
| "dis_pc_policy p (DisEvict c pc) = (p = DropOldest)"
| "dis_pc_policy p (DisCountOldest c) = (p = DropOldest)"
| "dis_pc_policy p pc = True"

fun deq_taken :: "'a deq_pc \<Rightarrow> bool" where
  "deq_taken (DVal pos) = True"
| "deq_taken (DNil pos v) = True"
| "deq_taken (DPub pos v) = True"
| "deq_taken pc = False"

text \<open>A loss that has happened and is not counted yet.\<close>

fun dis_counting :: "dis_pc \<Rightarrow> bool" where
  "dis_counting DisCountNewest = True"
| "dis_counting (DisCountOldest c) = True"
| "dis_counting (DisEvict c pc) = deq_taken pc"
| "dis_counting pc = False"

fun worker_ok :: "bool \<Rightarrow> bool \<Rightarrow> dis_worker \<Rightarrow> bool" where
  "worker_ok closed fin (WDeq pc) = (\<not> fin)"
| "worker_ok closed fin (WEmit v) = (\<not> fin \<and> v \<noteq> None)"
| "worker_ok closed fin WCheckClosed = (\<not> fin)"
| "worker_ok closed fin (WDrain pc) = (\<not> fin \<and> closed)"
| "worker_ok closed fin (WDrainEmit v) = (\<not> fin \<and> closed \<and> v \<noteq> None)"
| "worker_ok closed fin WFinish = (\<not> fin \<and> closed)"
| "worker_ok closed fin WDone = (fin \<and> closed)"

definition dis_data_inv :: "OverflowPolicy \<Rightarrow> dis_sys \<Rightarrow> bool" where
  "dis_data_inv p s \<longleftrightarrow>
     dt_policy (ds_t s) = p \<and> cnt (\<lambda>pc. \<not> dis_pc_policy p pc) (ds_threads s) = 0 \<and>
     dt_dropped (ds_t s) + of_nat (cnt dis_counting (ds_threads s)) = of_nat (length (ds_lost s)) \<and>
     worker_ok (dt_closed (ds_t s)) (dt_done (ds_t s)) (ds_worker s)"

definition closing :: "dis_pc \<Rightarrow> bool" where
  "closing pc \<longleftrightarrow> pc \<in> {DisAwaitDone, DisSyncSink, DisCloseSink}"

definition past_done :: "dis_pc \<Rightarrow> bool" where
  "past_done pc \<longleftrightarrow> pc \<in> {DisSyncSink, DisCloseSink}"

definition dis_close_inv :: "dis_sys \<Rightarrow> bool" where
  "dis_close_inv s \<longleftrightarrow>
     cnt closing (ds_threads s) + cnt (\<lambda>c. c = SinkClose) (ds_calls s) \<le> (if dt_closed (ds_t s) then 1 else 0) \<and>
     (0 < cnt past_done (ds_threads s) \<or> SinkClose \<in> set (ds_calls s) \<longrightarrow> dt_done (ds_t s)) \<and>
     no_emit_after_close (ds_calls s)"

definition dis_inv :: "nat \<Rightarrow> OverflowPolicy \<Rightarrow> dis_sys \<Rightarrow> bool" where
  "dis_inv n p s \<longleftrightarrow> qinv n (qsys_of s) \<and> dis_data_inv p s \<and> dis_close_inv s"

lemma dis_policy_at:
  assumes "dis_data_inv p s" "i < length (ds_threads s)"
  shows "dis_pc_policy p (ds_threads s ! i)"
  using assms by (auto simp: dis_data_inv_def cnt_zero)

lemma enq_cont_class:
  "dis_pc_policy p (enq_cont p c res)" "\<not> closing (enq_cont p c res)" "\<not> past_done (enq_cont p c res)"
  "dis_counting (enq_cont p c res) \<longleftrightarrow> p = DropNewest \<and> res = Inr False"
  by (cases "(p, c, res)" rule: enq_cont.cases; simp add: closing_def past_done_def)+

lemma evict_cont_class:
  assumes "dequeue pc q = (res, q')"
  shows "dis_pc_policy DropOldest (evict_cont c res)" "\<not> closing (evict_cont c res)" "\<not> past_done (evict_cont c res)"
    "dis_counting (evict_cont c res) \<longleftrightarrow> deq_taken pc \<or> claims_deq pc q"
  using assms by (cases pc; auto simp: closing_def past_done_def claims_deq_def Let_def split: if_splits)+

lemma dis_enqueue_data:
  assumes inv: "dis_data_inv p s" and i: "i < length (ds_threads s)" "ds_threads s ! i = DisEnq c pc"
  shows "dis_data_inv p (dis_enqueue i c pc s)"
proof -
  have p: "dt_policy (ds_t s) = p" using inv by (simp add: dis_data_inv_def)
  obtain res q where res: "enqueue c pc (dt_q (ds_t s)) = (res, q)" by fastforce
  have "cnt dis_counting ((ds_threads s)[i := enq_cont p c res])
      = cnt dis_counting (ds_threads s) + (if p = DropNewest \<and> res = Inr False then 1 else 0)"
    using i by (simp add: cnt_upd enq_cont_class)
  moreover have "cnt (\<lambda>pc. \<not> dis_pc_policy p pc) ((ds_threads s)[i := enq_cont p c res]) = 0"
    using inv i by (simp add: cnt_upd enq_cont_class dis_data_inv_def)
  ultimately show ?thesis
    using inv res p by (auto simp: dis_data_inv_def dis_enqueue_def Let_def ac_simps)
qed

lemma dis_evict_data:
  assumes inv: "dis_data_inv p s" and i: "i < length (ds_threads s)" "ds_threads s ! i = DisEvict c pc"
  shows "dis_data_inv p (dis_evict i c pc s)"
proof -
  have p: "dt_policy (ds_t s) = p" "p = DropOldest"
    using inv dis_policy_at [OF inv i(1)] i(2) by (simp_all add: dis_data_inv_def)
  obtain res q where res: "dequeue pc (dt_q (ds_t s)) = (res, q)" by fastforce
  note cl = evict_cont_class [OF res, of c]
  have "\<not> (deq_taken pc \<and> claims_deq pc (dt_q (ds_t s)))" by (cases pc) (simp_all add: claims_deq_def)
  then have "cnt dis_counting ((ds_threads s)[i := evict_cont c res])
      = cnt dis_counting (ds_threads s) + (if claims_deq pc (dt_q (ds_t s)) then 1 else 0)"
    using i cl(4) cnt_pos [of i "ds_threads s" dis_counting] by (auto simp: cnt_upd)
  moreover have "cnt (\<lambda>pc. \<not> dis_pc_policy DropOldest pc) ((ds_threads s)[i := evict_cont c res]) = 0"
    using inv i cl(1) p by (simp add: cnt_upd dis_data_inv_def)
  ultimately show ?thesis
    using inv res p by (auto simp: dis_data_inv_def dis_evict_def Let_def ac_simps)
qed

lemma dis_count_data:
  assumes inv: "dis_data_inv p s" and i: "i < length (ds_threads s)" "dis_counting (ds_threads s ! i)"
    and pc: "\<not> dis_counting pc" "dis_pc_policy p pc"
  shows "dis_data_inv p (goto i pc (dis_count s))"
  using inv i pc count_word [OF i pc(1), of "dt_dropped (ds_t s)"]
    cnt_upd [OF i(1), of "\<lambda>pc. \<not> dis_pc_policy p pc" pc]
  by (simp add: dis_data_inv_def dis_count_def)

lemma dis_run_data:
  assumes inv: "dis_data_inv p s" and q: "qinv n (qsys_of s)" and w: "worker_op (ds_worker s) = OpDeq pc"
    and "cont = run_cont \<and> ds_worker s = WDeq pc \<or> cont = drain_cont \<and> ds_worker s = WDrain pc"
  shows "dis_data_inv p (dis_run cont pc s)"
proof -
  have "op_ok n (ds_h s) (OpDeq pc)" using qinvD(9) [OF q, of 0] w by (simp add: qsys_of_def)
  then have "dequeue pc (dt_q (ds_t s)) = (Inr (v, True), q') \<Longrightarrow> v \<noteq> None" for v q'
    by (cases pc) (auto simp: Let_def split: if_splits)
  then have "worker_ok (dt_closed (ds_t s)) (dt_done (ds_t s)) (cont res)"
    if "dequeue pc (dt_q (ds_t s)) = (res, q')" for res q'
    using that assms(4) inv by (cases res rule: run_cont.cases) (auto simp: dis_data_inv_def)
  then show ?thesis using inv by (auto simp: dis_data_inv_def dis_run_def Let_def split: prod.split)
qed

lemma dis_data_step:
  assumes "dis_step s s'" "dis_data_inv p s" "qinv n (qsys_of s)"
  shows "dis_data_inv p s'"
  using assms(1)
proof cases
  case (ds_enqueue i c pc)
  then show ?thesis using dis_enqueue_data assms(2) by simp
next
  case (ds_evict i c pc)
  then show ?thesis using dis_evict_data assms(2) by simp
next
  case (ds_count_newest i)
  then show ?thesis using dis_count_data [OF assms(2), of i DisIdle] by simp
next
  case (ds_count_oldest i c)
  then show ?thesis using dis_count_data [OF assms(2), of i "DisEnq c ELoad"] by simp
next
  case (ds_run pc)
  then show ?thesis using dis_run_data [OF assms(2,3), of pc run_cont] by simp
next
  case (ds_drain pc)
  then show ?thesis using dis_run_data [OF assms(2,3), of pc drain_cont] by simp
qed (use assms(2) in \<open>auto simp: dis_data_inv_def cnt_upd\<close>,
    cases "ds_worker s", simp_all)

lemma closing_thread:
  assumes "dis_close_inv s" "i < length (ds_threads s)"
    "\<not> closing (ds_threads s ! i)" "\<not> closing pc" "\<not> past_done pc"
  shows "cnt closing ((ds_threads s)[i := pc]) = cnt closing (ds_threads s)"
    "cnt past_done ((ds_threads s)[i := pc]) = cnt past_done (ds_threads s)"
  using assms by (simp_all add: cnt_upd past_done_def closing_def)

lemma closing_ops [simp]: "\<not> closing (DisEnq c pc)" "\<not> closing (DisEvict c dpc)"
  by (simp_all add: closing_def)

lemma dis_close_frame:
  assumes "dis_close_inv s" "ds_calls s' = ds_calls s" "dt_closed (ds_t s') = dt_closed (ds_t s)"
    "dt_done (ds_t s') = dt_done (ds_t s)" "ds_threads s' = (ds_threads s)[i := pc]" "i < length (ds_threads s)"
    "\<not> closing (ds_threads s ! i)" "\<not> closing pc" "\<not> past_done pc"
  shows "dis_close_inv s'"
  using assms closing_thread [OF assms(1,6-9)] by (simp add: dis_close_inv_def)

lemma dis_close_emit:
  "dis_close_inv s \<Longrightarrow> \<not> dt_done (ds_t s) \<Longrightarrow> dis_close_inv (s\<lparr>ds_worker := k, ds_calls := ds_calls s @ [SinkEmit x]\<rparr>)"
  by (auto simp: dis_close_inv_def no_emit_after_close_snoc cnt_snoc)

lemma dis_close_closer:
  assumes "dis_close_inv s" "i < length (ds_threads s)"
  shows "ds_threads s ! i = DisAwaitDone \<Longrightarrow> dt_done (ds_t s) \<Longrightarrow> dis_close_inv (goto i DisSyncSink s)"
    "ds_threads s ! i = DisSyncSink \<Longrightarrow> dis_close_inv (goto i DisCloseSink (s\<lparr>ds_calls := ds_calls s @ [SinkSync]\<rparr>))"
    "ds_threads s ! i = DisCloseSink \<Longrightarrow> dis_close_inv (goto i DisIdle (s\<lparr>ds_calls := ds_calls s @ [SinkClose]\<rparr>))"
  using assms cnt_pos [OF assms(2), of closing] cnt_pos [OF assms(2), of past_done]
  by (auto simp: dis_close_inv_def cnt_upd closing_def past_done_def no_emit_after_close_snoc cnt_snoc)

lemma dis_close_step:
  assumes "dis_step s s'" "dis_close_inv s" "dis_data_inv p s"
  shows "dis_close_inv s'"
  using assms(1)
proof cases
  case (ds_dispatch i r)
  then show ?thesis
    by (intro dis_close_frame [OF assms(2), of _ i "DisEnq (Clone r) ELoad"]) (simp_all add: closing_def past_done_def)
next
  case (ds_enqueue i c pc)
  obtain res q where res: "enqueue c pc (dt_q (ds_t s)) = (res, q)" by fastforce
  show ?thesis
    using ds_enqueue res
    by (intro dis_close_frame [OF assms(2), of _ i "enq_cont (dt_policy (ds_t s)) c res"])
      (simp_all add: dis_enqueue_def Let_def enq_cont_class)
next
  case (ds_yield i c)
  then show ?thesis
    by (intro dis_close_frame [OF assms(2), of _ i "DisEnq c ELoad"]) (simp_all add: closing_def past_done_def)
next
  case (ds_count_newest i)
  then show ?thesis
    by (intro dis_close_frame [OF assms(2), of _ i DisIdle]) (simp_all add: dis_count_def closing_def past_done_def)
next
  case (ds_evict i c pc)
  obtain res q where res: "dequeue pc (dt_q (ds_t s)) = (res, q)" by fastforce
  show ?thesis
    using ds_evict res evict_cont_class [OF res, of c]
    by (intro dis_close_frame [OF assms(2), of _ i "evict_cont c res"])
      (simp_all add: dis_evict_def Let_def)
next
  case (ds_count_oldest i c)
  then show ?thesis
    by (intro dis_close_frame [OF assms(2), of _ i "DisEnq c ELoad"])
      (simp_all add: dis_count_def closing_def past_done_def)
next
  case (ds_emit x)
  then show ?thesis using assms(2,3) by (simp add: dis_close_emit dis_data_inv_def)
next
  case (ds_drain_emit x)
  then show ?thesis using assms(2,3) by (simp add: dis_close_emit dis_data_inv_def)
next
  case (ds_close i)
  then show ?thesis using assms(2)
    by (auto simp: dis_close_inv_def cnt_upd closing_def past_done_def)
next
  case (ds_close_done i)
  then show ?thesis using dis_close_closer [OF assms(2)] by simp
next
  case (ds_close_sync i)
  then show ?thesis using dis_close_closer [OF assms(2)] by simp
next
  case (ds_close_sink i)
  then show ?thesis using dis_close_closer [OF assms(2)] by simp
next
  case (ds_run pc)
  then show ?thesis using assms(2) by (auto simp: dis_close_inv_def dis_run_def Let_def split: prod.split)
next
  case (ds_drain pc)
  then show ?thesis using assms(2) by (auto simp: dis_close_inv_def dis_run_def Let_def split: prod.split)
qed (use assms(2) in \<open>auto simp: dis_close_inv_def no_emit_after_close_snoc cnt_snoc\<close>)

text \<open>Steps within the range of positions.\<close>

definition dis_bstep :: "dis_sys \<Rightarrow> dis_sys \<Rightarrow> bool" where
  "dis_bstep s s' \<longleftrightarrow> dis_step s s' \<and> length (h_items (ds_h s')) < 2 ^ 62"

lemma qsteps_mono: "qstep\<^sup>*\<^sup>* s s' \<Longrightarrow> length (h_items (qs_h s)) \<le> length (h_items (qs_h s'))"
  by (induction rule: rtranclp_induct) (auto dest: items_mono)

lemma dis_inv_step: "dis_inv n p s \<Longrightarrow> dis_bstep s s' \<Longrightarrow> dis_inv n p s'"
  using dis_data_step dis_close_step qinv_steps [OF dis_step_queue]
  by (auto simp: dis_inv_def dis_bstep_def qsys_of_def)

lemma dis_steps_mono: "dis_step\<^sup>*\<^sup>* s s' \<Longrightarrow> length (h_items (ds_h s)) \<le> length (h_items (ds_h s'))"
proof (induction rule: rtranclp_induct)
  case (step s1 s2)
  then show ?case using qsteps_mono [OF dis_step_queue [OF step.hyps(2)]] by (simp add: qsys_of_def)
qed simp

lemma dis_bounded_run:
  assumes "dis_step\<^sup>*\<^sup>* s s'" "length (h_items (ds_h s')) < 2 ^ 62"
  shows "dis_bstep\<^sup>*\<^sup>* s s'"
  using assms
proof (induction rule: rtranclp_induct)
  case (step s1 s2)
  have "length (h_items (ds_h s1)) \<le> length (h_items (ds_h s2))"
    using dis_steps_mono [of s1 s2] step.hyps(2) by blast
  then have "dis_bstep\<^sup>*\<^sup>* s s1" using step.IH step.prems by simp
  moreover have "dis_bstep s1 s2" using step by (simp add: dis_bstep_def)
  ultimately show ?case by (rule rtranclp.rtrancl_into_rtrancl)
qed simp

section \<open>Refinement of the abstract transport\<close>

fun deq_item :: "Record hist \<Rightarrow> Record deq_pc \<Rightarrow> Record option" where
  "deq_item h (DVal pos) = Some (h_items h ! unat pos)"
| "deq_item h (DNil pos v) = v"
| "deq_item h (DPub pos v) = v"
| "deq_item h pc = None"

fun worker_item :: "Record hist \<Rightarrow> dis_worker \<Rightarrow> Record option" where
  "worker_item h (WDeq pc) = deq_item h pc"
| "worker_item h (WDrain pc) = deq_item h pc"
| "worker_item h (WEmit v) = v"
| "worker_item h (WDrainEmit v) = v"
| "worker_item h w = None"

definition dis_abs :: "dis_sys \<Rightarrow> Record tstate" where
  "dis_abs s = \<lparr>t_queue = contents (qsys_of s), t_inflight = worker_item (ds_h s) (ds_worker s),
     t_delivered = emitted (ds_calls s), t_offered = ds_offered s, t_lost = ds_lost s,
     t_dropped = length (ds_lost s), t_closed = dt_closed (ds_t s), t_done = dt_done (ds_t s)\<rparr>"

definition dis_cfg :: "nat \<Rightarrow> OverflowPolicy \<Rightarrow> tconfig" where
  "dis_cfg n p = \<lparr>tc_policy = p, tc_cap = n, tc_guarded = False, tc_exact = False\<rparr>"

lemma contents_qsys: "contents (qsys_of s) = drop (h_deq (ds_h s)) (h_items (ds_h s))"
  by (simp add: contents_def qsys_of_def)

lemma worker_item_ok:
  assumes "qinv n (qsys_of s)" "h_items h = h_items (ds_h s) @ xs"
  shows "worker_item h (ds_worker s) = worker_item (ds_h s) (ds_worker s)"
proof -
  have "op_ok n (ds_h s) (worker_op (ds_worker s))" using qinvD(9) [OF assms(1), of 0] by (simp add: qsys_of_def)
  then show ?thesis
    using assms(2) by (cases "(h, ds_worker s)" rule: worker_item.cases; cases "worker_op (ds_worker s)" rule: owned.cases)
      (auto simp: nth_append)
qed

lemma hist_enq_items:
  "h_items (hist_enq c pc q h) = h_items h @ (if claims_enq pc q then [c] else [])"
  "h_deq (hist_enq c pc q h) = h_deq h"
  by (cases pc; simp add: claims_enq_def)+

lemma hist_deq_items:
  "h_items (hist_deq pc q h) = h_items h"
  "h_deq (hist_deq pc q h) = (if claims_deq pc q then Suc (h_deq h) else h_deq h)"
  by (cases pc; simp add: claims_deq_def)+

lemma claims_deq_cursor:
  assumes "qinv n (qsys_of s)" "i < length (qs_ops (qsys_of s))" "qs_ops (qsys_of s) ! i = OpDeq pc"
    and "claims_deq pc (dt_q (ds_t s))"
  shows "\<exists>pos. pc = DCas pos \<and> unat pos = h_deq (ds_h s) \<and> h_deq (ds_h s) < length (h_items (ds_h s))"
proof -
  obtain pos where pos: "pc = DCas pos" "q_deq (dt_q (ds_t s)) = pos"
    using assms(4) by (auto simp: claims_deq_def split: deq_pc.splits)
  have "unat pos = h_deq (ds_h s)"
    using pos(2) qinvD(5) [OF assms(1)] unat_cursor [of "h_deq (ds_h s)"] cursor_facts(3,4) [OF assms(1)]
    by (simp add: qsys_of_def)
  then show ?thesis using qinvD(9) [OF assms(1,2)] assms(3) pos by (simp add: qsys_of_def)
qed

lemma dis_abs_simps [simp]:
  "t_queue (dis_abs s) = contents (qsys_of s)" "t_inflight (dis_abs s) = worker_item (ds_h s) (ds_worker s)"
  "t_delivered (dis_abs s) = emitted (ds_calls s)" "t_offered (dis_abs s) = ds_offered s"
  "t_lost (dis_abs s) = ds_lost s" "t_dropped (dis_abs s) = length (ds_lost s)"
  "t_closed (dis_abs s) = dt_closed (ds_t s)" "t_done (dis_abs s) = dt_done (ds_t s)"
  by (simp_all add: dis_abs_def)

lemma tstate_eqI:
  assumes "t_queue s = t_queue u" "t_inflight s = t_inflight u" "t_delivered s = t_delivered u"
    "t_offered s = t_offered u" "t_lost s = t_lost u" "t_dropped s = t_dropped u"
    "t_closed s = t_closed u" "t_done s = t_done u"
  shows "s = (u :: 'a tstate)"
  using assms by simp

lemma sim_one: "tstep cfg s u \<Longrightarrow> u = s' \<Longrightarrow> (tstep cfg)\<^sup>*\<^sup>* s s'"
  by auto

lemma dis_cfg_simps [simp]:
  "tc_policy (dis_cfg n p) = p" "tc_cap (dis_cfg n p) = n" "\<not> tc_guarded (dis_cfg n p)" "\<not> tc_exact (dis_cfg n p)"
  by (simp_all add: dis_cfg_def)

lemma sim_enqueue:
  assumes inv: "dis_inv n p s" and inv': "dis_inv n p (dis_enqueue i c pc s)"
    and i: "i < length (ds_threads s)" "ds_threads s ! i = DisEnq c pc"
  shows "(tstep (dis_cfg n p))\<^sup>*\<^sup>* (dis_abs s) (dis_abs (dis_enqueue i c pc s))"
proof -
  define s' where "s' = dis_enqueue i c pc s"
  obtain res q where res: "enqueue c pc (dt_q (ds_t s)) = (res, q)" by fastforce
  have q: "qinv n (qsys_of s)" and q': "qinv n (qsys_of s')" and p: "dt_policy (ds_t s) = p"
    using inv inv' by (simp_all add: dis_inv_def dis_data_inv_def s'_def)
  let ?cl = "claims_enq pc (dt_q (ds_t s))" and ?rej = "res = Inr False \<and> p = DropNewest"
  have frame: "ds_worker s' = ds_worker s" "ds_calls s' = ds_calls s" "dt_closed (ds_t s') = dt_closed (ds_t s)"
    "dt_done (ds_t s') = dt_done (ds_t s)" "ds_h s' = hist_enq c pc (dt_q (ds_t s)) (ds_h s)"
    "ds_offered s' = (if ?cl \<or> ?rej then ds_offered s @ [c] else ds_offered s)"
    "ds_lost s' = (if ?rej then ds_lost s @ [c] else ds_lost s)"
    using res p by (simp_all add: s'_def dis_enqueue_def Let_def)
  have cont: "contents (qsys_of s') = contents (qsys_of s) @ (if ?cl then [c] else [])"
    using cursor_facts(4) [OF q] unfolding contents_qsys frame(5) hist_enq_items by (simp add: qsys_of_def)
  have item: "worker_item (ds_h s') (ds_worker s) = worker_item (ds_h s) (ds_worker s)"
    by (rule worker_item_ok [OF q]) (simp only: frame(5) hist_enq_items)
  have len: "length (contents (qsys_of s')) \<le> n"
    using hist_bounds(4) [OF qinvD(6,1) [OF q']] by (simp add: contents_def)
  have "\<not> (?cl \<and> res = Inr False)" using res by (cases pc) (auto simp: claims_enq_def)
  then consider "?cl" "\<not> ?rej" | "\<not> ?cl" "?rej" | "\<not> ?cl" "\<not> ?rej" by blast
  then have "(tstep (dis_cfg n p))\<^sup>*\<^sup>* (dis_abs s) (dis_abs s')"
  proof cases
    case 1
    have "length (t_queue (dis_abs s)) < tc_cap (dis_cfg n p)" using 1(1) cont len by simp
    then show ?thesis
      by (rule sim_one [OF t_offer, of _ _ c]) (use 1 cont item in \<open>simp_all add: dis_abs_def frame(1-4,6,7)\<close>)
  next
    case 2
    then have "tc_policy (dis_cfg n p) = DropNewest" by simp
    then show ?thesis
      by (rule sim_one [OF t_reject, of _ _ c]) (use 2 cont item in \<open>simp_all add: dis_abs_def frame(1-4,6,7)\<close>)
  next
    case 3
    then have "dis_abs s' = dis_abs s" using cont item by (simp add: dis_abs_def frame(1-4,6,7))
    then show ?thesis by simp
  qed
  then show ?thesis by (simp only: s'_def)
qed

lemma sim_evict:
  assumes inv: "dis_inv n p s" and i: "i < length (ds_threads s)" "ds_threads s ! i = DisEvict c pc"
  shows "(tstep (dis_cfg n p))\<^sup>*\<^sup>* (dis_abs s) (dis_abs (dis_evict i c pc s))"
proof -
  define s' where "s' = dis_evict i c pc s"
  obtain res q where res: "dequeue pc (dt_q (ds_t s)) = (res, q)" by fastforce
  have q: "qinv n (qsys_of s)" and p: "p = DropOldest"
    using inv dis_policy_at [of p s i] i by (simp_all add: dis_inv_def)
  let ?cl = "claims_deq pc (dt_q (ds_t s))"
  have frame: "ds_worker s' = ds_worker s" "ds_calls s' = ds_calls s" "dt_closed (ds_t s') = dt_closed (ds_t s)"
    "dt_done (ds_t s') = dt_done (ds_t s)" "ds_h s' = hist_deq pc (dt_q (ds_t s)) (ds_h s)"
    "ds_offered s' = ds_offered s"
    "ds_lost s' = (if ?cl then ds_lost s @ [h_items (ds_h s) ! h_deq (ds_h s)] else ds_lost s)"
    using res by (simp_all add: s'_def dis_evict_def Let_def)
  have item: "worker_item (ds_h s') (ds_worker s) = worker_item (ds_h s) (ds_worker s)"
    by (rule worker_item_ok [OF q, of _ "[]"]) (simp add: frame(5) hist_deq_items)
  have op: "Suc i < length (qs_ops (qsys_of s))" "qs_ops (qsys_of s) ! Suc i = OpDeq pc"
    using i by (simp_all add: qsys_of_def)
  have "(tstep (dis_cfg n p))\<^sup>*\<^sup>* (dis_abs s) (dis_abs s')"
  proof (cases ?cl)
    case True
    have "t_queue (dis_abs s) = h_items (ds_h s) ! h_deq (ds_h s) # contents (qsys_of s')"
      using claims_deq_cursor [OF q op True] True
      by (auto simp: contents_qsys frame(5) hist_deq_items Cons_nth_drop_Suc)
    then show ?thesis
      by (rule sim_one [OF t_evict, rotated]) (use True p item in \<open>simp_all add: dis_abs_def frame(1-4,6,7)\<close>)
  next
    case False
    then have "contents (qsys_of s') = contents (qsys_of s)" by (simp add: contents_qsys frame(5) hist_deq_items)
    then have "dis_abs s' = dis_abs s" using False item by (simp add: dis_abs_def frame(1-4,6,7))
    then show ?thesis by simp
  qed
  then show ?thesis by (simp only: s'_def)
qed

lemma sim_run:
  assumes inv: "dis_inv n p s" and inv': "dis_inv n p (dis_run cont pc s)"
    and w: "cont = run_cont \<and> ds_worker s = WDeq pc \<or> cont = drain_cont \<and> ds_worker s = WDrain pc"
  shows "(tstep (dis_cfg n p))\<^sup>*\<^sup>* (dis_abs s) (dis_abs (dis_run cont pc s))"
proof -
  define s' where "s' = dis_run cont pc s"
  obtain res q where res: "dequeue pc (dt_q (ds_t s)) = (res, q)" by fastforce
  have q: "qinv n (qsys_of s)" and q': "qinv n (qsys_of s')" and fin: "\<not> dt_done (ds_t s)"
    using inv inv' w by (auto simp: dis_inv_def dis_data_inv_def s'_def)
  let ?cl = "claims_deq pc (dt_q (ds_t s))"
  have frame: "ds_worker s' = cont res" "ds_calls s' = ds_calls s" "dt_closed (ds_t s') = dt_closed (ds_t s)"
    "dt_done (ds_t s') = dt_done (ds_t s)" "ds_h s' = hist_deq pc (dt_q (ds_t s)) (ds_h s)"
    "ds_offered s' = ds_offered s" "ds_lost s' = ds_lost s"
    using res by (simp_all add: s'_def dis_run_def Let_def)
  have op: "0 < length (qs_ops (qsys_of s))" "qs_ops (qsys_of s) ! 0 = OpDeq pc"
    using w by (auto simp: qsys_of_def)
  have op': "op_ok n (ds_h s') (worker_op (cont res))"
    using qinvD(9) [OF q', of 0] frame(1) by (simp add: qsys_of_def)
  have items: "h_items (ds_h s') = h_items (ds_h s)" by (simp add: frame(5) hist_deq_items)
  have "(tstep (dis_cfg n p))\<^sup>*\<^sup>* (dis_abs s) (dis_abs s')"
  proof (cases ?cl)
    case True
    obtain pos where pos: "pc = DCas pos" "unat pos = h_deq (ds_h s)" "h_deq (ds_h s) < length (h_items (ds_h s))"
      using claims_deq_cursor [OF q op True] by blast
    have queue: "t_queue (dis_abs s) = h_items (ds_h s) ! h_deq (ds_h s) # contents (qsys_of s')"
      using pos(3) True by (simp add: contents_qsys frame(5) hist_deq_items Cons_nth_drop_Suc)
    have "worker_item (ds_h s') (cont res) = Some (h_items (ds_h s) ! h_deq (ds_h s))"
      using w res True pos(1,2) items by (auto simp: claims_deq_def)
    moreover have "t_inflight (dis_abs s) = None" using w pos(1) by auto
    ultimately show ?thesis
      using fin by (intro sim_one [OF t_take [OF queue]]) (simp_all add: dis_abs_def frame(1-4,6,7))
  next
    case False
    then have "contents (qsys_of s') = contents (qsys_of s)" by (simp add: contents_qsys frame(5) hist_deq_items)
    moreover have "worker_item (ds_h s') (cont res) = worker_item (ds_h s) (ds_worker s)"
      using w res False items op' by (cases pc) (auto simp: claims_deq_def Let_def split: if_splits)
    ultimately have "dis_abs s' = dis_abs s" by (simp add: dis_abs_def frame(1-4,6,7))
    then show ?thesis by simp
  qed
  then show ?thesis by (simp only: s'_def)
qed

lemma dis_abs_goto [simp]: "contents (qsys_of (goto i pc s)) = contents (qsys_of s)"
  by (simp add: contents_qsys)

lemma dis_step_sim:
  assumes inv: "dis_inv n p s" and step: "dis_bstep s s'"
  shows "(tstep (dis_cfg n p))\<^sup>*\<^sup>* (dis_abs s) (dis_abs s')"
proof -
  have inv': "dis_inv n p s'" using inv step by (rule dis_inv_step)
  have wok: "worker_ok (dt_closed (ds_t s)) (dt_done (ds_t s)) (ds_worker s)"
    using inv by (simp add: dis_inv_def dis_data_inv_def)
  have "dis_step s s'" using step by (simp add: dis_bstep_def)
  then show ?thesis
  proof cases
    case (ds_enqueue i c pc)
    then show ?thesis using sim_enqueue [OF inv] inv' by simp
  next
    case (ds_evict i c pc)
    then show ?thesis using sim_evict [OF inv] by simp
  next
    case (ds_run pc)
    then show ?thesis using sim_run [OF inv] inv' by simp
  next
    case (ds_drain pc)
    then show ?thesis using sim_run [OF inv] inv' by simp
  next
    case (ds_emit x)
    then show ?thesis
      by (intro sim_one [OF t_emit [of "dis_abs s" x]]) (simp_all add: dis_abs_def contents_qsys)
  next
    case (ds_drain_emit x)
    then show ?thesis
      by (intro sim_one [OF t_emit [of "dis_abs s" x]]) (simp_all add: dis_abs_def contents_qsys)
  next
    case ds_finish
    then show ?thesis using wok
      by (intro sim_one [OF t_exit [of "dis_abs s"]]) (simp_all add: dis_abs_def contents_qsys)
  next
    case (ds_close i)
    then show ?thesis
      by (intro sim_one [OF t_close [of _ "dis_abs s"]]) (simp_all add: dis_abs_def contents_qsys)
  qed (simp_all add: dis_abs_def contents_qsys dis_count_def)
qed

lemma dis_inv_start:
  assumes "newMPMC sz = Some q"
  shows "dis_inv (length (q_buf q)) p
    (dis_start \<lparr>dt_q = q, dt_policy = p, dt_dropped = 0, dt_closed = False, dt_done = False\<rparr> m)"
proof -
  have "qsys_of (dis_start \<lparr>dt_q = q, dt_policy = p, dt_dropped = 0, dt_closed = False, dt_done = False\<rparr> m)
      = (qs_start q (Suc m))\<lparr>qs_ops := (qs_ops (qs_start q (Suc m)))[0 := OpDeq DLoad]\<rparr>"
    by (simp add: qsys_of_def dis_start_def qs_start_def)
  moreover have "qinv (length (q_buf q)) ((qs_start q (Suc m))\<lparr>qs_ops := (qs_ops (qs_start q (Suc m)))[0 := OpDeq DLoad]\<rparr>)"
    by (rule qinv_step [OF q_begin_deq qinv_start [OF assms]]) (simp_all add: qs_start_def)
  ultimately show ?thesis
    by (simp add: dis_inv_def)
      (simp add: dis_data_inv_def dis_close_inv_def dis_start_def cnt_replicate closing_def past_done_def cnt_def)
qed

text \<open>The disruptor provides the contract of the other transports, except for what follows \<open>Close\<close>.\<close>

interpretation disruptor: transport "dis_cfg (length (q_buf (dt_q t))) p"
  "\<lambda>s. \<exists>capacity n. NewDisruptorTransport capacity p = Some t \<and> s = dis_start t n"
  dis_bstep "dis_inv (length (q_buf (dt_q t))) p" dis_abs for t p
proof unfold_locales
  fix s assume "\<exists>capacity n. NewDisruptorTransport capacity p = Some t \<and> s = dis_start t n"
  then obtain capacity n q where q: "newMPMC (dis_capacity capacity) = Some q"
    and t: "t = \<lparr>dt_q = q, dt_policy = p, dt_dropped = 0, dt_closed = False, dt_done = False\<rparr>" and s: "s = dis_start t n"
    by (auto simp: NewDisruptorTransport_def split: option.splits)
  show "dis_inv (length (q_buf (dt_q t))) p s" using dis_inv_start [OF q] s t by simp
  show "dis_abs s = t_init" by (simp add: s t dis_abs_def t_init_def contents_qsys dis_start_def)
qed (auto intro: dis_inv_step dis_step_sim)

section \<open>Properties\<close>

lemma dis_reach:
  assumes "NewDisruptorTransport capacity p = Some t" "dis_step\<^sup>*\<^sup>* (dis_start t m) s" "length (h_items (ds_h s)) < 2 ^ 62"
  shows "dis_inv (length (q_buf (dt_q t))) p s" "t_inv (dis_cfg (length (q_buf (dt_q t))) p) (dis_abs s)"
  using disruptor.reach_inv [of p t "dis_start t m" s] disruptor.reach_t_inv [of p t "dis_start t m" s]
    dis_bounded_run [OF assms(2,3)] assms(1) by blast+

lemma dis_claims_ok:
  assumes "NewDisruptorTransport capacity p = Some t" "dis_step\<^sup>*\<^sup>* (dis_start t m) s" "length (h_items (ds_h s)) < 2 ^ 62"
  shows "claims_ok (qsys_of s)"
proof -
  obtain q where q: "newMPMC (dis_capacity capacity) = Some q"
    and t: "t = \<lparr>dt_q = q, dt_policy = p, dt_dropped = 0, dt_closed = False, dt_done = False\<rparr>"
    using assms(1) by (auto simp: NewDisruptorTransport_def split: option.splits)
  have "qstep\<^sup>*\<^sup>* (qsys_of (dis_start t m)) (qsys_of s)"
    using assms(2) by (induction rule: rtranclp_induct) (auto dest: dis_step_queue)
  moreover have "qinv (length (q_buf q)) (qsys_of (dis_start t m))"
    using dis_inv_start [OF q, of p m] t by (simp add: dis_inv_def)
  moreover have "claims_ok (qsys_of (dis_start t m))" by (simp add: claims_ok_def qsys_of_def dis_start_def)
  moreover have "length (h_items (qs_h (qsys_of s))) < 2 ^ 62" using assms(3) by (simp add: qsys_of_def)
  ultimately show ?thesis by (rule claims_ok_steps)
qed

text \<open>A schedule: one producer logs a record and closes; later it logs another one.\<close>

definition worker_move :: "dis_sys \<Rightarrow> dis_sys" where
  "worker_move s =
     (case ds_worker s of
        WDeq pc \<Rightarrow> dis_run run_cont pc s
      | WEmit (Some x) \<Rightarrow> s\<lparr>ds_worker := WDeq DLoad, ds_calls := ds_calls s @ [SinkEmit x]\<rparr>
      | WCheckClosed \<Rightarrow> s\<lparr>ds_worker := (if dt_closed (ds_t s) then WDrain DLoad else WDeq DLoad)\<rparr>
      | WDrain pc \<Rightarrow> dis_run drain_cont pc s
      | WFinish \<Rightarrow> s\<lparr>ds_worker := WDone, ds_t := (ds_t s)\<lparr>dt_done := True\<rparr>\<rparr>
      | _ \<Rightarrow> s)"

definition log_move :: "Record \<Rightarrow> dis_sys \<Rightarrow> dis_sys" where
  "log_move r s =
     (case ds_threads s of
        DisEnq c pc # _ \<Rightarrow> dis_enqueue 0 c pc s
      | DisIdle # _ \<Rightarrow> goto 0 (DisEnq (Clone r) ELoad) s
      | _ \<Rightarrow> s)"

lemma worker_move_step: "dis_step\<^sup>*\<^sup>* s (worker_move s)"
proof (cases "ds_worker s")
  case (WEmit v)
  then show ?thesis by (cases v) (auto simp: worker_move_def intro: dis_step.intros)
next
  case WCheckClosed
  then show ?thesis using ds_check [of s] by (simp add: worker_move_def)
qed (auto simp: worker_move_def intro: dis_step.intros)

lemma worker_moves: "dis_step\<^sup>*\<^sup>* s ((worker_move ^^ k) s)"
  by (induction k) (auto intro: rtranclp_trans worker_move_step)

lemma log_move_step: "dis_step\<^sup>*\<^sup>* s (log_move r s)"
proof (cases "ds_threads s")
  case (Cons pc pcs)
  then have "0 < length (ds_threads s)" "ds_threads s ! 0 = pc" by simp_all
  then show ?thesis
    using Cons ds_dispatch [of 0 s r] ds_enqueue [of 0 s] by (cases pc) (auto simp: log_move_def)
qed (simp add: log_move_def)

lemma log_moves: "dis_step\<^sup>*\<^sup>* s ((log_move r ^^ k) s)"
  by (induction k) (auto intro: rtranclp_trans log_move_step)

definition dis_early :: Record where
  "dis_early = zeroRecord\<lparr>rMessage := ''a''\<rparr>"

definition dis_late :: Record where
  "dis_late = zeroRecord\<lparr>rMessage := ''b''\<rparr>"

definition demo_dis :: DisruptorTransport where
  "demo_dis = \<lparr>dt_q = \<lparr>q_buf = [\<lparr>cl_seq = 0, cl_val = None\<rparr>, \<lparr>cl_seq = 1, cl_val = None\<rparr>], q_mask = 1, q_enq = 0, q_deq = 0\<rparr>,
     dt_policy = DropNewest, dt_dropped = 0, dt_closed = False, dt_done = False\<rparr>"

lemma demo_dis_new: "NewDisruptorTransport 2 DropNewest = Some demo_dis"
proof -
  have "round_up 2 2 = Some 2" by (simp add: round_up.simps)
  then show ?thesis by (simp add: NewDisruptorTransport_def dis_capacity_def newMPMC_def demo_dis_def upt_rec)
qed

text \<open>States of the schedule, written out.\<close>

definition dis_at :: "Record cell list \<Rightarrow> u64 \<Rightarrow> u64 \<Rightarrow> bool \<Rightarrow> bool \<Rightarrow> dis_worker \<Rightarrow> dis_pc \<Rightarrow> sink_call list \<Rightarrow>
    Record list \<Rightarrow> phase list \<Rightarrow> nat \<Rightarrow> dis_sys" where
  "dis_at buf e d closed fin w pc calls items phases k =
     \<lparr>ds_t = \<lparr>dt_q = \<lparr>q_buf = buf, q_mask = 1, q_enq = e, q_deq = d\<rparr>, dt_policy = DropNewest, dt_dropped = 0,
        dt_closed = closed, dt_done = fin\<rparr>,
      ds_worker = w, ds_threads = [pc], ds_calls = calls, ds_h = \<lparr>h_items = items, h_phase = phases, h_deq = k\<rparr>,
      ds_offered = items, ds_lost = []\<rparr>"

definition cell_of :: "u64 \<Rightarrow> Record option \<Rightarrow> Record cell" where
  "cell_of n v = \<lparr>cl_seq = n, cl_val = v\<rparr>"

lemma dis_at_start: "dis_start demo_dis 1 =
    dis_at [cell_of 0 None, cell_of 1 None] 0 0 False False (WDeq DLoad) DisIdle [] [] [] 0"
  by (simp add: dis_at_def dis_start_def demo_dis_def cell_of_def)

lemmas demo_simps = eval_nat_numeral log_move_def worker_move_def dis_at_def cell_of_def dis_enqueue_def dis_run_def
  claims_enq_def set_cell_def cell_at_def Let_def

lemma demo_logged:
  "(log_move r ^^ 6) (dis_at [cell_of 0 None, cell_of 1 None] 0 0 False False (WDeq DLoad) DisIdle [] [] [] 0)
   = dis_at [cell_of 1 (Some (Clone r)), cell_of 1 None] 1 0 False False (WDeq DLoad) DisIdle [] [Clone r] [Published] 0"
  by (simp add: demo_simps)

lemma demo_delivered:
  "(worker_move ^^ 9) (dis_at [cell_of 1 (Some x), cell_of 1 None] 1 0 False False (WDeq DLoad) DisIdle [] [x] [Published] 0)
   = dis_at [cell_of 2 None, cell_of 1 None] 1 1 False False WCheckClosed DisIdle [SinkEmit x] [x] [Released] 1"
  by (simp add: demo_simps)

definition dis_closed :: "Record \<Rightarrow> dis_worker \<Rightarrow> dis_sys" where
  "dis_closed x w = dis_at [cell_of 2 None, cell_of 1 None] 1 1 True False w DisAwaitDone [SinkEmit x] [x] [Released] 1"

definition dis_exited :: "Record \<Rightarrow> dis_sys" where
  "dis_exited x = dis_at [cell_of 2 None, cell_of 1 None] 1 1 True True WDone DisIdle [SinkEmit x, SinkSync, SinkClose] [x] [Released] 1"

lemma demo_draining: "(worker_move ^^ 2) (dis_closed x WCheckClosed) = dis_closed x (WDrain (DSeq 1))"
  by (simp add: dis_closed_def demo_simps)

lemma demo_finish: "worker_move (dis_closed x (WDrain (DSeq 1))) = dis_closed x WFinish"
  by (simp add: dis_closed_def demo_simps)

lemma demo_run_closed: "dis_step\<^sup>*\<^sup>* (dis_start demo_dis 1) (dis_closed (Clone r) (WDrain (DSeq 1)))"
proof -
  let ?s = "dis_at [cell_of 2 None, cell_of 1 None] 1 1 False False WCheckClosed DisIdle [SinkEmit (Clone r)] [Clone r] [Released] 1"
  let ?s1 = "dis_at [cell_of 1 (Some (Clone r)), cell_of 1 None] 1 0 False False (WDeq DLoad) DisIdle [] [Clone r] [Published] 0"
  have 1: "dis_step\<^sup>*\<^sup>* (dis_start demo_dis 1) ((log_move r ^^ 6) (dis_start demo_dis 1))" by (rule log_moves)
  have 2: "dis_step\<^sup>*\<^sup>* ?s1 ((worker_move ^^ 9) ?s1)" by (rule worker_moves)
  have "dis_step\<^sup>*\<^sup>* (dis_start demo_dis 1) ?s"
    using rtranclp_trans [OF 1 [unfolded dis_at_start demo_logged] 2 [unfolded demo_delivered]] by (simp only: dis_at_start)
  moreover have "dis_step ?s (dis_closed (Clone r) WCheckClosed)"
    using ds_close [of 0 ?s] by (simp add: dis_closed_def dis_at_def)
  moreover have "dis_step\<^sup>*\<^sup>* (dis_closed (Clone r) WCheckClosed) (dis_closed (Clone r) (WDrain (DSeq 1)))"
    using worker_moves [of "dis_closed (Clone r) WCheckClosed" 2] unfolding demo_draining .
  ultimately show ?thesis by (meson converse_rtranclp_into_rtranclp rtranclp_trans)
qed

lemma demo_step_finish: "dis_step (dis_closed x (WDrain (DSeq 1))) (dis_closed x WFinish)"
  using ds_drain [of "dis_closed x (WDrain (DSeq 1))" "DSeq 1"] demo_finish [of x]
  by (simp add: worker_move_def dis_closed_def dis_at_def)

lemma demo_run_exited: "dis_step\<^sup>*\<^sup>* (dis_start demo_dis 1) (dis_exited (Clone r))"
proof -
  let ?x = "Clone r"
  let ?s = "\<lambda>pc calls. dis_at [cell_of 2 None, cell_of 1 None] 1 1 True True WDone pc ([SinkEmit ?x] @ calls) [?x] [Released] 1"
  have "dis_step (dis_closed ?x WFinish) (?s DisAwaitDone [])"
    using ds_finish [of "dis_closed ?x WFinish"] by (simp add: dis_closed_def dis_at_def)
  moreover have "dis_step (?s DisAwaitDone []) (?s DisSyncSink [])"
    using ds_close_done [of 0 "?s DisAwaitDone []"] by (simp add: dis_at_def)
  moreover have "dis_step (?s DisSyncSink []) (?s DisCloseSink [SinkSync])"
    using ds_close_sync [of 0 "?s DisSyncSink []"] by (simp add: dis_at_def)
  moreover have "dis_step (?s DisCloseSink [SinkSync]) (dis_exited ?x)"
    using ds_close_sink [of 0 "?s DisCloseSink [SinkSync]"] by (simp add: dis_at_def dis_exited_def)
  ultimately show ?thesis
    using demo_run_closed [of r] demo_step_finish [of ?x] by (meson rtranclp.rtrancl_into_rtrancl)
qed

text \<open>A record logged after that is accepted, counted nowhere and never delivered.\<close>

lemma demo_logged_late:
  "(log_move r ^^ 6) (dis_exited x) =
     dis_at [cell_of 2 None, cell_of 2 (Some (Clone r))] 2 1 True True WDone DisIdle [SinkEmit x, SinkSync, SinkClose]
       [x, Clone r] [Released, Published] 1"
  by (simp add: dis_exited_def demo_simps)

text \<open>
  C14: Accounting of the lock-free transport, over every interleaving of memory accesses (and fewer
  than \<open>2\<^sup>6\<^sup>2\<close> records): every record accepted by \<open>Dispatch\<close> was emitted, is in the worker's hands,
  is queued, or was lost to the overflow policy, each exactly once; what reaches the sink
  keeps the order of acceptance; the queue stays within its capacity; the counter of losses is
  exact up to the losses about to be counted; the sink is closed at most once and never
  receives a record afterwards; and under \<open>Block\<close> nothing is lost or reordered at all.
\<close>

theorem disruptor_accounting:
  assumes "NewDisruptorTransport capacity p = Some t" "dis_step\<^sup>*\<^sup>* (dis_start t m) s" "length (h_items (ds_h s)) < 2 ^ 62"
  defines "flow \<equiv> emitted (ds_calls s) @ opt_list (worker_item (ds_h s) (ds_worker s)) @ contents (qsys_of s)"
  shows "mset (ds_offered s) = mset flow + mset (ds_lost s) \<and> subseq flow (ds_offered s)
    \<and> length (contents (qsys_of s)) \<le> length (q_buf (dt_q t))
    \<and> dt_dropped (ds_t s) + of_nat (cnt dis_counting (ds_threads s)) = of_nat (length (ds_lost s))
    \<and> no_emit_after_close (ds_calls s) \<and> cnt (\<lambda>c. c = SinkClose) (ds_calls s) \<le> 1
    \<and> (p = Block \<longrightarrow> flow = ds_offered s \<and> ds_lost s = [])"
proof -
  note inv = dis_reach [OF assms(1-3)]
  have f: "flow = t_path (dis_abs s)" by (simp add: flow_def t_path_def)
  have run: "dis_bstep\<^sup>*\<^sup>* (dis_start t m) s" using dis_bounded_run [OF assms(2,3)] .
  have "flow = ds_offered s" if "p = Block"
    using disruptor.lossless(1) [OF _ run, where p = p and t = t] assms(1) that f by auto
  then show ?thesis
    using inv unfolding f by (auto simp: t_inv_def dis_inv_def dis_data_inv_def dis_close_inv_def split: if_splits)
qed

theorem disruptor_accounting_witness:
  "let r = dis_early in mset (ds_offered (dis_exited (Clone r))) = mset (emitted (ds_calls (dis_exited (Clone r)))) + mset (ds_lost (dis_exited (Clone r)))
   \<and> ds_offered (dis_exited (Clone r)) = [Clone r]"
  using disruptor_accounting [OF demo_dis_new demo_run_exited, of dis_early] by (simp add: dis_exited_def dis_at_def Let_def)

text \<open>
  C15: What \<open>Close\<close> waits for: at the moment the worker gives up draining, every record accepted so
  far has been handed to the sink or lost to the policy, unless some goroutine is in the
  middle of publishing the oldest queued record.
\<close>

theorem disruptor_drains:
  assumes "NewDisruptorTransport capacity p = Some t" "dis_step\<^sup>*\<^sup>* (dis_start t m) s" "length (h_items (ds_h s)) < 2 ^ 62"
    and "dis_step s s'" "ds_worker s \<noteq> WFinish" "ds_worker s' = WFinish"
    and quiet: "\<forall>pc \<in> set (ds_threads s). publisher (thread_op pc) = None"
  shows "dt_closed (ds_t s') \<and> mset (ds_offered s') = mset (emitted (ds_calls s')) + mset (ds_lost s')
    \<and> subseq (emitted (ds_calls s')) (ds_offered s')"
proof -
  note inv = dis_reach [OF assms(1-3)]
  obtain pc where pc: "ds_worker s = WDrain pc" "s' = dis_run drain_cont pc s"
    using assms(4-6)
    by cases (auto simp: dis_enqueue_def dis_evict_def dis_run_def dis_count_def Let_def
        split: prod.splits if_splits elim: run_cont.elims)
  obtain res q where res: "dequeue pc (dt_q (ds_t s)) = (res, q)" by fastforce
  have "drain_cont res = WFinish" using pc(2) assms(6) res by (simp add: dis_run_def Let_def)
  then obtain v where v: "res = Inr (v, False)" by (rule drain_finishE)
  have op: "0 < length (qs_ops (qsys_of s))" "qs_ops (qsys_of s) ! 0 = OpDeq pc"
    "dequeue pc (qs_q (qsys_of s)) = (Inr (v, False), q)"
    using pc(1) res v by (simp_all add: qsys_of_def)
  have "contents (qsys_of s) = []"
    using dequeue_empty [OF _ dis_claims_ok [OF assms(1-3)] op] inv(1) quiet pc(1)
    by (auto simp: dis_inv_def qsys_of_def)
  moreover have "worker_item (ds_h s) (ds_worker s) = None"
    using pc(1) res v by (cases pc) auto
  ultimately have "t_path (dis_abs s) = emitted (ds_calls s)" by (simp add: t_path_def)
  moreover have "ds_offered s' = ds_offered s" "ds_calls s' = ds_calls s" "ds_lost s' = ds_lost s"
    "dt_closed (ds_t s') = dt_closed (ds_t s)"
    using pc(2) res by (simp_all add: dis_run_def Let_def)
  ultimately show ?thesis
    using inv pc(1) by (auto simp: t_inv_def dis_inv_def dis_data_inv_def)
qed

theorem disruptor_drains_witness:
  "let r = dis_early in mset (ds_offered (dis_closed (Clone r) WFinish)) = mset (emitted (ds_calls (dis_closed (Clone r) WFinish)))"
  using disruptor_drains [OF demo_dis_new demo_run_closed _ demo_step_finish, of dis_early]
  by (simp add: dis_closed_def dis_at_def Let_def)

text \<open>
  After the worker has exited, \<open>Dispatch\<close> still accepts records and none of them is ever
  delivered: once \<open>done\<close> is closed no further record reaches the sink.
\<close>

lemma disruptor_dead_after_close:
  assumes "NewDisruptorTransport capacity p = Some t" "dis_step\<^sup>*\<^sup>* (dis_start t m) s" "dt_done (ds_t s)"
    and "dis_step\<^sup>*\<^sup>* s s'" "length (h_items (ds_h s')) < 2 ^ 62"
  shows "emitted (ds_calls s') = emitted (ds_calls s) \<and> ds_worker s' = WDone"
proof -
  have "length (h_items (ds_h s)) < 2 ^ 62" using dis_steps_mono [OF assms(4)] assms(5) by simp
  from dis_reach(1) [OF assms(1,2) this] assms(3) have "ds_worker s = WDone"
    by (cases "ds_worker s") (auto simp: dis_inv_def dis_data_inv_def)
  have one: "ds_worker u' = WDone \<and> emitted (ds_calls u') = emitted (ds_calls u)"
    if "dis_step u u'" "ds_worker u = WDone" for u u'
    using that by cases (auto simp: dis_enqueue_def dis_evict_def dis_count_def Let_def split: prod.splits)
  from assms(4) show ?thesis
    by (induction rule: rtranclp_induct) (use one \<open>ds_worker s = WDone\<close> in auto)
qed

theorem disruptor_dead_after_close_witness:
  "let s = (log_move dis_late ^^ 6) (dis_exited (Clone dis_early))
   in ds_offered s = [Clone dis_early, Clone dis_late] \<and> emitted (ds_calls s) = [Clone dis_early] \<and> dt_dropped (ds_t s) = 0"
proof -
  let ?s = "(log_move dis_late ^^ 6) (dis_exited (Clone dis_early))"
  have "emitted (ds_calls ?s) = emitted (ds_calls (dis_exited (Clone dis_early)))"
    using disruptor_dead_after_close [OF demo_dis_new demo_run_exited _ log_moves, of dis_early 6 dis_late]
    unfolding demo_logged_late by (simp add: dis_exited_def dis_at_def)
  then show ?thesis unfolding demo_logged_late Let_def by (simp add: dis_exited_def dis_at_def)
qed

end
