(* ===== verification/Fingers_Crossed.thy ===== *)
theory Fingers_Crossed
  imports Log_Record
begin

text \<open>
  \<open>fingerscrossed.go\<close>: debug-on-error buffering. Buffers are shared by the contexts that carry a
  pointer to them, so they live in a store indexed by address. The circular buffer is shown to
  implement ``the last \<open>cap\<close> records''; on it rest the behaviour of a scope over a whole run and
  the isolation of scopes.
\<close>

section \<open>The buffer\<close>

record fcBuffer =
  fb_ring :: "Record option list"
  fb_start :: nat
  fb_count :: nat
  fb_activated :: bool
  fb_cap :: nat

definition newFCBuffer :: "int \<Rightarrow> fcBuffer" where
  "newFCBuffer capacity0 =
     (let capacity = (if capacity0 < 1 then 256 else nat capacity0)
      in \<lparr>fb_ring = replicate capacity None, fb_start = 0, fb_count = 0, fb_activated = False,
          fb_cap = capacity\<rparr>)"

definition fc_push :: "Record \<Rightarrow> fcBuffer \<Rightarrow> fcBuffer" where
  "fc_push r b =
     (let idx = (fb_start b + fb_count b) mod fb_cap b
      in if fb_count b = fb_cap b
         then b\<lparr>fb_ring := (fb_ring b)[fb_start b := Some r], fb_start := (fb_start b + 1) mod fb_cap b\<rparr>
         else b\<lparr>fb_ring := (fb_ring b)[idx := Some r], fb_count := fb_count b + 1\<rparr>)"

definition fc_drain :: "fcBuffer \<Rightarrow> Record option list \<times> fcBuffer" where
  "fc_drain b =
     (map (\<lambda>i. fb_ring b ! ((fb_start b + i) mod fb_cap b)) [0..<fb_count b],
      b\<lparr>fb_start := 0, fb_count := 0\<rparr>)"

section \<open>The sink decorator\<close>

type_synonym fc_store = "fcBuffer list"

text \<open>The decorator's own state; the sink it wraps is the business of the caller.\<close>

record FingersCrossed =
  fc_Activation :: Level
  fc_BufferSize :: int
  fc_PassThrough :: Level
  fc_global :: nat

definition NewFingersCrossed :: "fc_store \<Rightarrow> FingersCrossed \<times> fc_store" where
  "NewFingersCrossed st =
     (\<lparr>fc_Activation = LevelError, fc_BufferSize = 256, fc_PassThrough = 0, fc_global = length st\<rparr>,
      st @ [newFCBuffer 256])"

definition FCScope :: "gctx \<Rightarrow> fc_store \<Rightarrow> gctx \<times> fc_store" where
  "FCScope ctx st = (WithValue ctx fcKey (CVfc (length st)), st @ [newFCBuffer 256])"

definition bufFor :: "FingersCrossed \<Rightarrow> Record \<Rightarrow> nat" where
  "bufFor f r =
     (case rCtx r of
        None \<Rightarrow> fc_global f
      | Some ctx \<Rightarrow> (case ctx_Value ctx fcKey of Some (CVfc b) \<Rightarrow> b | _ \<Rightarrow> fc_global f))"

text \<open>
  \<open>Emit\<close> decides under the buffer's lock and calls the wrapped sink after unlocking: the
  result is the list of held records to emit first (their errors are discarded) and whether
  the record itself is then emitted (its error is the result).
\<close>

record fc_out =
  fo_held :: "Record option list"
  fo_self :: bool

definition fc_act :: "FingersCrossed \<Rightarrow> Level" where
  "fc_act f = (if fc_Activation f = 0 then LevelError else fc_Activation f)"

definition fc_Emit :: "FingersCrossed \<Rightarrow> Record \<Rightarrow> fc_store \<Rightarrow> fc_out \<times> fc_store" where
  "fc_Emit f r st =
     (let a = bufFor f r; b = st ! a
      in if fb_activated b then (\<lparr>fo_held = [], fo_self = True\<rparr>, st)
         else if rLevel r \<ge> fc_act f then
           (let (held, b') = fc_drain (b\<lparr>fb_activated := True\<rparr>)
            in (\<lparr>fo_held = held, fo_self = True\<rparr>, st[a := b']))
         else if fc_PassThrough f \<noteq> 0 \<and> rLevel r \<ge> fc_PassThrough f
           then (\<lparr>fo_held = [], fo_self = True\<rparr>, st)
         else (\<lparr>fo_held = [], fo_self = False\<rparr>, st[a := fc_push (Clone r) b]))"

text \<open>The records one call hands to the wrapped sink; a run of calls.\<close>

definition fo_records :: "Record \<Rightarrow> fc_out \<Rightarrow> Record option list" where
  "fo_records r x = fo_held x @ (if fo_self x then [Some r] else [])"

fun fc_run :: "FingersCrossed \<Rightarrow> Record list \<Rightarrow> fc_store \<Rightarrow> Record option list \<times> fc_store" where
  "fc_run f [] st = ([], st)"
| "fc_run f (r # rs) st =
     (let (x, st1) = fc_Emit f r st; (ys, st2) = fc_run f rs st1
      in (fo_records r x @ ys, st2))"

section \<open>The buffer holds the last records\<close>

definition last_n :: "nat \<Rightarrow> 'a list \<Rightarrow> 'a list" where
  "last_n n xs = drop (length xs - n) xs"

definition fc_rep :: "fcBuffer \<Rightarrow> Record list \<Rightarrow> bool" where
  "fc_rep b q \<longleftrightarrow>
     fb_cap b = length (fb_ring b) \<and> fb_ring b \<noteq> [] \<and> fb_start b < fb_cap b \<and>
     fb_count b = length q \<and> length q \<le> fb_cap b \<and>
     ring_items (fb_ring b) (fb_start b) (length q) = map Some q"

lemma last_n_snoc:
  "0 < n \<Longrightarrow> last_n n (xs @ [x]) = (if length xs < n then xs @ [x] else drop (Suc (length xs) - n) xs @ [x])"
  by (simp add: last_n_def)

lemma fc_rep_new: "fc_rep (newFCBuffer c) []"
  by (simp add: fc_rep_def newFCBuffer_def Let_def)

lemma fc_rep_push:
  assumes "fc_rep b q"
  shows "fc_rep (fc_push r b) (last_n (fb_cap b) (q @ [r]))"
proof (cases "length q = fb_cap b")
  case False
  then have "length q < length (fb_ring b)" using assms by (simp add: fc_rep_def)
  with assms False show ?thesis
    by (simp add: fc_rep_def fc_push_def Let_def last_n_def ring_items_push)
next
  case True
  then obtain x q' where q: "q = x # q'" using assms by (cases q) (auto simp: fc_rep_def)
  let ?buf = "(fb_ring b)[fb_start b := Some r]" and ?n = "length (fb_ring b)" and ?s = "fb_start b"
  have n: "length q' < ?n" "?s < ?n" "Suc (length q') = ?n" using assms True q by (auto simp: fc_rep_def)
  have "ring_items (fb_ring b) (Suc ?s) (length q') = map Some q'"
    using assms q by (simp add: fc_rep_def ring_items_pop)
  then have "ring_items ?buf (Suc ?s) (length q') = map Some q'"
    using ring_items_clear [OF n(1), of ?s] n(2) by simp
  moreover have "(Suc ?s + length q') mod ?n = ?s"
  proof -
    have "Suc ?s + length q' = ?s + ?n" using n(3) by linarith
    then have "(Suc ?s + length q') mod ?n = (?s + ?n) mod ?n" by (rule arg_cong)
    also have "\<dots> = ?s" using n(2) by simp
    finally show ?thesis .
  qed
  ultimately have "ring_items ?buf (Suc ?s) (Suc (length q')) = map Some (q' @ [r])"
    using n(2) by (simp add: ring_items_snoc)
  then have "ring_items ?buf (Suc ?s mod ?n) (Suc (length q')) = map Some (q' @ [r])"
    using ring_items_mod [of ?buf "Suc ?s" "Suc (length q')"] by simp
  then show ?thesis
    using assms True q n by (simp add: fc_rep_def fc_push_def Let_def last_n_def)
qed

lemma fc_rep_drain:
  assumes "fc_rep b q"
  shows "fst (fc_drain b) = map Some q" and "fc_rep (snd (fc_drain b)) []"
  using assms by (simp_all add: fc_rep_def fc_drain_def ring_items_def)

lemma last_n_last_n: "last_n n (last_n n xs @ ys) = last_n n (xs @ ys)"
proof (cases "length xs \<le> n")
  case False
  have "drop (length xs - n) xs @ ys = drop (length xs - n) (xs @ ys)" by simp
  then have "last_n n (last_n n xs @ ys) = drop (length ys) (drop (length xs - n) (xs @ ys))"
    unfolding last_n_def using False by simp
  also have "\<dots> = drop (length xs + length ys - n) (xs @ ys)"
    using False by (simp add: add.commute del: drop_append)
  finally show ?thesis by (simp add: last_n_def)
qed (simp add: last_n_def)

lemma fc_push_frame [simp]:
  "fb_activated (fc_push r b) = fb_activated b" "fb_cap (fc_push r b) = fb_cap b"
  by (simp_all add: fc_push_def Let_def)

section \<open>One call\<close>

text \<open>
  The specification of a scope: until activation it keeps a trail of copies, bounded by the
  capacity; the activating record flushes the trail, and from then on everything passes.
\<close>

record scope_spec =
  sc_trail :: "Record list"
  sc_active :: bool

definition scope_emit :: "FingersCrossed \<Rightarrow> nat \<Rightarrow> Record \<Rightarrow> scope_spec \<Rightarrow> Record list \<times> scope_spec" where
  "scope_emit f n r s =
     (if sc_active s then ([r], s)
      else if rLevel r \<ge> fc_act f then (sc_trail s @ [r], \<lparr>sc_trail = [], sc_active = True\<rparr>)
      else if fc_PassThrough f \<noteq> 0 \<and> rLevel r \<ge> fc_PassThrough f then ([r], s)
      else ([], s\<lparr>sc_trail := last_n n (sc_trail s @ [Clone r])\<rparr>))"

definition scope_rep :: "fcBuffer \<Rightarrow> scope_spec \<Rightarrow> bool" where
  "scope_rep b s \<longleftrightarrow> fc_rep b (sc_trail s) \<and> fb_activated b = sc_active s"

lemma scope_rep_activate: "fc_rep (b\<lparr>fb_activated := x\<rparr>) q = fc_rep b q"
  by (simp add: fc_rep_def)

lemma fc_drain_frame [simp]:
  "fb_cap (snd (fc_drain b)) = fb_cap b" "fb_activated (snd (fc_drain b)) = fb_activated b"
  by (simp_all add: fc_drain_def)

lemma fc_Emit_refines:
  assumes a: "bufFor f r < length st" and rep: "scope_rep (st ! bufFor f r) s"
  shows "fo_records r (fst (fc_Emit f r st)) = map Some (fst (scope_emit f (fb_cap (st ! bufFor f r)) r s))"
    and "scope_rep (snd (fc_Emit f r st) ! bufFor f r) (snd (scope_emit f (fb_cap (st ! bufFor f r)) r s))"
    and "fb_cap (snd (fc_Emit f r st) ! bufFor f r) = fb_cap (st ! bufFor f r)"
proof -
  let ?b = "(st ! bufFor f r)\<lparr>fb_activated := True\<rparr>"
  have b: "fc_rep ?b (sc_trail s)" using rep by (simp add: scope_rep_def scope_rep_activate)
  have p: "fc_rep (fc_push (Clone r) (st ! bufFor f r)) (last_n (fb_cap (st ! bufFor f r)) (sc_trail s @ [Clone r]))"
    using rep by (simp add: scope_rep_def fc_rep_push)
  show "fo_records r (fst (fc_Emit f r st)) = map Some (fst (scope_emit f (fb_cap (st ! bufFor f r)) r s))"
    using rep fc_rep_drain(1) [OF b]
    by (simp add: fc_Emit_def scope_emit_def scope_rep_def fo_records_def Let_def split_beta)
  show "scope_rep (snd (fc_Emit f r st) ! bufFor f r) (snd (scope_emit f (fb_cap (st ! bufFor f r)) r s))"
    using rep a fc_rep_drain(2) [OF b] p
    by (simp add: fc_Emit_def scope_emit_def scope_rep_def Let_def split_beta)
  show "fb_cap (snd (fc_Emit f r st) ! bufFor f r) = fb_cap (st ! bufFor f r)"
    using a by (simp add: fc_Emit_def Let_def split_beta)
qed

lemma fc_Emit_frame:
  "length (snd (fc_Emit f r st)) = length st"
  "c \<noteq> bufFor f r \<Longrightarrow> snd (fc_Emit f r st) ! c = st ! c"
  by (simp_all add: fc_Emit_def Let_def split_beta)

text \<open>A call reads and writes the buffer of its scope only.\<close>

lemma fc_Emit_local:
  assumes "st ! bufFor f r = st' ! bufFor f r" "bufFor f r < length st" "bufFor f r < length st'"
  shows "fst (fc_Emit f r st) = fst (fc_Emit f r st')"
    and "snd (fc_Emit f r st) ! bufFor f r = snd (fc_Emit f r st') ! bufFor f r"
  using assms by (simp_all add: fc_Emit_def Let_def split_beta)

section \<open>Runs\<close>

lemma fc_run_append:
  "fc_run f (xs @ ys) st =
     (let (o1, st1) = fc_run f xs st; (o2, st2) = fc_run f ys st1 in (o1 @ o2, st2))"
  by (induction xs arbitrary: st) (simp_all add: Let_def split_beta)

lemma fc_run_length: "length (snd (fc_run f rs st)) = length st"
  by (induction rs arbitrary: st) (simp_all add: Let_def split_beta fc_Emit_frame)

fun scope_run :: "FingersCrossed \<Rightarrow> nat \<Rightarrow> Record list \<Rightarrow> scope_spec \<Rightarrow> Record list \<times> scope_spec" where
  "scope_run f n [] s = ([], s)"
| "scope_run f n (r # rs) s =
     (let (x, s1) = scope_emit f n r s; (ys, s2) = scope_run f n rs s1 in (x @ ys, s2))"

lemma scope_run_append:
  "scope_run f n (xs @ ys) s =
     (let (o1, s1) = scope_run f n xs s; (o2, s2) = scope_run f n ys s1 in (o1 @ o2, s2))"
  by (induction xs arbitrary: s) (simp_all add: Let_def split_beta)

lemma fc_run_refines:
  assumes "\<And>r. r \<in> set rs \<Longrightarrow> bufFor f r = a" "a < length st" "scope_rep (st ! a) s" "fb_cap (st ! a) = n"
  shows "fst (fc_run f rs st) = map Some (fst (scope_run f n rs s)) \<and>
    scope_rep (snd (fc_run f rs st) ! a) (snd (scope_run f n rs s))"
  using assms
proof (induction rs arbitrary: st s)
  case (Cons r rs)
  have a: "bufFor f r = a" using Cons.prems(1) by simp
  note one = fc_Emit_refines [of f r st s, unfolded a, OF Cons.prems(2,3), unfolded Cons.prems(4)]
  have "fst (fc_run f rs (snd (fc_Emit f r st))) = map Some (fst (scope_run f n rs (snd (scope_emit f n r s)))) \<and>
    scope_rep (snd (fc_run f rs (snd (fc_Emit f r st))) ! a) (snd (scope_run f n rs (snd (scope_emit f n r s))))"
    using Cons.prems one by (intro Cons.IH) (simp_all add: fc_Emit_frame)
  then show ?case using one by (simp add: Let_def split_beta)
qed simp

lemma scope_run_quiet:
  assumes "\<And>r. r \<in> set rs \<Longrightarrow> rLevel r < fc_act f" "fc_PassThrough f = 0" "\<not> sc_active s"
    "length (sc_trail s) \<le> n"
  shows "scope_run f n rs s = ([], s\<lparr>sc_trail := last_n n (sc_trail s @ map Clone rs)\<rparr>)"
  using assms
proof (induction rs arbitrary: s)
  case Nil
  then show ?case by (simp add: last_n_def)
next
  case (Cons r rs)
  let ?s1 = "s\<lparr>sc_trail := last_n n (sc_trail s @ [Clone r])\<rparr>"
  have "last_n n (last_n n (sc_trail s @ [Clone r]) @ map Clone rs)
      = last_n n ((sc_trail s @ [Clone r]) @ map Clone rs)"
    by (rule last_n_last_n)
  moreover have "scope_run f n rs ?s1 = ([], ?s1\<lparr>sc_trail := last_n n (sc_trail ?s1 @ map Clone rs)\<rparr>)"
    using Cons.prems by (intro Cons.IH) (simp_all add: last_n_def)
  moreover have "\<not> fc_act f \<le> rLevel r" using Cons.prems(1) [of r] by simp
  ultimately show ?case
    using Cons.prems(2,3) by (simp add: scope_emit_def Let_def)
qed

lemma scope_run_active: "sc_active s \<Longrightarrow> scope_run f n rs s = (rs, s)"
  by (induction rs) (simp_all add: scope_emit_def)

section \<open>Isolation of scopes\<close>

text \<open>Every buffer represents a trail of records of its own scope.\<close>

definition fc_store_ok :: "FingersCrossed \<Rightarrow> fc_store \<Rightarrow> bool" where
  "fc_store_ok f st \<longleftrightarrow>
     (\<forall>a < length st. \<exists>s. scope_rep (st ! a) s \<and> (\<forall>r \<in> set (sc_trail s). bufFor f r = a))"

lemma bufFor_Clone [simp]: "bufFor f (Clone r) = bufFor f r"
  by (simp add: bufFor_def)

lemma scope_emit_scope:
  assumes "\<forall>x \<in> set (sc_trail s). bufFor f x = bufFor f r"
  shows "\<forall>x \<in> set (fst (scope_emit f n r s)). bufFor f x = bufFor f r"
    and "\<forall>x \<in> set (sc_trail (snd (scope_emit f n r s))). bufFor f x = bufFor f r"
  using assms by (auto simp: scope_emit_def last_n_def dest: in_set_dropD)

lemma fc_Emit_ok:
  assumes "fc_store_ok f st" "bufFor f r < length st"
  shows "fc_store_ok f (snd (fc_Emit f r st))"
    and "x \<in> set (fo_records r (fst (fc_Emit f r st))) \<Longrightarrow> \<exists>y. x = Some y \<and> bufFor f y = bufFor f r"
proof -
  obtain s where s: "scope_rep (st ! bufFor f r) s" "\<forall>x \<in> set (sc_trail s). bufFor f x = bufFor f r"
    using assms by (auto simp: fc_store_ok_def)
  note one = fc_Emit_refines [OF assms(2) s(1)] and scope = scope_emit_scope [OF s(2)]
  show "fc_store_ok f (snd (fc_Emit f r st))"
    unfolding fc_store_ok_def
  proof (intro allI impI)
    fix c assume c: "c < length (snd (fc_Emit f r st))"
    show "\<exists>s. scope_rep (snd (fc_Emit f r st) ! c) s \<and> (\<forall>r \<in> set (sc_trail s). bufFor f r = c)"
    proof (cases "c = bufFor f r")
      case True
      then show ?thesis using one(2) scope(2) by blast
    next
      case False
      then show ?thesis using assms(1) c by (simp add: fc_store_ok_def fc_Emit_frame)
    qed
  qed
  show "\<exists>y. x = Some y \<and> bufFor f y = bufFor f r" if "x \<in> set (fo_records r (fst (fc_Emit f r st)))"
    using that one(1) scope(1) by auto
qed

lemma filter_all: "(\<And>x. x \<in> set xs \<Longrightarrow> P x) \<Longrightarrow> filter P xs = xs"
  by (induction xs) auto

lemma filter_none: "(\<And>x. x \<in> set xs \<Longrightarrow> \<not> P x) \<Longrightarrow> filter P xs = []"
  by (induction xs) auto

lemma fc_run_isolated:
  assumes "fc_store_ok f st" "\<And>r. r \<in> set rs \<Longrightarrow> bufFor f r < length st"
    "st ! a = st' ! a" "length st' = length st"
  shows "filter (\<lambda>x. bufFor f (the x) = a) (fst (fc_run f rs st))
    = fst (fc_run f (filter (\<lambda>r. bufFor f r = a) rs) st')"
  using assms
proof (induction rs arbitrary: st st')
  case (Cons r rs)
  have r: "bufFor f r < length st" using Cons.prems(2) by simp
  let ?o = "fo_records r (fst (fc_Emit f r st))" and ?st = "snd (fc_Emit f r st)"
  have IH: "filter (\<lambda>x. bufFor f (the x) = a) (fst (fc_run f rs ?st))
      = fst (fc_run f (filter (\<lambda>r. bufFor f r = a) rs) st'')"
    if "?st ! a = st'' ! a" "length st'' = length st" for st''
    using Cons.prems fc_Emit_ok(1) [OF Cons.prems(1) r] that
    by (intro Cons.IH) (auto simp: fc_Emit_frame)
  show ?case
  proof (cases "bufFor f r = a")
    case True
    have "filter (\<lambda>x. bufFor f (the x) = a) ?o = ?o"
      using fc_Emit_ok(2) [OF Cons.prems(1) r] True by (intro filter_all) fastforce
    moreover have "fst (fc_Emit f r st) = fst (fc_Emit f r st')"
      "?st ! a = snd (fc_Emit f r st') ! a"
      using fc_Emit_local [of st f r st'] Cons.prems(3,4) r True by simp_all
    ultimately show ?thesis
      using True IH [of "snd (fc_Emit f r st')"] Cons.prems(4) by (simp add: Let_def split_beta fc_Emit_frame)
  next
    case False
    then have "filter (\<lambda>x. bufFor f (the x) = a) ?o = []"
      using fc_Emit_ok(2) [OF Cons.prems(1) r] by (intro filter_none) fastforce
    moreover have "?st ! a = st' ! a" using False Cons.prems(3) by (simp add: fc_Emit_frame)
    ultimately show ?thesis
      using False IH [of st'] Cons.prems(4) by (simp add: Let_def split_beta)
  qed
qed simp

lemma fc_store_ok_fresh: "fc_store_ok f (map newFCBuffer cs)"
  unfolding fc_store_ok_def
proof (intro allI impI exI conjI)
  fix a assume "a < length (map newFCBuffer cs)"
  then show "scope_rep (map newFCBuffer cs ! a) \<lparr>sc_trail = [], sc_active = False\<rparr>"
    using fc_rep_new by (simp add: scope_rep_def newFCBuffer_def Let_def)
qed simp

section \<open>Properties\<close>

text \<open>
  C27: Debug-on-error over a whole scope. From a fresh buffer, records below the activation
  level produce no output at all; the first record at or above it makes the sink receive copies
  of the last records of the scope, as many as the buffer holds, in order and then the record itself; every
  later record of the scope goes straight through.
\<close>

theorem fc_trail:
  assumes "\<And>r. r \<in> set (quiet @ [trigger] @ later) \<Longrightarrow> bufFor f r = a"
    and "a < length st" "st ! a = newFCBuffer n" "fc_PassThrough f = 0"
    and "\<And>r. r \<in> set quiet \<Longrightarrow> rLevel r < fc_act f" "fc_act f \<le> rLevel trigger"
  shows "fst (fc_run f quiet st) = []
    \<and> fst (fc_run f (quiet @ [trigger] @ later) st)
       = map Some (last_n (if n < 1 then 256 else nat n) (map Clone quiet) @ [trigger] @ later)"
proof -
  let ?s = "\<lparr>sc_trail = [], sc_active = False\<rparr>" and ?n = "if n < 1 then 256 else nat n"
  have rep: "scope_rep (st ! a) ?s" "fb_cap (st ! a) = ?n"
    using fc_rep_new assms(3) by (simp_all add: scope_rep_def newFCBuffer_def Let_def)
  have quiet: "scope_run f ?n quiet ?s = ([], ?s\<lparr>sc_trail := last_n ?n (map Clone quiet)\<rparr>)"
    using scope_run_quiet [of quiet f ?s ?n] assms(4,5) by simp
  have "fst (fc_run f quiet st) = map Some (fst (scope_run f ?n quiet ?s))"
    using fc_run_refines [of quiet f a st ?s ?n] assms(1,2) rep by simp
  moreover have "fst (fc_run f (quiet @ [trigger] @ later) st)
      = map Some (fst (scope_run f ?n (quiet @ [trigger] @ later) ?s))"
    using fc_run_refines [of "quiet @ [trigger] @ later" f a st ?s ?n] assms(1,2) rep by blast
  ultimately show ?thesis
    using quiet assms(6)
    by (simp add: scope_run_append scope_emit_def scope_run_active Let_def split_beta)
qed

definition fc_sample :: FingersCrossed where
  "fc_sample = \<lparr>fc_Activation = 0, fc_BufferSize = 256, fc_PassThrough = 0, fc_global = 0\<rparr>"

definition fc_rec :: "Level \<Rightarrow> string \<Rightarrow> Record" where
  "fc_rec l msg = zeroRecord\<lparr>rLevel := l, rMessage := msg\<rparr>"

lemma fc_sample_simps [simp]: "fc_act fc_sample = 17" "fc_PassThrough fc_sample = 0"
  by (simp_all add: fc_sample_def fc_act_def LevelError_def)

lemma fc_rec_simps [simp]:
  "rLevel (fc_rec l m) = l" "rMessage (fc_rec l m) = m" "bufFor fc_sample (fc_rec l m) = 0"
  by (simp_all add: fc_rec_def bufFor_def zeroRecord_def fc_sample_def)

theorem fc_trail_witness:
  "map (\<lambda>x. rMessage (the x))
     (fst (fc_run fc_sample ([fc_rec 5 ''a'', fc_rec 9 ''b'', fc_rec 5 ''c''] @ [fc_rec 17 ''boom''] @ [fc_rec 5 ''d''])
        [newFCBuffer 2]))
   = [''b'', ''c'', ''boom'', ''d'']"
proof -
  have "fst (fc_run fc_sample ([fc_rec 5 ''a'', fc_rec 9 ''b'', fc_rec 5 ''c''] @ [fc_rec 17 ''boom''] @ [fc_rec 5 ''d''])
        [newFCBuffer 2])
      = map Some (last_n (if (2::int) < 1 then 256 else nat 2) (map Clone [fc_rec 5 ''a'', fc_rec 9 ''b'', fc_rec 5 ''c''])
          @ [fc_rec 17 ''boom''] @ [fc_rec 5 ''d''])"
    by (rule fc_trail [where a = 0, THEN conjunct2]) auto
  then show ?thesis by (simp add: last_n_def)
qed

text \<open>
  C28: Scopes do not interfere. In any interleaving of the records of several scopes, what the
  sink receives of one scope is exactly what it would receive had only that scope been logging:
  an error in one request never flushes, reorders or loses the trail of another.
\<close>

theorem fc_isolation:
  assumes "fc_store_ok f st" "\<And>r. r \<in> set rs \<Longrightarrow> bufFor f r < length st"
  shows "filter (\<lambda>x. bufFor f (the x) = a) (fst (fc_run f rs st))
    = fst (fc_run f (filter (\<lambda>r. bufFor f r = a) rs) st)"
  using assms by (rule fc_run_isolated) simp_all

definition fc_scoped :: "nat \<Rightarrow> Record \<Rightarrow> Record" where
  "fc_scoped a r = r\<lparr>rCtx := Some (WithValue Background fcKey (CVfc a))\<rparr>"

lemma bufFor_scoped [simp]: "bufFor f (fc_scoped a r) = a"
  by (simp add: bufFor_def fc_scoped_def)

theorem fc_isolation_witness:
  "filter (\<lambda>x. bufFor fc_sample (the x) = 2)
     (fst (fc_run fc_sample [fc_scoped 1 (fc_rec 5 ''a''), fc_scoped 2 (fc_rec 5 ''b''), fc_scoped 1 (fc_rec 17 ''boom'')]
        (map newFCBuffer [256, 256, 256]))) = []"
proof -
  have "filter (\<lambda>x. bufFor fc_sample (the x) = 2)
     (fst (fc_run fc_sample [fc_scoped 1 (fc_rec 5 ''a''), fc_scoped 2 (fc_rec 5 ''b''), fc_scoped 1 (fc_rec 17 ''boom'')]
        (map newFCBuffer [256, 256, 256])))
    = fst (fc_run fc_sample (filter (\<lambda>r. bufFor fc_sample r = 2)
        [fc_scoped 1 (fc_rec 5 ''a''), fc_scoped 2 (fc_rec 5 ''b''), fc_scoped 1 (fc_rec 17 ''boom'')])
        (map newFCBuffer [256, 256, 256]))"
    by (rule fc_isolation [OF fc_store_ok_fresh]) auto
  also have "\<dots> = []"
    by (simp add: fc_Emit_def fo_records_def newFCBuffer_def Let_def) (simp add: fc_scoped_def)
  finally show ?thesis .
qed

end
