(* ===== verification/Audit_Chain.thy ===== *)
theory Audit_Chain
  imports Encoders
begin

text \<open>
  \<open>audit.go\<close>: the hash-chained audit sink and its verifier. \<open>sha256\<close> is a parameter
  (\<open>lib_sha256\<close>); \<open>bufio.Scanner\<close> with its line splitting, carriage-return stripping and token
  limit, \<open>strings.SplitN\<close> and \<open>strconv.ParseUint\<close> are modelled. The theorems: what the sink
  writes verifies; an accepted stream with the sink's head hash carries the sink's records, unless the two chains
  hash different inputs to one value at the same position;
  a record missing in the middle is found at its place; a missing tail is not.
\<close>

section \<open>The sink\<close>

record AuditSink =
  au_seq :: u64
  au_prev :: string

definition GenesisHash :: string where
  "GenesisHash = replicate 64 CHR ''0''"

definition NewAuditSink :: AuditSink where
  "NewAuditSink = \<lparr>au_seq = 0, au_prev = GenesisHash\<rparr>"

definition audit_sum :: "golib \<Rightarrow> string \<Rightarrow> bytes \<Rightarrow> string" where
  "audit_sum lib prev canonical = hexEncode (lib_sha256 lib (prev @ canonical))"

text \<open>
  One \<open>Emit\<close>: the bytes handed to the writer in one call, and the new state. The state advances
  whether or not the write succeeds.
\<close>

definition audit_Emit :: "(Record \<Rightarrow> bytes) \<Rightarrow> golib \<Rightarrow> Record \<Rightarrow> AuditSink \<Rightarrow> bytes \<times> AuditSink" where
  "audit_Emit enc lib r a =
     (let canonical = trimNL (enc r);
          sum = audit_sum lib (au_prev a) canonical;
          line = sum @ [SP] @ au_prev a @ [SP] @ dec (unat (au_seq a)) @ [SP]
      in (line @ (canonical @ [NL]), a\<lparr>au_prev := sum, au_seq := au_seq a + 1\<rparr>))"

fun audit_run :: "(Record \<Rightarrow> bytes) \<Rightarrow> golib \<Rightarrow> Record list \<Rightarrow> AuditSink \<Rightarrow> bytes \<times> AuditSink" where
  "audit_run enc lib [] a = ([], a)"
| "audit_run enc lib (r # rs) a =
     (let (b, a1) = audit_Emit enc lib r a; (bs, a2) = audit_run enc lib rs a1 in (b @ bs, a2))"

section \<open>The verifier\<close>

record AuditResult =
  ar_Records :: u64
  ar_OK :: bool
  ar_BrokenAtSeq :: int
  ar_Reason :: string

definition maxToken :: nat where
  "maxToken = 8 * 1024 * 1024"

text \<open>
  \<open>bufio.Scanner\<close> with \<open>ScanLines\<close>: the lines of the data, a last unterminated one included if
  not empty, each without a trailing carriage return; the scan stops with an error at a line
  that does not fit the buffer, or with the reader's error at the end of the data.
\<close>

definition dropCR :: "bytes \<Rightarrow> bytes" where
  "dropCR l = (if l \<noteq> [] \<and> last l = CR then butlast l else l)"

definition raw_lines :: "bytes \<Rightarrow> bytes list" where
  "raw_lines data = (let ls = split_on NL data in if last ls = [] then butlast ls else ls)"

definition scan_lines :: "bytes \<Rightarrow> bytes list" where
  "scan_lines data = map dropCR (takeWhile (\<lambda>l. length l < maxToken) (raw_lines data))"

definition scan_err :: "bytes \<Rightarrow> goerr option \<Rightarrow> goerr option" where
  "scan_err data err =
     (if list_ex (\<lambda>l. \<not> length l < maxToken) (raw_lines data)
      then Some (GoErr ''bufio.Scanner: token too long'') else err)"

definition audit_broken :: "u64 \<Rightarrow> u64 \<Rightarrow> string \<Rightarrow> AuditResult" where
  "audit_broken n at reason =
     \<lparr>ar_Records = n, ar_OK = False, ar_BrokenAtSeq = sint at, ar_Reason = reason\<rparr>"

fun verify_lines :: "golib \<Rightarrow> string \<Rightarrow> u64 \<Rightarrow> bytes list \<Rightarrow> AuditResult + string \<times> u64" where
  "verify_lines lib prev n [] = Inr (prev, n)"
| "verify_lines lib prev n (line # rest) =
     (case splitN SP 4 line of
        [gotHash, gotPrev, seqStr, canonical] \<Rightarrow>
          (case ParseUint seqStr of
             None \<Rightarrow> Inl (audit_broken n n ''seq not contiguous (deletion/reorder)'')
           | Some seq \<Rightarrow>
               if seq \<noteq> unat n then Inl (audit_broken n n ''seq not contiguous (deletion/reorder)'')
               else if gotPrev \<noteq> prev
                 then Inl (audit_broken n (of_nat seq) ''prev hash mismatch (chain break)'')
               else if audit_sum lib prev canonical \<noteq> gotHash
                 then Inl (audit_broken n (of_nat seq) ''hash mismatch (record tampered)'')
               else verify_lines lib gotHash (n + 1) rest)
      | _ \<Rightarrow> Inl (audit_broken n n ''malformed line''))"

definition VerifyAudit :: "golib \<Rightarrow> bytes \<Rightarrow> goerr option \<Rightarrow> AuditResult" where
  "VerifyAudit lib data err =
     (case verify_lines lib GenesisHash 0 (scan_lines data) of
        Inl res \<Rightarrow> res
      | Inr (prev, n) \<Rightarrow>
          (case scan_err data err of
             Some e \<Rightarrow> audit_broken n n (''read error: '' @ err_text e)
           | None \<Rightarrow> \<lparr>ar_Records = n, ar_OK = True, ar_BrokenAtSeq = -1, ar_Reason = []\<rparr>))"

section \<open>The chain\<close>

text \<open>The hash after a sequence of canonical records, and the lines the sink writes for it.\<close>

fun chain :: "golib \<Rightarrow> string \<Rightarrow> bytes list \<Rightarrow> string" where
  "chain lib prev [] = prev"
| "chain lib prev (c # cs) = chain lib (audit_sum lib prev c) cs"

definition audit_line :: "golib \<Rightarrow> string \<Rightarrow> u64 \<Rightarrow> bytes \<Rightarrow> bytes" where
  "audit_line lib prev n c = audit_sum lib prev c @ SP # prev @ SP # dec (unat n) @ SP # c"

fun audit_lines :: "golib \<Rightarrow> string \<Rightarrow> u64 \<Rightarrow> bytes list \<Rightarrow> bytes list" where
  "audit_lines lib prev n [] = []"
| "audit_lines lib prev n (c # cs) =
     audit_line lib prev n c # audit_lines lib (audit_sum lib prev c) (n + 1) cs"

lemma audit_run_lines:
  "audit_run enc lib rs a =
     (concat (map (\<lambda>l. l @ [NL]) (audit_lines lib (au_prev a) (au_seq a) (map (\<lambda>r. trimNL (enc r)) rs))),
      a\<lparr>au_prev := chain lib (au_prev a) (map (\<lambda>r. trimNL (enc r)) rs),
        au_seq := au_seq a + of_nat (length rs)\<rparr>)"
  by (induction rs arbitrary: a)
    (simp_all add: audit_Emit_def audit_line_def Let_def add.assoc)

lemma SP_dec: "SP \<notin> set (dec n)" and NL_dec: "NL \<notin> set (dec n)" and CR_dec: "CR \<notin> set (dec n)"
  by (rule dec_free; simp)+

lemma splitN_audit_line:
  "SP \<notin> set prev \<Longrightarrow> splitN SP 4 (audit_line lib prev n c) = [audit_sum lib prev c, prev, dec (unat n), c]"
  by (simp add: audit_line_def numeral_eq_Suc cut_append audit_sum_def hexEncode_free SP_dec)

lemma ParseUint_dec: "ParseUint (dec (unat (n :: u64))) = Some (unat n)"
proof -
  have "unat n < 2 ^ LENGTH(64)" by (rule unsigned_less)
  then show ?thesis by (simp add: ParseUint_def)
qed

lemma audit_sum_free:
  "SP \<notin> set (audit_sum lib prev c)" "NL \<notin> set (audit_sum lib prev c)"
  by (simp_all add: audit_sum_def hexEncode_free)

lemma verify_audit_lines:
  assumes "SP \<notin> set prev"
  shows "verify_lines lib prev n (audit_lines lib prev n cs @ rest)
    = verify_lines lib (chain lib prev cs) (n + of_nat (length cs)) rest"
  using assms
proof (induction cs arbitrary: prev n)
  case (Cons c cs)
  then show ?case
    by (simp add: splitN_audit_line ParseUint_dec audit_sum_free add.assoc)
qed simp

lemma verify_append:
  "verify_lines lib prev n (xs @ ys) =
     (case verify_lines lib prev n xs of Inl e \<Rightarrow> Inl e | Inr (p, m) \<Rightarrow> verify_lines lib p m ys)"
  by (induction lib prev n xs rule: verify_lines.induct) (auto split: list.split option.split)

text \<open>What an accepted sequence of lines says: the hashes chain the fourth fields.\<close>

definition canonical_of :: "bytes \<Rightarrow> bytes" where
  "canonical_of line = splitN SP 4 line ! 3"

lemma verify_lines_chain:
  "verify_lines lib prev n ls = Inr (p, m) \<Longrightarrow> p = chain lib prev (map canonical_of ls)"
proof (induction lib prev n ls rule: verify_lines.induct)
  case (2 lib prev n line rest)
  from "2.prems" obtain s c where line: "splitN SP 4 line = [audit_sum lib prev c, prev, s, c]"
    and seq: "ParseUint s = Some (unat n)"
    by (auto split: list.splits option.splits if_splits)
  with "2.prems" have rest: "verify_lines lib (audit_sum lib prev c) (n + 1) rest = Inr (p, m)" by simp
  have "canonical_of line = c" by (simp add: canonical_of_def line numeral_3_eq_3)
  moreover have "p = chain lib (audit_sum lib prev c) (map canonical_of rest)"
    by (rule "2.IH" [OF line refl refl refl refl seq _ _ _ rest]) simp_all
  ultimately show ?case by simp
qed simp

lemma chain_snoc: "chain lib p (cs @ [c]) = audit_sum lib (chain lib p cs) c"
  by (induction cs arbitrary: p) simp_all

lemma length_chain:
  "(\<And>x. length (lib_sha256 lib x) = 32) \<Longrightarrow> length p = 64 \<Longrightarrow> length (chain lib p cs) = 64"
  by (induction cs arbitrary: p) (simp_all add: audit_sum_def)

text \<open>
  What is hashed for the \<open>i\<close>th record of a chain, and the head hash a stream displays: the first
  field of its last line.
\<close>

definition hashed :: "golib \<Rightarrow> bytes list \<Rightarrow> nat \<Rightarrow> bytes" where
  "hashed lib cs i = chain lib GenesisHash (take i cs) @ cs ! i"

definition head_hash :: "string \<Rightarrow> bytes list \<Rightarrow> string" where
  "head_hash prev ls = (if ls = [] then prev else hd (splitN SP 4 (last ls)))"

lemma verify_lines_head:
  "verify_lines lib prev n ls = Inr (p, m) \<Longrightarrow> p = head_hash prev ls"
proof (induction lib prev n ls rule: verify_lines.induct)
  case (2 lib prev n line rest)
  from "2.prems" obtain s c where line: "splitN SP 4 line = [audit_sum lib prev c, prev, s, c]"
    and seq: "ParseUint s = Some (unat n)"
    by (auto split: list.splits option.splits if_splits)
  with "2.prems" have rest: "verify_lines lib (audit_sum lib prev c) (n + 1) rest = Inr (p, m)" by simp
  have "p = head_hash (audit_sum lib prev c) rest"
    by (rule "2.IH" [OF line refl refl refl refl seq _ _ _ rest]) simp_all
  then show ?case using line by (simp add: head_hash_def)
qed (simp add: head_hash_def)

lemma hashed_append: "i < length cs \<Longrightarrow> hashed lib (cs @ xs) i = hashed lib cs i"
  by (simp add: hashed_def nth_append)

text \<open>
  Two chains of one length and head: the records are the same, or at some place of the two
  chains different inputs were hashed to the same value.
\<close>

lemma chain_binding:
  assumes sha: "\<And>x. length (lib_sha256 lib x) = 32"
    and "length cs = length ds" "chain lib GenesisHash cs = chain lib GenesisHash ds"
  shows "cs = ds \<or> (\<exists>i < length cs. hashed lib cs i \<noteq> hashed lib ds i
    \<and> lib_sha256 lib (hashed lib cs i) = lib_sha256 lib (hashed lib ds i))"
  using assms(2,3)
proof (induction cs arbitrary: ds rule: rev_induct)
  case (snoc c cs)
  then obtain ds' d where ds: "ds = ds' @ [d]" by (cases ds rule: rev_cases) auto
  with snoc.prems(1) have len: "length cs = length ds'" by simp
  have G: "length GenesisHash = 64" by (simp add: GenesisHash_def)
  have last: "hashed lib (cs @ [c]) (length cs) = chain lib GenesisHash cs @ c"
    "hashed lib ds (length cs) = chain lib GenesisHash ds' @ d"
    using len by (simp_all add: hashed_def ds nth_append)
  have same: "lib_sha256 lib (hashed lib (cs @ [c]) (length cs)) = lib_sha256 lib (hashed lib ds (length cs))"
    using snoc.prems(2) unfolding last by (simp add: ds chain_snoc audit_sum_def hexEncode_inj)
  show ?case
  proof (cases "hashed lib (cs @ [c]) (length cs) = hashed lib ds (length cs)")
    case True
    then have "chain lib GenesisHash cs = chain lib GenesisHash ds'" "c = d"
      using length_chain [OF sha G] unfolding last by (simp_all add: append_eq_append_conv)
    with snoc.IH [OF len] ds len show ?thesis by (auto simp: hashed_append intro: less_SucI)
  next
    case False
    with same show ?thesis by auto
  qed
qed simp

section \<open>Lines and tokens\<close>

lemma split_on_append: "split_on d (xs @ d # ys) = split_on d xs @ split_on d ys"
proof (induction xs)
  case (Cons c xs)
  then show ?case by (cases "split_on d xs") auto
qed simp

lemma raw_lines_terminated: "raw_lines (xs @ [NL]) = split_on NL xs"
  by (simp add: raw_lines_def split_on_append Let_def)

lemma raw_lines_concat:
  assumes "\<And>l. l \<in> set ls \<Longrightarrow> NL \<notin> set l"
  shows "raw_lines (concat (map (\<lambda>l. l @ [NL]) ls)) = ls"
proof -
  have "split_on NL (concat (map (\<lambda>l. l @ [NL]) ls)) = ls @ [[]]"
    using assms by (induction ls) (simp_all add: split_on_prefix)
  then show ?thesis by (simp add: raw_lines_def)
qed

lemma dropCR_id: "l = [] \<or> last l \<noteq> CR \<Longrightarrow> dropCR l = l"
  by (auto simp: dropCR_def)

text \<open>The scanner reads back the lines that were written, whatever subset of them is on disk.\<close>

lemma scan_written:
  assumes "\<And>l. l \<in> set ls \<Longrightarrow> NL \<notin> set l \<and> dropCR l = l \<and> length l < maxToken"
  shows "scan_lines (concat (map (\<lambda>l. l @ [NL]) ls)) = ls"
    and "scan_err (concat (map (\<lambda>l. l @ [NL]) ls)) e = e"
proof -
  have raw: "raw_lines (concat (map (\<lambda>l. l @ [NL]) ls)) = ls"
    using assms by (intro raw_lines_concat) auto
  have all: "takeWhile (\<lambda>l. length l < maxToken) ls = ls"
    using assms by (simp add: takeWhile_eq_all_conv)
  have "map dropCR ls = ls" using assms by (simp add: map_idI)
  then show "scan_lines (concat (map (\<lambda>l. l @ [NL]) ls)) = ls"
    by (simp only: scan_lines_def raw all)
  show "scan_err (concat (map (\<lambda>l. l @ [NL]) ls)) e = e"
    using assms by (auto simp: scan_err_def raw list_ex_iff)
qed

lemma verify_lines_Inl: "verify_lines lib prev n ls = Inl res \<Longrightarrow> \<not> ar_OK res"
proof (induction ls arbitrary: prev n)
  case (Cons line ls)
  from Cons.prems show ?case
    by (auto simp: audit_broken_def split: list.splits option.splits if_splits dest: Cons.IH)
qed simp

lemma raw_lines_append: "raw_lines (xs @ NL # ys) = split_on NL xs @ raw_lines ys"
  by (simp add: raw_lines_def split_on_append butlast_append Let_def)

lemma VerifyAudit_ok:
  "ar_OK (VerifyAudit lib d e) \<longleftrightarrow>
     (\<exists>p m. verify_lines lib GenesisHash 0 (scan_lines d) = Inr (p, m)) \<and> scan_err d e = None"
  by (auto simp: VerifyAudit_def audit_broken_def dest: verify_lines_Inl split: sum.splits option.splits)

section \<open>Encoders fit for an audit log\<close>

text \<open>
  What the verifier needs of an encoder beyond one line per record: the line does not end in
  a carriage return, which the scanner would strip.
\<close>

locale audit_encoder = line_encoder +
  assumes no_CR: "ok r \<Longrightarrow> trimNL (enc r) \<noteq> [] \<and> last (trimNL (enc r)) \<noteq> CR"
begin

lemma audit_line_shape:
  assumes "NL \<notin> set p" "ok r"
  shows "NL \<notin> set (audit_line lib p n (trimNL (enc r)))" "dropCR (audit_line lib p n (trimNL (enc r))) = audit_line lib p n (trimNL (enc r))"
  using assms enc_trim [of r] no_CR [of r]
  by (auto simp: audit_line_def audit_sum_free NL_dec intro!: dropCR_id)

lemma audit_lines_shape:
  assumes "NL \<notin> set p" "\<And>r. r \<in> set rs \<Longrightarrow> ok r" "l \<in> set (audit_lines lib p n (map (\<lambda>r. trimNL (enc r)) rs))"
  shows "NL \<notin> set l \<and> dropCR l = l"
  using assms
proof (induction rs arbitrary: p n)
  case (Cons r rs)
  show ?case
  proof (cases "l = audit_line lib p n (trimNL (enc r))")
    case True
    then show ?thesis using Cons.prems audit_line_shape [of p r lib n] by simp
  next
    case False
    then show ?thesis using Cons.prems
      by (intro Cons.IH [where p = "audit_sum lib p (trimNL (enc r))" and n = "n + 1"])
        (simp_all add: audit_sum_free)
  qed
qed simp

lemma roundtrip:
  assumes "\<And>r. r \<in> set rs \<Longrightarrow> ok r"
    and "\<And>l. l \<in> set (audit_lines lib GenesisHash 0 (map (\<lambda>r. trimNL (enc r)) rs)) \<Longrightarrow> length l < maxToken"
  shows "VerifyAudit lib (fst (audit_run enc lib rs NewAuditSink)) None
    = \<lparr>ar_Records = of_nat (length rs), ar_OK = True, ar_BrokenAtSeq = -1, ar_Reason = []\<rparr>"
proof -
  have G: "NL \<notin> set GenesisHash" "SP \<notin> set GenesisHash" by (simp_all add: GenesisHash_def)
  let ?ls = "audit_lines lib GenesisHash 0 (map (\<lambda>r. trimNL (enc r)) rs)"
  have data: "fst (audit_run enc lib rs NewAuditSink) = concat (map (\<lambda>l. l @ [NL]) ?ls)"
    by (simp add: audit_run_lines NewAuditSink_def)
  have "NL \<notin> set l \<and> dropCR l = l \<and> length l < maxToken" if "l \<in> set ?ls" for l
    using audit_lines_shape [OF G(1) assms(1) that] assms(2) [OF that] by simp
  note scan = scan_written [OF this]
  show ?thesis
    using verify_audit_lines [OF G(2), of lib 0 "map (\<lambda>r. trimNL (enc r)) rs" "[]"] scan
    by (simp add: VerifyAudit_def data)
qed

lemma gap:
  assumes "\<And>r. r \<in> set (as @ x # bs) \<Longrightarrow> ok r" "bs \<noteq> []"
    and "\<And>l. l \<in> set (audit_lines lib GenesisHash 0 (map (\<lambda>r. trimNL (enc r)) (as @ x # bs))) \<Longrightarrow> length l < maxToken"
    and "a1 = snd (audit_run enc lib as NewAuditSink)" "a2 = snd (audit_Emit enc lib x a1)"
  shows "VerifyAudit lib (fst (audit_run enc lib as NewAuditSink) @ fst (audit_run enc lib bs a2)) None
    = audit_broken (of_nat (length as)) (of_nat (length as)) ''seq not contiguous (deletion/reorder)''"
proof -
  let ?c = "\<lambda>r. trimNL (enc r)"
  have G: "NL \<notin> set GenesisHash" "SP \<notin> set GenesisHash" by (simp_all add: GenesisHash_def)
  let ?p = "chain lib GenesisHash (map ?c as)" and ?n = "of_nat (length as) :: u64"
  let ?q = "audit_sum lib ?p (?c x)"
  let ?as = "audit_lines lib GenesisHash 0 (map ?c as)" and ?bs = "audit_lines lib ?q (?n + 1) (map ?c bs)"
  have split: "audit_lines lib p n (cs @ ds) = audit_lines lib p n cs @ audit_lines lib (chain lib p cs) (n + of_nat (length cs)) ds"
    for p n cs ds by (induction cs arbitrary: p n) (simp_all add: add.assoc)
  have data: "fst (audit_run enc lib as NewAuditSink) @ fst (audit_run enc lib bs a2)
      = concat (map (\<lambda>l. l @ [NL]) (?as @ ?bs))"
    by (simp add: audit_run_lines NewAuditSink_def audit_Emit_def Let_def assms(4,5))
  have "NL \<notin> set l \<and> dropCR l = l \<and> length l < maxToken" if "l \<in> set (?as @ ?bs)" for l
    using that audit_lines_shape [OF G(1), of as l] audit_lines_shape [OF audit_sum_free(2), of bs l] assms(1,3)
    by (auto simp: split)
  then have scan: "scan_lines (concat (map (\<lambda>l. l @ [NL]) (?as @ ?bs))) = ?as @ ?bs"
    by (rule scan_written)
  obtain b bs' where bs: "bs = b # bs'" using assms(2) by (cases bs) auto
  have "unat (?n + 1) \<noteq> unat ?n" by (simp add: word_unat_eq_iff [symmetric])
  then have "verify_lines lib ?p ?n ?bs = Inl (audit_broken ?n ?n ''seq not contiguous (deletion/reorder)'')"
    by (simp add: bs splitN_audit_line audit_sum_free ParseUint_dec)
  then show ?thesis
    using verify_audit_lines [OF G(2), of lib 0 "map ?c as" ?bs]
    unfolding VerifyAudit_def data scan by simp
qed

end

text \<open>The JSON encoder is one: its lines end in a brace.\<close>

interpretation json_audit: audit_encoder "\<lambda>r. JSON_Encode lib e r []" "\<lambda>r. line_lib lib" for lib e
proof unfold_locales
  fix r assume "line_lib lib"
  then have "trimNL (JSON_Encode lib e r []) = json_object (json_line_members lib e r)"
    by (simp add: JSON_Encode_object NL_json_line trimNL_id)
  then show "trimNL (JSON_Encode lib e r []) \<noteq> [] \<and> last (trimNL (JSON_Encode lib e r [])) \<noteq> CR"
    by (simp add: json_object_def)
qed

section \<open>Properties\<close>

text \<open>
  Round trip: what the audit sink writes with the JSON encoder, for any sequence of records, is
  accepted by \<open>VerifyAudit\<close> with the number of records written, provided every line fits the
  verifier's 8 MiB buffer.
\<close>

lemma audit_roundtrip:
  assumes "line_lib lib"
    and "\<And>l. l \<in> set (audit_lines lib GenesisHash 0 (map (\<lambda>r. trimNL (JSON_Encode lib e r [])) rs)) \<Longrightarrow> length l < maxToken"
  shows "VerifyAudit lib (fst (audit_run (\<lambda>r. JSON_Encode lib e r []) lib rs NewAuditSink)) None
    = \<lparr>ar_Records = of_nat (length rs), ar_OK = True, ar_BrokenAtSeq = -1, ar_Reason = []\<rparr>"
  using assms by (intro json_audit.roundtrip)

lemma maxToken_big: "300 < maxToken"
  by (simp add: maxToken_def)

definition audit_recs :: "Record list" where
  "audit_recs = map (\<lambda>m. zeroRecord\<lparr>rLevel := 9, rMessage := m\<rparr>) [''login'', ''sudo'', ''logout'']"

lemma audit_recs_canonical:
  "list_all (\<lambda>r. length (trimNL (JSON_Encode sample_lib NewJSONEncoder r [])) < 100) audit_recs"
  by code_simp

lemma audit_recs_short:
  "list_all (\<lambda>l. length l < 300)
     (audit_lines sample_lib GenesisHash 0 (map (\<lambda>r. trimNL (JSON_Encode sample_lib NewJSONEncoder r [])) audit_recs))"
proof -
  have sha: "length (audit_sum sample_lib p c) = 64" for p c by (simp add: audit_sum_def sample_lib_def)
  have G: "length GenesisHash = 64" by (simp add: GenesisHash_def)
  have "length (dec 0) = 1" "length (dec 1) = 1" "length (dec 2) = 1" by (simp_all add: dec.simps)
  then show ?thesis
    using audit_recs_canonical by (simp add: audit_recs_def audit_line_def sha G)
qed

theorem audit_roundtrip_witness:
  "ar_OK (VerifyAudit sample_lib
      (fst (audit_run (\<lambda>r. JSON_Encode sample_lib NewJSONEncoder r []) sample_lib audit_recs NewAuditSink)) None)"
proof -
  have "VerifyAudit sample_lib
      (fst (audit_run (\<lambda>r. JSON_Encode sample_lib NewJSONEncoder r []) sample_lib audit_recs NewAuditSink)) None
    = \<lparr>ar_Records = of_nat (length audit_recs), ar_OK = True, ar_BrokenAtSeq = -1, ar_Reason = []\<rparr>"
    using audit_recs_short by (intro audit_roundtrip [OF line_lib_sample]) (fastforce simp: list_all_iff maxToken_def)
  then show ?thesis by simp
qed

text \<open>
  C25: Tamper evidence. Take any stream that \<open>VerifyAudit\<close> accepts, and any records the sink
  wrote from the genesis hash. If the stream has as many lines and displays the head hash the
  sink ended with, then it carries exactly the sink's records, byte for byte and in order; or
  else, at some position of the chain, the verifier and the sink hashed two different inputs, both
  of them read off the stream and the records, to the same value. (The only fact used of SHA-256
  is its output length; a forger has to produce such a collision.)
\<close>

theorem audit_binding:
  assumes "\<And>x. length (lib_sha256 lib x) = 32"
    and "ar_OK (VerifyAudit lib d err)" "audit_run enc lib rs NewAuditSink = (out, a)"
    and "length (scan_lines d) = length rs" "head_hash GenesisHash (scan_lines d) = au_prev a"
    and "cs = map canonical_of (scan_lines d)" "ds = map (\<lambda>r. trimNL (enc r)) rs"
  shows "cs = ds \<or> (\<exists>i < length rs. hashed lib cs i \<noteq> hashed lib ds i
    \<and> lib_sha256 lib (hashed lib cs i) = lib_sha256 lib (hashed lib ds i))"
proof -
  from assms(2) obtain p m where acc: "verify_lines lib GenesisHash 0 (scan_lines d) = Inr (p, m)"
    by (auto simp: VerifyAudit_ok)
  have "p = au_prev a" using verify_lines_head [OF acc] assms(5) by simp
  moreover have "au_prev a = chain lib GenesisHash ds"
    using assms(3) by (auto simp: audit_run_lines NewAuditSink_def assms(7))
  ultimately have "chain lib GenesisHash cs = chain lib GenesisHash ds"
    using verify_lines_chain [OF acc] assms(6) by simp
  moreover have "length cs = length ds" "length cs = length rs" using assms(4,6,7) by simp_all
  ultimately show ?thesis using chain_binding [OF assms(1), of cs ds] by simp
qed

text \<open>
  The audit log of three records, copied with carriage returns at its line ends: the bytes
  differ, the stream is accepted with the sink's head hash, and carries the sink's records.
\<close>

abbreviation audit_canon :: "Record \<Rightarrow> bytes" where
  "audit_canon r \<equiv> trimNL (JSON_Encode sample_lib NewJSONEncoder r [])"

definition audit_crlf :: bytes where
  "audit_crlf = concat (map (\<lambda>l. l @ [CR, NL]) (audit_lines sample_lib GenesisHash 0 (map audit_canon audit_recs)))"

lemma scan_crlf:
  "scan_lines audit_crlf = audit_lines sample_lib GenesisHash 0 (map audit_canon audit_recs)"
  "scan_err audit_crlf None = None"
proof -
  let ?ls = "audit_lines sample_lib GenesisHash 0 (map audit_canon audit_recs)"
  have G: "NL \<notin> set GenesisHash" by (simp add: GenesisHash_def)
  have NL: "NL \<notin> set l" if "l \<in> set ?ls" for l
    using json_audit.audit_lines_shape [OF G line_lib_sample that] by simp
  have short: "length l < 300" if "l \<in> set ?ls" for l
    using that audit_recs_short by (simp only: list_all_iff)
  have data: "audit_crlf = concat (map (\<lambda>l. l @ [NL]) (map (\<lambda>l. l @ [CR]) ?ls))"
    by (simp add: audit_crlf_def comp_def)
  have raw: "raw_lines audit_crlf = map (\<lambda>l. l @ [CR]) ?ls"
    unfolding data using NL by (intro raw_lines_concat) auto
  have fits: "\<forall>l \<in> set (map (\<lambda>l. l @ [CR]) ?ls). length l < maxToken"
    using short maxToken_big by fastforce
  then have "takeWhile (\<lambda>l. length l < maxToken) (map (\<lambda>l. l @ [CR]) ?ls) = map (\<lambda>l. l @ [CR]) ?ls"
    by (simp add: takeWhile_eq_all_conv)
  then show "scan_lines audit_crlf = ?ls"
    by (simp only: scan_lines_def raw) (simp add: comp_def dropCR_def)
  show "scan_err audit_crlf None = None" using fits by (auto simp: scan_err_def raw list_ex_iff)
qed

theorem audit_binding_witness:
  "ar_OK (VerifyAudit sample_lib audit_crlf None) \<and> length (scan_lines audit_crlf) = 3
   \<and> audit_crlf \<noteq> fst (audit_run (\<lambda>r. JSON_Encode sample_lib NewJSONEncoder r []) sample_lib audit_recs NewAuditSink)
   \<and> (map canonical_of (scan_lines audit_crlf) = map audit_canon audit_recs
      \<or> (\<exists>i < 3. hashed sample_lib (map canonical_of (scan_lines audit_crlf)) i \<noteq> hashed sample_lib (map audit_canon audit_recs) i
          \<and> lib_sha256 sample_lib (hashed sample_lib (map canonical_of (scan_lines audit_crlf)) i)
            = lib_sha256 sample_lib (hashed sample_lib (map audit_canon audit_recs) i)))"
proof -
  let ?ls = "audit_lines sample_lib GenesisHash 0 (map audit_canon audit_recs)"
  have G: "SP \<notin> set GenesisHash" by (simp add: GenesisHash_def)
  have n: "length audit_recs = 3" "length ?ls = 3" by (simp_all add: audit_recs_def)
  have acc: "verify_lines sample_lib GenesisHash 0 ?ls = Inr (chain sample_lib GenesisHash (map audit_canon audit_recs), 3)"
    using verify_audit_lines [OF G, of sample_lib 0 "map audit_canon audit_recs" "[]"] by (simp add: n)
  have ok: "ar_OK (VerifyAudit sample_lib audit_crlf None)"
    unfolding VerifyAudit_ok scan_crlf acc by blast
  have run: "audit_run (\<lambda>r. JSON_Encode sample_lib NewJSONEncoder r []) sample_lib audit_recs NewAuditSink
      = (concat (map (\<lambda>l. l @ [NL]) ?ls),
         \<lparr>au_seq = 3, au_prev = chain sample_lib GenesisHash (map audit_canon audit_recs)\<rparr>)"
    by (simp add: audit_run_lines NewAuditSink_def n)
  have head: "head_hash GenesisHash (scan_lines audit_crlf)
      = au_prev \<lparr>au_seq = 3, au_prev = chain sample_lib GenesisHash (map audit_canon audit_recs)\<rparr>"
    using verify_lines_head [OF acc] by (simp add: scan_crlf)
  have len: "length (lib_sha256 sample_lib x) = 32" for x by (simp add: sample_lib_def)
  have "length audit_crlf = length (concat (map (\<lambda>l. l @ [NL]) ?ls)) + 3"
    by (simp add: audit_crlf_def length_concat comp_def sum_list_Suc n)
  then have "audit_crlf \<noteq> fst (concat (map (\<lambda>l. l @ [NL]) ?ls), x)" for x by auto
  with audit_binding [OF len ok run _ head refl refl] ok show ?thesis unfolding run scan_crlf by (simp add: n)
qed

text \<open>
  C26: A record missing from the middle, deleted later or lost to a failed write after which the
  sink's state advanced all the same, is reported at exactly its sequence number, with no
  assumption on the hash.
\<close>

theorem audit_gap_detected:
  assumes "line_lib lib" "bs \<noteq> []"
    and "\<And>l. l \<in> set (audit_lines lib GenesisHash 0 (map (\<lambda>r. trimNL (JSON_Encode lib e r [])) (as @ x # bs))) \<Longrightarrow> length l < maxToken"
    and "a1 = snd (audit_run (\<lambda>r. JSON_Encode lib e r []) lib as NewAuditSink)"
    and "a2 = snd (audit_Emit (\<lambda>r. JSON_Encode lib e r []) lib x a1)"
  shows "VerifyAudit lib (fst (audit_run (\<lambda>r. JSON_Encode lib e r []) lib as NewAuditSink)
        @ fst (audit_run (\<lambda>r. JSON_Encode lib e r []) lib bs a2)) None
    = audit_broken (of_nat (length as)) (of_nat (length as)) ''seq not contiguous (deletion/reorder)''"
  using assms by (intro json_audit.gap)

theorem audit_gap_detected_witness:
  "VerifyAudit sample_lib
      (fst (audit_run (\<lambda>r. JSON_Encode sample_lib NewJSONEncoder r []) sample_lib [audit_recs ! 0] NewAuditSink)
        @ fst (audit_run (\<lambda>r. JSON_Encode sample_lib NewJSONEncoder r []) sample_lib [audit_recs ! 2]
            (snd (audit_Emit (\<lambda>r. JSON_Encode sample_lib NewJSONEncoder r []) sample_lib (audit_recs ! 1)
              (snd (audit_run (\<lambda>r. JSON_Encode sample_lib NewJSONEncoder r []) sample_lib [audit_recs ! 0] NewAuditSink)))))) None
    = audit_broken 1 1 ''seq not contiguous (deletion/reorder)''"
proof -
  have recs: "[audit_recs ! 0] @ audit_recs ! 1 # [audit_recs ! 2] = audit_recs"
    by (simp add: audit_recs_def)
  have short: "length l < maxToken" if "l \<in> set (audit_lines sample_lib GenesisHash 0
      (map (\<lambda>r. trimNL (JSON_Encode sample_lib NewJSONEncoder r [])) ([audit_recs ! 0] @ audit_recs ! 1 # [audit_recs ! 2])))" for l
  proof -
    have "length l < 300" using that audit_recs_short unfolding recs list_all_iff by blast
    then show ?thesis using maxToken_big by simp
  qed
  have "[audit_recs ! 2] \<noteq> []" and len: "of_nat (length [audit_recs ! 0]) = (1 :: u64)" by simp_all
  from audit_gap_detected [where as = "[audit_recs ! 0]" and x = "audit_recs ! 1" and e = NewJSONEncoder,
      OF line_lib_sample this(1) short refl refl]
  show ?thesis unfolding len by blast
qed

text \<open>
  A truncated log verifies: if a stream is accepted, so is every prefix of it that ends at a
  line end. \<open>VerifyAudit\<close> alone does not detect the deletion of the last records.
\<close>

lemma audit_truncation_accepted:
  assumes "ar_OK (VerifyAudit lib (d1 @ NL # d2) None)"
  shows "ar_OK (VerifyAudit lib (d1 @ [NL]) None)"
proof -
  let ?r = "raw_lines d2"
  from assms have short: "\<forall>l \<in> set (split_on NL d1 @ ?r). length l < maxToken"
    by (auto simp: VerifyAudit_ok scan_err_def raw_lines_append list_ex_iff split: if_splits)
  then have "takeWhile (\<lambda>l. length l < maxToken) (split_on NL d1) = split_on NL d1"
    "takeWhile (\<lambda>l. length l < maxToken) (split_on NL d1 @ ?r) = split_on NL d1 @ ?r"
    by (auto simp: takeWhile_eq_all_conv)
  then have "scan_lines (d1 @ NL # d2) = scan_lines (d1 @ [NL]) @ map dropCR ?r"
    by (simp only: scan_lines_def raw_lines_append [of d1 d2] raw_lines_terminated map_append)
  moreover have "scan_err (d1 @ [NL]) None = None"
    using short by (auto simp: scan_err_def raw_lines_terminated list_ex_iff)
  ultimately show ?thesis
    using assms by (auto simp: VerifyAudit_ok verify_append split: sum.splits)
qed

theorem audit_truncation_accepted_witness:
  "ar_OK (VerifyAudit sample_lib (audit_line sample_lib GenesisHash 0 ''x'' @ [NL]) None)"
proof (rule audit_truncation_accepted)
  let ?G = GenesisHash and ?h = "audit_sum sample_lib GenesisHash ''x''"
  let ?l2 = "audit_line sample_lib ?h 1 ''y''"
  have G: "SP \<notin> set ?G" "NL \<notin> set ?G" "length ?G = 64" by (simp_all add: GenesisHash_def)
  have sha: "length (audit_sum sample_lib p c) = 64" for p c by (simp add: audit_sum_def sample_lib_def)
  have "length (dec 0) = 1" "length (dec 1) = 1" by (simp_all add: dec.simps)
  then have "NL \<notin> set l \<and> dropCR l = l \<and> length l < maxToken"
    if "l \<in> set (audit_lines sample_lib ?G 0 [''x'', ''y''])" for l
    using that G by (auto simp: audit_line_def audit_sum_free NL_dec sha maxToken_def intro: dropCR_id)
  then have scan: "scan_lines (concat (map (\<lambda>l. l @ [NL]) (audit_lines sample_lib ?G 0 [''x'', ''y''])))
      = audit_lines sample_lib ?G 0 [''x'', ''y'']"
    "scan_err (concat (map (\<lambda>l. l @ [NL]) (audit_lines sample_lib ?G 0 [''x'', ''y'']))) None = None"
    by (rule scan_written, blast)+
  have data: "concat (map (\<lambda>l. l @ [NL]) (audit_lines sample_lib ?G 0 [''x'', ''y'']))
      = audit_line sample_lib ?G 0 ''x'' @ NL # ?l2 @ [NL]" by simp
  have "verify_lines sample_lib ?G 0 (audit_lines sample_lib ?G 0 [''x'', ''y''])
      = Inr (chain sample_lib ?G [''x'', ''y''], 2)"
    using verify_audit_lines [OF G(1), of sample_lib 0 "[''x'', ''y'']" "[]"] by simp
  then show "ar_OK (VerifyAudit sample_lib (audit_line sample_lib ?G 0 ''x'' @ NL # ?l2 @ [NL]) None)"
    unfolding VerifyAudit_ok data [symmetric] scan by blast
qed

end
