(* ===== verification/Sinks.thy ===== *)
theory Sinks
  imports Encoders Fingers_Crossed Audit_Chain
begin

text \<open>
  \<open>sink.go\<close> and the \<open>Sink\<close> methods of \<open>fingerscrossed.go\<close> and \<open>audit.go\<close>: a tree of sinks over
  external writers. A sink is immutable; what \<open>Emit\<close> mutates (the world behind the writers,
  the buffer pool, the debug-on-error buffers, the audit chains) is one heap. The theorems: a
  fan-out delivers to every child whatever its siblings do, every \<open>Emit\<close> keeps the heap
  well-formed, and a writer sink writes exactly the encoding of the records at its level.
\<close>

section \<open>Sinks and the heap\<close>

datatype Sink =
    WriterSink (ws_W: nat) (ws_Enc: Encoder) (ws_MinLvl: Leveler)
  | FanoutSink "nat option" "Sink list"
  | FCSink FingersCrossed Sink
  | AuditSinkOn nat nat Encoder

text \<open>
  The external code: \<open>io.Writer\<close>s (with their optional \<open>Sync\<close> and \<open>Close\<close>), the \<open>OnError\<close>
  callbacks, and the choices of the buffer pool and of slice growth.
\<close>

record 'w env =
  ev_Write :: "nat \<Rightarrow> bytes \<Rightarrow> 'w \<Rightarrow> goerr option \<times> 'w"
  ev_Sync :: "nat \<Rightarrow> ('w \<Rightarrow> goerr option \<times> 'w) option"
  ev_Close :: "nat \<Rightarrow> ('w \<Rightarrow> goerr option \<times> 'w) option"
  ev_OnError :: "nat \<Rightarrow> Sink \<Rightarrow> goerr \<Rightarrow> 'w \<Rightarrow> 'w"
  ev_pick :: "(bytes \<times> nat) list \<Rightarrow> nat option"
  ev_cap :: "bytes \<Rightarrow> nat \<Rightarrow> nat"

record 'w heap =
  hp_w :: 'w
  hp_bufs :: "(bytes \<times> nat) list"
  hp_fc :: fc_store
  hp_audit :: "AuditSink list"

definition NewWriterSink :: "nat \<Rightarrow> Encoder \<Rightarrow> Level \<Rightarrow> Sink" where
  "NewWriterSink w enc minLevel = WriterSink w enc (staticLevel minLevel)"

definition NewFanout :: "Sink list \<Rightarrow> Sink" where
  "NewFanout sinks = FanoutSink None sinks"

section \<open>Operations\<close>

definition write_to :: "'w env \<Rightarrow> nat \<Rightarrow> bytes \<Rightarrow> 'w heap \<Rightarrow> goerr option \<times> 'w heap" where
  "write_to ev w b h = (case ev_Write ev w b (hp_w h) of (err, x) \<Rightarrow> (err, h\<lparr>hp_w := x\<rparr>))"

definition optional_call :: "('w \<Rightarrow> goerr option \<times> 'w) option \<Rightarrow> 'w heap \<Rightarrow> goerr option \<times> 'w heap" where
  "optional_call m h =
     (case m of None \<Rightarrow> (None, h)
      | Some f \<Rightarrow> (case f (hp_w h) of (err, x) \<Rightarrow> (err, h\<lparr>hp_w := x\<rparr>)))"

definition WriterSink_Emit ::
  "golib \<Rightarrow> 'w env \<Rightarrow> level_store \<Rightarrow> nat \<Rightarrow> Encoder \<Rightarrow> Leveler \<Rightarrow> Record \<Rightarrow> 'w heap \<Rightarrow> goerr option \<times> 'w heap" where
  "WriterSink_Emit lib ev lv w enc minLvl r h =
     (if rLevel r < Leveler_Level lv minLvl then (None, h)
      else (let ((b0, c0), pool) = getBuffer (ev_pick ev (hp_bufs h)) (hp_bufs h);
                buf = Encode lib enc r b0;
                (err, h1) = write_to ev w buf (h\<lparr>hp_bufs := pool\<rparr>);
                h2 = h1\<lparr>hp_bufs := putBuffer (buf, ev_cap ev buf c0) (hp_bufs h1)\<rparr>
            in (err, h2)))"

definition AuditSink_Emit ::
  "golib \<Rightarrow> 'w env \<Rightarrow> nat \<Rightarrow> nat \<Rightarrow> Encoder \<Rightarrow> Record \<Rightarrow> 'w heap \<Rightarrow> goerr option \<times> 'w heap" where
  "AuditSink_Emit lib ev a w enc r h =
     (let ((b0, c0), pool) = getBuffer (ev_pick ev (hp_bufs h)) (hp_bufs h);
          buf = Encode lib enc r b0;
          (line, st) = audit_Emit (\<lambda>r. Encode lib enc r b0) lib r (hp_audit h ! a);
          (err, h1) = write_to ev w line (h\<lparr>hp_bufs := pool\<rparr>);
          h2 = h1\<lparr>hp_audit := (hp_audit h1)[a := st],
                  hp_bufs := putBuffer (buf, ev_cap ev buf c0) (hp_bufs h1)\<rparr>
      in (err, h2))"

definition report_error :: "'w env \<Rightarrow> nat option \<Rightarrow> Sink \<Rightarrow> goerr option \<Rightarrow> 'w heap \<Rightarrow> 'w heap" where
  "report_error ev cb s err h =
     (case (err, cb) of
        (Some e, Some k) \<Rightarrow> h\<lparr>hp_w := ev_OnError ev k s e (hp_w h)\<rparr>
      | _ \<Rightarrow> h)"

fun Fanout_Emit ::
  "'w env \<Rightarrow> nat option \<Rightarrow> (Sink \<times> (Record \<Rightarrow> 'w heap \<Rightarrow> goerr option \<times> 'w heap)) list \<Rightarrow> Record \<Rightarrow> 'w heap
    \<Rightarrow> goerr option \<times> 'w heap" where
  "Fanout_Emit ev cb [] r h = (None, h)"
| "Fanout_Emit ev cb ((s, emit) # ss) r h =
     (let (err, h1) = emit r h
      in Fanout_Emit ev cb ss r (report_error ev cb s err h1))"

definition FingersCrossed_Emit ::
  "FingersCrossed \<Rightarrow> (Record \<Rightarrow> 'w heap \<Rightarrow> goerr option \<times> 'w heap) \<Rightarrow> Record \<Rightarrow> 'w heap \<Rightarrow> goerr option \<times> 'w heap" where
  "FingersCrossed_Emit f emit r h =
     (let (x, st) = fc_Emit f r (hp_fc h);
          h1 = h\<lparr>hp_fc := st\<rparr>;
          h2 = fold (\<lambda>hr h. snd (emit (the hr) h)) (fo_held x) h1
      in if fo_self x then emit r h2 else (None, h2))"

primrec Emit :: "golib \<Rightarrow> 'w env \<Rightarrow> level_store \<Rightarrow> Sink \<Rightarrow> Record \<Rightarrow> 'w heap \<Rightarrow> goerr option \<times> 'w heap" where
  "Emit lib ev lv (WriterSink w enc minLvl) = WriterSink_Emit lib ev lv w enc minLvl"
| "Emit lib ev lv (FanoutSink cb ss) = Fanout_Emit ev cb (zip ss (map (Emit lib ev lv) ss))"
| "Emit lib ev lv (FCSink f s) = FingersCrossed_Emit f (Emit lib ev lv s)"
| "Emit lib ev lv (AuditSinkOn a w enc) = AuditSink_Emit lib ev a w enc"

text \<open>\<open>Sync\<close> and \<open>Close\<close> of a fan-out call every child and return the first error.\<close>

fun first_error :: "('w heap \<Rightarrow> goerr option \<times> 'w heap) list \<Rightarrow> goerr option \<Rightarrow> 'w heap \<Rightarrow> goerr option \<times> 'w heap" where
  "first_error [] first h = (first, h)"
| "first_error (f # fs) first h =
     (let (err, h1) = f h
      in first_error fs (if err \<noteq> None \<and> first = None then err else first) h1)"

definition WriterSink_Sync :: "'w env \<Rightarrow> nat \<Rightarrow> 'w heap \<Rightarrow> goerr option \<times> 'w heap" where
  "WriterSink_Sync ev w = optional_call (ev_Sync ev w)"

definition WriterSink_Close :: "'w env \<Rightarrow> nat \<Rightarrow> 'w heap \<Rightarrow> goerr option \<times> 'w heap" where
  "WriterSink_Close ev w = optional_call (ev_Close ev w)"

definition AuditSink_Sync :: "'w env \<Rightarrow> nat \<Rightarrow> 'w heap \<Rightarrow> goerr option \<times> 'w heap" where
  "AuditSink_Sync ev w = optional_call (ev_Sync ev w)"

definition AuditSink_Close :: "'w env \<Rightarrow> nat \<Rightarrow> 'w heap \<Rightarrow> goerr option \<times> 'w heap" where
  "AuditSink_Close ev w = optional_call (ev_Close ev w)"

lemmas sink_flush_defs = WriterSink_Sync_def WriterSink_Close_def AuditSink_Sync_def AuditSink_Close_def

primrec Sink_Sync :: "'w env \<Rightarrow> Sink \<Rightarrow> 'w heap \<Rightarrow> goerr option \<times> 'w heap" where
  "Sink_Sync ev (WriterSink w enc minLvl) = WriterSink_Sync ev w"
| "Sink_Sync ev (FanoutSink cb ss) = first_error (map (Sink_Sync ev) ss) None"
| "Sink_Sync ev (FCSink f s) = Sink_Sync ev s"
| "Sink_Sync ev (AuditSinkOn a w enc) = AuditSink_Sync ev w"

primrec Sink_Close :: "'w env \<Rightarrow> Sink \<Rightarrow> 'w heap \<Rightarrow> goerr option \<times> 'w heap" where
  "Sink_Close ev (WriterSink w enc minLvl) = WriterSink_Close ev w"
| "Sink_Close ev (FanoutSink cb ss) = first_error (map (Sink_Close ev) ss) None"
| "Sink_Close ev (FCSink f s) = Sink_Close ev s"
| "Sink_Close ev (AuditSinkOn a w enc) = AuditSink_Close ev w"

section \<open>Heap invariant\<close>

definition audit_ok :: "AuditSink \<Rightarrow> bool" where
  "audit_ok a \<longleftrightarrow> SP \<notin> set (au_prev a) \<and> NL \<notin> set (au_prev a)"

definition heap_inv :: "'w heap \<Rightarrow> bool" where
  "heap_inv h \<longleftrightarrow> bufpool_inv (hp_bufs h) \<and> (\<forall>b \<in> set (hp_fc h). \<exists>s. scope_rep b s) \<and>
     (\<forall>a \<in> set (hp_audit h). audit_ok a)"

text \<open>What a decorator may assume of the sink it wraps.\<close>

locale preserving =
  fixes emit :: "Record \<Rightarrow> 'h \<Rightarrow> goerr option \<times> 'h"
    and I :: "'h \<Rightarrow> bool"
  assumes emit_inv: "I h \<Longrightarrow> I (snd (emit r h))"
begin

lemma held_inv: "I h \<Longrightarrow> I (fold (\<lambda>hr h. snd (emit (the hr) h)) held h)"
  by (induction held arbitrary: h) (auto intro: emit_inv)

end

lemma heap_inv_world [simp]: "heap_inv (h\<lparr>hp_w := x\<rparr>) = heap_inv h"
  by (simp add: heap_inv_def)

lemma heap_inv_bufs: "heap_inv h \<Longrightarrow> bufpool_inv p \<Longrightarrow> heap_inv (h\<lparr>hp_bufs := p\<rparr>)"
  by (simp add: heap_inv_def)

lemma write_to_heap: "snd (write_to ev w b h) = h\<lparr>hp_w := snd (ev_Write ev w b (hp_w h))\<rparr>"
  "fst (write_to ev w b h) = fst (ev_Write ev w b (hp_w h))"
  by (simp_all add: write_to_def split: prod.split)

lemma WriterSink_inv: "heap_inv h \<Longrightarrow> heap_inv (snd (WriterSink_Emit lib ev lv w enc m r h))"
  by (auto simp: WriterSink_Emit_def write_to_heap Let_def split_beta heap_inv_def intro!: inv_intros)

lemma audit_Emit_ok: "audit_ok (snd (audit_Emit enc lib r a))"
  by (simp add: audit_ok_def audit_Emit_def Let_def audit_sum_free)

lemma AuditSink_inv: "heap_inv h \<Longrightarrow> heap_inv (snd (AuditSink_Emit lib ev a w enc r h))"
  using set_update_subset_insert
  by (fastforce simp: AuditSink_Emit_def write_to_heap Let_def split_beta heap_inv_def audit_Emit_ok
      intro!: inv_intros)

lemma fc_Emit_store:
  assumes "\<forall>b \<in> set st. \<exists>s. scope_rep b s" "b \<in> set (snd (fc_Emit f r st))"
  shows "\<exists>s. scope_rep b s"
proof (cases "bufFor f r < length st")
  case True
  then obtain s where s: "scope_rep (st ! bufFor f r) s" using assms(1) nth_mem by blast
  obtain c where c: "c < length st" "b = snd (fc_Emit f r st) ! c"
    using assms(2) by (metis in_set_conv_nth fc_Emit_frame(1))
  then show ?thesis
    using fc_Emit_refines(2) [OF True s] fc_Emit_frame(2) [of c f r st] assms(1)
    by (cases "c = bufFor f r") auto
next
  case False
  then have "snd (fc_Emit f r st) = st"
    by (simp add: fc_Emit_def Let_def split_beta list_update_beyond not_less)
  with assms show ?thesis by simp
qed

lemma report_error_inv [simp]: "heap_inv (report_error ev cb s err h) = heap_inv h"
  by (simp add: report_error_def split: option.split)

lemma Fanout_inv:
  assumes "\<And>s e h. (s, e) \<in> set ss \<Longrightarrow> heap_inv h \<Longrightarrow> heap_inv (snd (e r h))" "heap_inv h"
  shows "heap_inv (snd (Fanout_Emit ev cb ss r h))"
  using assms
proof (induction ev cb ss r h rule: Fanout_Emit.induct)
  case (2 ev cb s emit ss r h)
  have "heap_inv (snd (emit r h))" using "2.prems"(1) [of s emit h] "2.prems"(2) by simp
  moreover have "heap_inv (snd (e r h))" if "(s, e) \<in> set ss" "heap_inv h" for s e h
    by (rule "2.prems"(1) [of s e]) (use that in simp_all)
  ultimately show ?case
    using "2.IH" [of "emit r h" "fst (emit r h)" "snd (emit r h)"] by (simp add: split_beta)
qed simp

lemma FingersCrossed_inv:
  assumes "preserving emit heap_inv" "heap_inv h"
  shows "heap_inv (snd (FingersCrossed_Emit f emit r h))"
proof -
  obtain x st where x: "fc_Emit f r (hp_fc h) = (x, st)" by fastforce
  have "\<exists>s. scope_rep b s" if "b \<in> set st" for b
    using fc_Emit_store [of "hp_fc h" b f r] assms(2) that x by (simp add: heap_inv_def)
  then have "heap_inv (h\<lparr>hp_fc := st\<rparr>)" using assms(2) by (simp add: heap_inv_def)
  then show ?thesis
    using preserving.held_inv [OF assms(1)] preserving.emit_inv [OF assms(1)]
    by (simp add: FingersCrossed_Emit_def x Let_def)
qed

lemma Emit_inv: "heap_inv h \<Longrightarrow> heap_inv (snd (Emit lib ev lv s r h))"
proof (induction s arbitrary: r h)
  case (FanoutSink cb ss)
  have "heap_inv (snd (e r h'))" if "(s, e) \<in> set (zip ss (map (Emit lib ev lv) ss))" "heap_inv h'" for s e h'
  proof -
    have "e = Emit lib ev lv s" "s \<in> set ss" using that(1) by (auto simp: set_zip)
    then show ?thesis using FanoutSink.IH that(2) by simp
  qed
  then have "heap_inv (snd (Fanout_Emit ev cb (zip ss (map (Emit lib ev lv) ss)) r h))"
    using FanoutSink.prems by (rule Fanout_inv)
  then show ?case by simp
next
  case (FCSink f s)
  then have "preserving (Emit lib ev lv s) heap_inv" by (intro preserving.intro)
  then show ?case using FCSink.prems by (simp add: FingersCrossed_inv)
qed (simp_all add: WriterSink_inv AuditSink_inv)

interpretation sink: preserving "Emit lib ev lv s" heap_inv for lib ev lv s
  by unfold_locales (rule Emit_inv)

section \<open>Writer sinks\<close>

lemma WriterSink_world:
  assumes "heap_inv h"
  shows "fst (WriterSink_Emit lib ev lv w enc m r h) =
      (if rLevel r < Leveler_Level lv m then None else fst (ev_Write ev w (Encode lib enc r []) (hp_w h)))"
    and "hp_w (snd (WriterSink_Emit lib ev lv w enc m r h)) =
      (if rLevel r < Leveler_Level lv m then hp_w h else snd (ev_Write ev w (Encode lib enc r []) (hp_w h)))"
proof -
  have "fst (fst (getBuffer (ev_pick ev (hp_bufs h)) (hp_bufs h))) = []"
    using assms by (simp add: heap_inv_def getBuffer_empty)
  then show "fst (WriterSink_Emit lib ev lv w enc m r h) =
      (if rLevel r < Leveler_Level lv m then None else fst (ev_Write ev w (Encode lib enc r []) (hp_w h)))"
    and "hp_w (snd (WriterSink_Emit lib ev lv w enc m r h)) =
      (if rLevel r < Leveler_Level lv m then hp_w h else snd (ev_Write ev w (Encode lib enc r []) (hp_w h)))"
    by (simp_all add: WriterSink_Emit_def write_to_heap Let_def split_beta)
qed

section \<open>Failure isolation\<close>

text \<open>
  Writers that do not share state: the world has one component per writer and a rest, a write
  reads and changes its own component only, and the error callback leaves the writers alone.
\<close>

definition indep_env :: "((nat \<Rightarrow> 'x) \<times> 'y) env \<Rightarrow> bool" where
  "indep_env ev \<longleftrightarrow>
     (\<forall>i j b w. j \<noteq> i \<longrightarrow> fst (snd (ev_Write ev i b w)) j = fst w j) \<and>
     (\<forall>i b w w'. fst w i = fst w' i \<longrightarrow> fst (snd (ev_Write ev i b w)) i = fst (snd (ev_Write ev i b w')) i) \<and>
     (\<forall>k s e w. fst (ev_OnError ev k s e w) = fst w)"

lemma indepD:
  assumes "indep_env ev"
  shows "j \<noteq> i \<Longrightarrow> fst (snd (ev_Write ev i b w)) j = fst w j"
    and "fst w i = fst w' i \<Longrightarrow> fst (snd (ev_Write ev i b w)) i = fst (snd (ev_Write ev i b w')) i"
    and "fst (ev_OnError ev k s e w) = fst w"
  using assms unfolding indep_env_def by blast+

fun isWriter :: "Sink \<Rightarrow> bool" where
  "isWriter (WriterSink w enc m) = True"
| "isWriter s = False"

abbreviation writer_state :: "((nat \<Rightarrow> 'x) \<times> 'y) heap \<Rightarrow> nat \<Rightarrow> 'x" where
  "writer_state h i \<equiv> fst (hp_w h) i"

lemma writer_frame:
  assumes "indep_env ev" "isWriter s" "heap_inv h" "i \<noteq> ws_W s"
  shows "writer_state (snd (Emit lib ev lv s r h)) i = writer_state h i"
  using assms by (cases s) (simp_all add: WriterSink_world indepD(1))

lemma writer_local:
  assumes "indep_env ev" "isWriter s" "heap_inv h" "heap_inv h'" "writer_state h (ws_W s) = writer_state h' (ws_W s)"
  shows "writer_state (snd (Emit lib ev lv s r h)) (ws_W s) = writer_state (snd (Emit lib ev lv s r h')) (ws_W s)"
proof -
  obtain w enc m where s: "s = WriterSink w enc m" using assms(2) by (cases s) auto
  have "fst (snd (ev_Write ev w b (hp_w h))) w = fst (snd (ev_Write ev w b (hp_w h'))) w" for b
    by (rule indepD(2) [OF assms(1)]) (use assms(5) s in simp)
  then show ?thesis using assms s by (simp add: WriterSink_world)
qed

lemma report_error_writers:
  "indep_env ev \<Longrightarrow> writer_state (report_error ev cb s err h) i = writer_state h i"
  by (simp add: report_error_def indepD(3) split: option.split)

lemma Fanout_writers:
  assumes ev: "indep_env ev" and "\<And>s. s \<in> set ss \<Longrightarrow> isWriter s" "distinct (map ws_W ss)" "heap_inv h"
  shows "writer_state (snd (Emit lib ev lv (FanoutSink cb ss) r h)) i =
    (case find (\<lambda>s. ws_W s = i) ss of
       None \<Rightarrow> writer_state h i | Some s \<Rightarrow> writer_state (snd (Emit lib ev lv s r h)) i)"
  using assms(2-4)
proof (induction ss arbitrary: h)
  case (Cons s ss)
  let ?h1 = "report_error ev cb s (fst (Emit lib ev lv s r h)) (snd (Emit lib ev lv s r h))"
  have inv: "heap_inv ?h1" using Cons.prems(3) by (simp add: Emit_inv)
  have same: "writer_state ?h1 j = writer_state h j" if "j \<noteq> ws_W s" for j
    using writer_frame [OF ev] Cons.prems(1,3) that by (simp add: report_error_writers [OF ev])
  have "writer_state (snd (Emit lib ev lv (FanoutSink cb (s # ss)) r h)) i
      = writer_state (snd (Emit lib ev lv (FanoutSink cb ss) r ?h1)) i"
    by (simp add: split_beta)
  also have "\<dots> = (case find (\<lambda>s. ws_W s = i) ss of
      None \<Rightarrow> writer_state ?h1 i | Some s \<Rightarrow> writer_state (snd (Emit lib ev lv s r ?h1)) i)"
    using Cons.prems inv by (intro Cons.IH) simp_all
  also have "\<dots> = (case find (\<lambda>s. ws_W s = i) (s # ss) of
      None \<Rightarrow> writer_state h i | Some s \<Rightarrow> writer_state (snd (Emit lib ev lv s r h)) i)"
  proof (cases "ws_W s = i")
    case True
    then have "find (\<lambda>s. ws_W s = i) ss = None"
      using Cons.prems(2) by (auto simp: find_None_iff image_iff)
    then show ?thesis using True by (simp add: report_error_writers [OF ev])
  next
    case False
    show ?thesis
    proof (cases "find (\<lambda>s. ws_W s = i) ss")
      case None
      then show ?thesis using False same [of i] by simp
    next
      case (Some s')
      then have s': "s' \<in> set ss" "ws_W s' = i" by (auto simp: find_Some_iff)
      then have "writer_state (snd (Emit lib ev lv s' r ?h1)) (ws_W s') = writer_state (snd (Emit lib ev lv s' r h)) (ws_W s')"
        using Cons.prems(1,3) inv same [of i] False by (intro writer_local [OF ev]) simp_all
      then show ?thesis using Some s'(2) False by simp
    qed
  qed
  finally show ?case .
qed simp

lemma Fanout_nil: "fst (Fanout_Emit ev cb ss r h) = None"
  by (induction ev cb ss r h rule: Fanout_Emit.induct) (simp_all add: Let_def split_beta)

section \<open>Properties\<close>

text \<open>
  C31: Failure isolation of \<open>Fanout\<close>: with children on independent writers, whatever errors the
  writers return, the fan-out returns nil and leaves every child's writer in exactly the state
  it would be in had that child been the only sink. One failing sink never costs another one
  its record.
\<close>

theorem fanout_isolation:
  assumes "indep_env ev" "\<And>s. s \<in> set ss \<Longrightarrow> isWriter s" "distinct (map ws_W ss)" "heap_inv h" "s \<in> set ss"
  shows "fst (Emit lib ev lv (FanoutSink cb ss) r h) = None
    \<and> writer_state (snd (Emit lib ev lv (FanoutSink cb ss) r h)) (ws_W s)
      = writer_state (snd (Emit lib ev lv s r h)) (ws_W s)"
proof -
  have "find (\<lambda>x. ws_W x = ws_W s) ss = Some s"
    using assms(3,5) by (induction ss) auto
  then show ?thesis
    using Fanout_writers [OF assms(1-4), of lib lv cb r "ws_W s"] Fanout_nil by simp
qed

text \<open>Writer 0 fails every write; the others append; the callback counts.\<close>

definition flaky_env :: "((nat \<Rightarrow> bytes) \<times> nat) env" where
  "flaky_env = \<lparr>
     ev_Write = (\<lambda>i b w. if i = 0 then (Some (GoErr ''disk full''), w)
                         else (None, ((fst w)(i := fst w i @ b), snd w))),
     ev_Sync = (\<lambda>i. None), ev_Close = (\<lambda>i. None),
     ev_OnError = (\<lambda>k s e w. (fst w, Suc (snd w))),
     ev_pick = (\<lambda>pool. None), ev_cap = (\<lambda>b c. c)\<rparr>"

definition empty_heap :: "((nat \<Rightarrow> bytes) \<times> nat) heap" where
  "empty_heap = \<lparr>hp_w = ((\<lambda>_. []), 0), hp_bufs = [], hp_fc = [], hp_audit = []\<rparr>"

lemma flaky_indep: "indep_env flaky_env"
  by (auto simp: indep_env_def flaky_env_def)

lemma empty_heap_inv: "heap_inv empty_heap"
  by (simp add: heap_inv_def empty_heap_def bufpool_inv_def)

theorem fanout_isolation_witness:
  "writer_state (snd (Emit sample_lib flaky_env (\<lambda>_. 0)
       (FanoutSink (Some 0) [NewWriterSink 0 EncLogfmt 1, NewWriterSink 1 EncLogfmt 1]) (fc_rec 9 ''hi'') empty_heap)) 1
   = Encode sample_lib EncLogfmt (fc_rec 9 ''hi'') []"
proof -
  let ?ss = "[NewWriterSink 0 EncLogfmt 1, NewWriterSink 1 EncLogfmt 1]"
  have "writer_state (snd (Emit sample_lib flaky_env (\<lambda>_. 0) (FanoutSink (Some 0) ?ss) (fc_rec 9 ''hi'') empty_heap))
      (ws_W (NewWriterSink 1 EncLogfmt 1))
    = writer_state (snd (Emit sample_lib flaky_env (\<lambda>_. 0) (NewWriterSink 1 EncLogfmt 1) (fc_rec 9 ''hi'') empty_heap))
      (ws_W (NewWriterSink 1 EncLogfmt 1))"
    by (rule fanout_isolation [OF flaky_indep _ _ empty_heap_inv, THEN conjunct2])
      (auto simp: NewWriterSink_def)
  then show ?thesis
    by (simp add: NewWriterSink_def WriterSink_world [OF empty_heap_inv])
      (simp add: flaky_env_def empty_heap_def)
qed

text \<open>
  C38: Every \<open>Emit\<close>, on any tree of sinks, keeps the shared state well-formed: pooled buffers are
  empty and bounded, every debug-on-error buffer represents a bounded trail, and the audit
  chains stay printable on one line.
\<close>

theorem Emit_keeps_heap:
  assumes "heap_inv h"
  shows "heap_inv (snd (Emit lib ev lv s r h))"
  using assms by (rule sink.emit_inv)

text \<open>
  A heap in use: a buffer in the pool, which the next \<open>Get\<close> returns, a scope that holds one record,
  an audit chain; and a tree of sinks that touches all three. An error record opens the scope
  and advances the chain.
\<close>

definition busy_heap :: "((nat \<Rightarrow> bytes) \<times> nat) heap" where
  "busy_heap = \<lparr>hp_w = ((\<lambda>_. []), 0), hp_bufs = [([], 16)],
     hp_fc = [fc_push (Clone (fc_rec 5 ''a'')) (newFCBuffer 2)], hp_audit = [NewAuditSink]\<rparr>"

definition busy_env :: "((nat \<Rightarrow> bytes) \<times> nat) env" where
  "busy_env = flaky_env\<lparr>ev_pick := (\<lambda>pool. if pool = [] then None else Some 0)\<rparr>"

definition busy_sink :: Sink where
  "busy_sink = FanoutSink (Some 0) [FCSink fc_sample (NewWriterSink 1 EncLogfmt 1), AuditSinkOn 0 2 EncLogfmt]"

lemma busy_heap_inv: "heap_inv busy_heap"
proof -
  have "scope_rep (fc_push (Clone (fc_rec 5 ''a'')) (newFCBuffer 2)) \<lparr>sc_trail = [Clone (fc_rec 5 ''a'')], sc_active = False\<rparr>"
    using fc_rep_push [OF fc_rep_new [of 2], of "Clone (fc_rec 5 ''a'')"]
    by (simp add: scope_rep_def newFCBuffer_def last_n_def Let_def)
  then show ?thesis
    by (auto simp: heap_inv_def busy_heap_def bufpool_inv_def audit_ok_def NewAuditSink_def GenesisHash_def)
qed

theorem Emit_keeps_heap_witness:
  "heap_inv busy_heap
   \<and> heap_inv (snd (Emit sample_lib busy_env (\<lambda>_. 0) busy_sink (fc_rec 17 ''boom'') busy_heap))
   \<and> (let h = snd (Emit sample_lib busy_env (\<lambda>_. 0) busy_sink (fc_rec 17 ''boom'') busy_heap)
      in map fst (hp_bufs h) = [[]] \<and> map fb_activated (hp_fc h) = [True] \<and> map fb_count (hp_fc h) = [0]
        \<and> map au_seq (hp_audit h) = [1]
        \<and> fst (hp_w h) 1 = Encode sample_lib EncLogfmt (Clone (fc_rec 5 ''a'')) [] @ Encode sample_lib EncLogfmt (fc_rec 17 ''boom'') [])"
proof (intro conjI)
  show "heap_inv busy_heap" by (rule busy_heap_inv)
  show "heap_inv (snd (Emit sample_lib busy_env (\<lambda>_. 0) busy_sink (fc_rec 17 ''boom'') busy_heap))"
    by (rule Emit_keeps_heap [OF busy_heap_inv])
  show "let h = snd (Emit sample_lib busy_env (\<lambda>_. 0) busy_sink (fc_rec 17 ''boom'') busy_heap)
      in map fst (hp_bufs h) = [[]] \<and> map fb_activated (hp_fc h) = [True] \<and> map fb_count (hp_fc h) = [0]
        \<and> map au_seq (hp_audit h) = [1]
        \<and> fst (hp_w h) 1 = Encode sample_lib EncLogfmt (Clone (fc_rec 5 ''a'')) [] @ Encode sample_lib EncLogfmt (fc_rec 17 ''boom'') []"
    by (simp add: busy_sink_def busy_heap_def busy_env_def flaky_env_def NewWriterSink_def WriterSink_Emit_def
        AuditSink_Emit_def FingersCrossed_Emit_def fc_Emit_def fc_drain_def fc_push_def newFCBuffer_def
        write_to_def report_error_def getBuffer_def putBuffer_def audit_Emit_def NewAuditSink_def Let_def)
qed

text \<open>
  A writer sink makes one \<open>Write\<close> of exactly the encoding of the record, or none when the
  record is below its level; no byte of an earlier record survives in the pooled buffer.
\<close>

lemma WriterSink_exact:
  assumes "heap_inv h"
  shows "let res = Emit lib ev lv (WriterSink w enc m) r h
    in if rLevel r < Leveler_Level lv m then res = (None, h)
       else (fst res, hp_w (snd res)) = ev_Write ev w (Encode lib enc r []) (hp_w h)"
  using WriterSink_world [OF assms, of lib ev lv w enc m r]
  by (auto simp: Let_def WriterSink_Emit_def)

theorem WriterSink_exact_witness:
  "fst (hp_w (snd (Emit sample_lib flaky_env (\<lambda>_. 0) (WriterSink 1 EncLogfmt (staticLevel 1)) (fc_rec 9 ''hi'') empty_heap))) 1
   = Encode sample_lib EncLogfmt (fc_rec 9 ''hi'') []"
  using WriterSink_exact [OF empty_heap_inv, of sample_lib flaky_env "\<lambda>_. 0" 1 EncLogfmt "staticLevel 1" "fc_rec 9 ''hi''"]
  by (simp add: Let_def prod_eq_iff) (simp add: flaky_env_def empty_heap_def)

end
