(* ===== verification/Logger.thy ===== *)
theory Logger
  imports Metrics Processors Sinks
begin

text \<open>
  \<open>logger.go\<close> (and \<open>logAt\<close> of \<open>handler.go\<close>, \<open>SyncTransport\<close> of \<open>transport.go\<close>): the core. A logger
  is immutable; the state it shares with its children (processors, counters, the record pool,
  the state behind the transport) is the world. The transport is the interface of the code: a
  record of operations. The theorems: each call is filtered, dropped or dispatched exactly
  once and counted as such; the pool leaks nothing from one record to the next; \<open>With\<close> prepends.
\<close>

section \<open>Transports as an interface\<close>

record 'h Transport =
  tr_Dispatch :: "level_store \<Rightarrow> Record \<Rightarrow> 'h \<Rightarrow> 'h"
  tr_Dropped :: "'h \<Rightarrow> u64"
  tr_Sync :: "'h \<Rightarrow> goerr option \<times> 'h"
  tr_Close :: "'h \<Rightarrow> goerr option \<times> 'h"

definition NewSyncTransport :: "golib \<Rightarrow> 'w env \<Rightarrow> Sink \<Rightarrow> 'w heap Transport" where
  "NewSyncTransport lib ev s =
     \<lparr>tr_Dispatch = (\<lambda>lv r h. snd (Emit lib ev lv s r h)), tr_Dropped = (\<lambda>h. 0),
      tr_Sync = Sink_Sync ev s, tr_Close = Sink_Close ev s\<rparr>"

section \<open>The logger\<close>

text \<open>\<open>processors\<close> and \<open>metrics\<close> are addresses in the world: children share them.\<close>

record 'h Logger =
  lg_leveler :: Leveler
  lg_processors :: nat
  lg_transport :: "'h Transport"
  lg_with :: "Field list"
  lg_addCaller :: bool
  lg_callerSkip :: int
  lg_metrics :: "nat option"

record 'h world =
  wd_levels :: level_store
  wd_procs :: "Processor list list"
  wd_metrics :: "Metrics list"
  wd_pool :: "Record list"
  wd_h :: 'h

datatype 'h Option = WithLevel Level | WithLeveler Leveler | WithProcessors "Processor list"
  | WithSink Sink | WithTransport "'h Transport" | WithCaller int

record 'h config =
  cf_leveler :: Leveler
  cf_processors :: "Processor list"
  cf_transport :: "'h Transport option"
  cf_sink :: "Sink option"
  cf_addCaller :: bool
  cf_callerSkip :: int

fun apply_option :: "'h Option \<Rightarrow> 'h config \<Rightarrow> 'h config" where
  "apply_option (WithLevel l) c = c\<lparr>cf_leveler := staticLevel l\<rparr>"
| "apply_option (WithLeveler lv) c = c\<lparr>cf_leveler := lv\<rparr>"
| "apply_option (WithProcessors ps) c = c\<lparr>cf_processors := ps\<rparr>"
| "apply_option (WithSink s) c = c\<lparr>cf_sink := Some s\<rparr>"
| "apply_option (WithTransport t) c = c\<lparr>cf_transport := Some t\<rparr>"
| "apply_option (WithCaller skip) c = c\<lparr>cf_addCaller := True, cf_callerSkip := skip\<rparr>"

definition default_config :: "'h config" where
  "default_config = \<lparr>cf_leveler = staticLevel LevelInfo, cf_processors = [], cf_transport = None, cf_sink = None,
     cf_addCaller = False, cf_callerSkip = 0\<rparr>"

definition new_logger :: "'h config \<Rightarrow> 'h Transport \<Rightarrow> 'h world \<Rightarrow> 'h Logger \<times> 'h world" where
  "new_logger c t w =
     (\<lparr>lg_leveler = cf_leveler c, lg_processors = length (wd_procs w), lg_transport = t, lg_with = [],
       lg_addCaller = cf_addCaller c, lg_callerSkip = cf_callerSkip c,
       lg_metrics = Some (length (wd_metrics w))\<rparr>,
      w\<lparr>wd_procs := wd_procs w @ [cf_processors c], wd_metrics := wd_metrics w @ [zeroMetrics]\<rparr>)"

lemmas new_defs [simp] = default_config_def new_logger_def

text \<open>Writer 2 is \<open>os.Stderr\<close>.\<close>

definition New :: "golib \<Rightarrow> 'w env \<Rightarrow> 'w heap Option list \<Rightarrow> 'w heap world \<Rightarrow> 'w heap Logger \<times> 'w heap world" where
  "New lib ev opts w =
     (let c = fold apply_option opts default_config;
          t = (case cf_transport c of
                 Some t \<Rightarrow> t
               | None \<Rightarrow>
                   (let sink = (case cf_sink c of
                          Some s \<Rightarrow> s
                        | None \<Rightarrow> NewWriterSink 2 (EncJSON NewJSONEncoder) LevelTrace)
                    in NewSyncTransport lib ev sink))
      in new_logger c t w)"

definition Enabled :: "'h Logger \<Rightarrow> Level \<Rightarrow> 'h world \<Rightarrow> bool" where
  "Enabled l level w = (level \<ge> Leveler_Level (wd_levels w) (lg_leveler l))"

definition With :: "'h Logger \<Rightarrow> Field list \<Rightarrow> 'h Logger" where
  "With l fs = l\<lparr>lg_with := ([] @ lg_with l) @ fs\<rparr>"

text \<open>
  What a call reads from its surroundings: the current time, the times the processors read,
  the record the pool hands out, and the program counter \<open>runtime.Callers\<close> returns.
\<close>

record log_in =
  li_now :: gtime
  li_clock :: "nat \<Rightarrow> gtime"
  li_pick :: "nat option"
  li_callers :: "int \<Rightarrow> u64"

definition update_metrics :: "'h Logger \<Rightarrow> (Metrics \<Rightarrow> Metrics) \<Rightarrow> 'h world \<Rightarrow> 'h world" where
  "update_metrics l f w =
     (case lg_metrics l of
        None \<Rightarrow> w
      | Some m \<Rightarrow> w\<lparr>wd_metrics := (wd_metrics w)[m := f (wd_metrics w ! m)]\<rparr>)"

text \<open>The common tail of \<open>log\<close>, \<open>eventAt\<close> and \<open>logAt\<close>, from \<open>runPipeline\<close> on.\<close>

definition pipeline_dispatch ::
  "golib \<Rightarrow> log_in \<Rightarrow> 'h Logger \<Rightarrow> gctx \<Rightarrow> Level \<Rightarrow> Record \<Rightarrow> 'h world \<Rightarrow> 'h world" where
  "pipeline_dispatch lib i l ctx level r w =
     (let (ps, r1, err) = runPipeline lib (li_clock i) ctx (wd_procs w ! lg_processors l) r;
          w1 = w\<lparr>wd_procs := (wd_procs w)[lg_processors l := ps]\<rparr>
      in case err of
           Some e \<Rightarrow>
             (let w2 = update_metrics l incDropped w1
              in w2\<lparr>wd_pool := release r1 (wd_pool w2)\<rparr>)
         | None \<Rightarrow>
             (let w2 = update_metrics l (incEmitted level) w1;
                  w3 = w2\<lparr>wd_h := tr_Dispatch (lg_transport l) (wd_levels w2) r1 (wd_h w2)\<rparr>
              in w3\<lparr>wd_pool := release r1 (wd_pool w3)\<rparr>))"

definition log :: "golib \<Rightarrow> log_in \<Rightarrow> 'h Logger \<Rightarrow> gctx option \<Rightarrow> Level \<Rightarrow> string \<Rightarrow> Field list \<Rightarrow> 'h world \<Rightarrow> 'h world" where
  "log lib i l ctx0 level msg fs w =
     (if level < Leveler_Level (wd_levels w) (lg_leveler l) then w
      else (let ctx = ctxOr ctx0;
                (r, pool) = newRecord (li_pick i) (wd_pool w);
                r = r\<lparr>rTime := li_now i, rLevel := level, rMessage := msg, rCtx := Some ctx\<rparr>;
                r = (if 0 < length (lg_with l) then r\<lparr>rFields := rFields r @ lg_with l\<rparr> else r);
                r = r\<lparr>rFields := rFields r @ fs\<rparr>;
                r = (if lg_addCaller l then r\<lparr>rPC := li_callers i (3 + lg_callerSkip l)\<rparr> else r)
            in pipeline_dispatch lib i l ctx level r (w\<lparr>wd_pool := pool\<rparr>)))"

definition eventAt :: "golib \<Rightarrow> log_in \<Rightarrow> 'h Logger \<Rightarrow> gctx option \<Rightarrow> Level \<Rightarrow> string \<Rightarrow> Field list \<Rightarrow> 'h world \<Rightarrow> 'h world" where
  "eventAt lib i l ctx0 level name fs w =
     (if level < Leveler_Level (wd_levels w) (lg_leveler l) then w
      else (let ctx = ctxOr ctx0;
                (r, pool) = newRecord (li_pick i) (wd_pool w);
                r = r\<lparr>rTime := li_now i, rLevel := level, rEventName := name, rCtx := Some ctx\<rparr>;
                r = (if 0 < length (lg_with l) then r\<lparr>rFields := rFields r @ lg_with l\<rparr> else r);
                r = r\<lparr>rFields := rFields r @ fs\<rparr>
            in pipeline_dispatch lib i l ctx level r (w\<lparr>wd_pool := pool\<rparr>)))"

definition logAt :: "golib \<Rightarrow> log_in \<Rightarrow> 'h Logger \<Rightarrow> gctx option \<Rightarrow> gtime \<Rightarrow> Level \<Rightarrow> string \<Rightarrow> Field list \<Rightarrow> 'h world \<Rightarrow> 'h world" where
  "logAt lib i l ctx0 t level msg fs w =
     (if level < Leveler_Level (wd_levels w) (lg_leveler l) then w
      else (let ctx = ctxOr ctx0;
                (r, pool) = newRecord (li_pick i) (wd_pool w);
                r = r\<lparr>rTime := t, rLevel := level, rMessage := msg, rCtx := Some ctx\<rparr>;
                r = (if 0 < length (lg_with l) then r\<lparr>rFields := rFields r @ lg_with l\<rparr> else r);
                r = r\<lparr>rFields := rFields r @ fs\<rparr>
            in pipeline_dispatch lib i l ctx level r (w\<lparr>wd_pool := pool\<rparr>)))"

section \<open>The methods\<close>

definition Logger_Trace where
  "Logger_Trace lib i l msg f = log lib i l (Some Background) LevelTrace msg f"
definition Logger_Debug where
  "Logger_Debug lib i l msg f = log lib i l (Some Background) LevelDebug msg f"
definition Logger_Info where
  "Logger_Info lib i l msg f = log lib i l (Some Background) LevelInfo msg f"
definition Logger_Warn where
  "Logger_Warn lib i l msg f = log lib i l (Some Background) LevelWarn msg f"
definition Logger_Error where
  "Logger_Error lib i l msg f = log lib i l (Some Background) LevelError msg f"
definition TraceContext where
  "TraceContext lib i l ctx msg f = log lib i l ctx LevelTrace msg f"
definition DebugContext where
  "DebugContext lib i l ctx msg f = log lib i l ctx LevelDebug msg f"
definition InfoContext where
  "InfoContext lib i l ctx msg f = log lib i l ctx LevelInfo msg f"
definition WarnContext where
  "WarnContext lib i l ctx msg f = log lib i l ctx LevelWarn msg f"
definition ErrorContext where
  "ErrorContext lib i l ctx msg f = log lib i l ctx LevelError msg f"
definition Logger_Log where
  "Logger_Log lib i l ctx level msg f = log lib i l ctx level msg f"
definition Logger_Event where
  "Logger_Event lib i l name f = eventAt lib i l (Some Background) LevelInfo name f"
definition EventAt where
  "EventAt lib i l ctx level name f = eventAt lib i l ctx level name f"

definition Logger_Sync :: "'h Logger \<Rightarrow> 'h world \<Rightarrow> goerr option \<times> 'h world" where
  "Logger_Sync l w = (case tr_Sync (lg_transport l) (wd_h w) of (e, h) \<Rightarrow> (e, w\<lparr>wd_h := h\<rparr>))"

definition Logger_Close :: "'h Logger \<Rightarrow> 'h world \<Rightarrow> goerr option \<times> 'h world" where
  "Logger_Close l w = (case tr_Close (lg_transport l) (wd_h w) of (e, h) \<Rightarrow> (e, w\<lparr>wd_h := h\<rparr>))"

section \<open>Lemmas\<close>

text \<open>The record a call builds, from a clean pool.\<close>

definition call_record :: "log_in \<Rightarrow> 'h Logger \<Rightarrow> gctx option \<Rightarrow> Level \<Rightarrow> string \<Rightarrow> Field list \<Rightarrow> Record" where
  "call_record i l ctx level msg fs =
     \<lparr>rTime = li_now i, rLevel = level, rMessage = msg,
      rPC = (if lg_addCaller l then li_callers i (3 + lg_callerSkip l) else 0), rEventName = [],
      rFields = lg_with l @ fs, rCtx = Some (ctxOr ctx), rPooled = True\<rparr>"

lemma log_enabled:
  assumes "pool_inv (wd_pool w)" "Leveler_Level (wd_levels w) (lg_leveler l) \<le> level"
  shows "log lib i l ctx level msg fs w =
    pipeline_dispatch lib i l (ctxOr ctx) level (call_record i l ctx level msg fs)
      (w\<lparr>wd_pool := snd (newRecord (li_pick i) (wd_pool w))\<rparr>)"
proof -
  obtain r pool where n: "newRecord (li_pick i) (wd_pool w) = (r, pool)" by fastforce
  then have "r = freshRecord" using newRecord_fresh [OF assms(1)] by (metis fst_conv)
  with n assms(2) show ?thesis
    by (simp add: log_def call_record_def freshRecord_def zeroRecord_def Let_def)
qed

lemma pipeline_dispatch_pool:
  "pool_inv (wd_pool w) \<Longrightarrow> pool_inv (wd_pool (pipeline_dispatch lib i l ctx level r w))"
  by (auto simp: pipeline_dispatch_def update_metrics_def Let_def split: prod.split option.split
      intro: inv_intros)

text \<open>The pool is only ever read through \<open>newRecord\<close>.\<close>

lemma pipeline_dispatch_no_pool:
  "(pipeline_dispatch lib i l ctx level r (w\<lparr>wd_pool := p\<rparr>))\<lparr>wd_pool := q\<rparr>
   = (pipeline_dispatch lib i l ctx level r w)\<lparr>wd_pool := q\<rparr>"
  by (simp add: pipeline_dispatch_def update_metrics_def Let_def split: prod.split option.split)

section \<open>Sequences of calls\<close>

record log_call =
  lc_in :: log_in
  lc_ctx :: "gctx option"
  lc_level :: Level
  lc_msg :: string
  lc_fields :: "Field list"

definition call_log :: "golib \<Rightarrow> 'h Logger \<Rightarrow> log_call \<Rightarrow> 'h world \<Rightarrow> 'h world" where
  "call_log lib l c w = log lib (lc_in c) l (lc_ctx c) (lc_level c) (lc_msg c) (lc_fields c) w"

definition log_run :: "golib \<Rightarrow> 'h Logger \<Rightarrow> log_call list \<Rightarrow> 'h world \<Rightarrow> 'h world" where
  "log_run lib l cs w = fold (call_log lib l) cs w"

text \<open>A logger whose counters are in the world, and a transport that keeps what it is given.\<close>

definition wired :: "'h Logger \<Rightarrow> nat \<Rightarrow> 'h world \<Rightarrow> bool" where
  "wired l m w \<longleftrightarrow> lg_metrics l = Some m \<and> m < length (wd_metrics w)"

definition recording :: "Record list Transport \<Rightarrow> bool" where
  "recording t \<longleftrightarrow> (\<forall>lv r h. tr_Dispatch t lv r h = h @ [r])"

lemma incEmitted_counts: "m_emitted (incEmitted lv m) = m_emitted m + 1" "m_dropped (incEmitted lv m) = m_dropped m"
  by (simp_all add: incEmitted_def Let_def)

lemma incDropped_counts: "m_emitted (incDropped m) = m_emitted m" "m_dropped (incDropped m) = m_dropped m + 1"
  by (simp_all add: incDropped_def)

lemma pipeline_dispatch_counts:
  assumes "wired l m w" "recording (lg_transport l)" "w' = pipeline_dispatch lib i l ctx level r w"
  shows "m_emitted (wd_metrics w' ! m) + m_dropped (wd_metrics w' ! m)
      = m_emitted (wd_metrics w ! m) + m_dropped (wd_metrics w ! m) + 1"
    and "m_emitted (wd_metrics w' ! m) - of_nat (length (wd_h w'))
      = m_emitted (wd_metrics w ! m) - of_nat (length (wd_h w))"
    and "wired l m w'" "wd_levels w' = wd_levels w"
  using assms
  by (auto simp: pipeline_dispatch_def update_metrics_def wired_def recording_def Let_def incEmitted_counts
      incDropped_counts split: prod.split option.split)

lemma log_counts_step:
  assumes "wired l m w" "recording (lg_transport l)" "w' = call_log lib l c w"
  shows "m_emitted (wd_metrics w' ! m) + m_dropped (wd_metrics w' ! m)
      = m_emitted (wd_metrics w ! m) + m_dropped (wd_metrics w ! m) + (if Enabled l (lc_level c) w then 1 else 0)"
    and "m_emitted (wd_metrics w' ! m) - of_nat (length (wd_h w'))
      = m_emitted (wd_metrics w ! m) - of_nat (length (wd_h w))"
    and "wired l m w'" "wd_levels w' = wd_levels w"
proof -
  have pool: "wired l m (w\<lparr>wd_pool := p\<rparr>)" for p using assms(1) by (simp add: wired_def)
  note tail = pipeline_dispatch_counts [OF pool assms(2) refl]
  show "m_emitted (wd_metrics w' ! m) + m_dropped (wd_metrics w' ! m)
      = m_emitted (wd_metrics w ! m) + m_dropped (wd_metrics w ! m) + (if Enabled l (lc_level c) w then 1 else 0)"
    using tail(1) by (simp add: assms(3) call_log_def log_def Enabled_def Let_def split: prod.split)
  show "m_emitted (wd_metrics w' ! m) - of_nat (length (wd_h w'))
      = m_emitted (wd_metrics w ! m) - of_nat (length (wd_h w))"
    using tail(2) by (simp add: assms(3) call_log_def log_def Let_def split: prod.split)
  show "wired l m w'" "wd_levels w' = wd_levels w"
    using tail(3,4) assms(1) by (simp_all add: assms(3) call_log_def log_def Let_def split: prod.split)
qed

section \<open>Properties\<close>

text \<open>
  C32: Bookkeeping of the core. Over any sequence of log calls through any pipeline, each enabled call
  is counted exactly once, as emitted or as dropped; calls below the level are not counted; and
  the records handed to the transport are as many as the emitted ones (modulo the width of the
  counters).
\<close>

theorem log_run_counts:
  assumes "wired l m w" "recording (lg_transport l)" "w' = log_run lib l cs w"
  shows "m_emitted (wd_metrics w' ! m) + m_dropped (wd_metrics w' ! m)
      = m_emitted (wd_metrics w ! m) + m_dropped (wd_metrics w ! m)
        + of_nat (length (filter (\<lambda>c. Enabled l (lc_level c) w) cs))
    \<and> m_emitted (wd_metrics w' ! m) - m_emitted (wd_metrics w ! m)
      = of_nat (length (wd_h w')) - of_nat (length (wd_h w))"
proof -
  have "m_emitted (wd_metrics w' ! m) + m_dropped (wd_metrics w' ! m)
      = m_emitted (wd_metrics w ! m) + m_dropped (wd_metrics w ! m)
        + of_nat (length (filter (\<lambda>c. Enabled l (lc_level c) w) cs))
    \<and> m_emitted (wd_metrics w' ! m) - of_nat (length (wd_h w'))
      = m_emitted (wd_metrics w ! m) - of_nat (length (wd_h w))"
    using assms(1,3)
  proof (induction cs arbitrary: w)
    case (Cons c cs)
    note one = log_counts_step [OF Cons.prems(1) assms(2) refl, of lib c]
    have "Enabled l lv (call_log lib l c w) = Enabled l lv w" for lv
      using one(4) by (simp add: Enabled_def)
    then show ?case
      using Cons.IH [OF one(3)] Cons.prems(2) one(1,2) by (simp add: log_run_def algebra_simps)
  qed (simp add: log_run_def)
  then show ?thesis by (simp add: algebra_simps)
qed

definition recording_transport :: "Record list Transport" where
  "recording_transport = \<lparr>tr_Dispatch = (\<lambda>lv r h. h @ [r]), tr_Dropped = (\<lambda>h. 0),
     tr_Sync = (\<lambda>h. (None, h)), tr_Close = (\<lambda>h. (None, h))\<rparr>"

definition demo_logger :: "Record list Logger" where
  "demo_logger = \<lparr>lg_leveler = staticLevel LevelInfo, lg_processors = 0, lg_transport = recording_transport,
     lg_with = [], lg_addCaller = False, lg_callerSkip = 0, lg_metrics = Some 0\<rparr>"

definition demo_world :: "Record list world" where
  "demo_world = \<lparr>wd_levels = (\<lambda>_. 0), wd_procs = [[PSample (NewSampleProcessor 1 0)]],
     wd_metrics = [zeroMetrics], wd_pool = [], wd_h = []\<rparr>"

definition demo_call :: "Level \<Rightarrow> log_call" where
  "demo_call lv = \<lparr>lc_in = \<lparr>li_now = 1, li_clock = (\<lambda>_. 1), li_pick = Some 0, li_callers = (\<lambda>_. 0)\<rparr>,
     lc_ctx = None, lc_level = lv, lc_msg = ''m'', lc_fields = []\<rparr>"

theorem log_run_counts_witness:
  "let w' = log_run sample_lib demo_logger (map demo_call [5, 9, 9, 17]) demo_world
   in m_emitted (wd_metrics w' ! 0) + m_dropped (wd_metrics w' ! 0) = 3"
proof -
  have "wired demo_logger 0 demo_world" "recording (lg_transport demo_logger)"
    by (simp_all add: wired_def demo_logger_def demo_world_def recording_def recording_transport_def)
  from log_run_counts [OF this refl, of sample_lib "map demo_call [5, 9, 9, 17]"] show ?thesis
    by (simp add: Let_def Enabled_def demo_call_def)
      (simp add: demo_logger_def demo_world_def zeroMetrics_def LevelInfo_def)
qed

text \<open>
  C33: Reuse of pooled records is unobservable: whatever clean pool the call starts from and whichever
  record the pool hands out, processors, counters and everything behind the transport end up
  the same; and the pool is clean again afterwards. No field, message or context of one record
  can reach another.
\<close>

theorem log_pool_irrelevant:
  assumes "pool_inv p" "pool_inv q"
  shows "pool_inv (wd_pool (log lib i l ctx level msg fs (w\<lparr>wd_pool := p\<rparr>)))
    \<and> (log lib i l ctx level msg fs (w\<lparr>wd_pool := p\<rparr>))\<lparr>wd_pool := []\<rparr>
      = (log lib (i\<lparr>li_pick := k\<rparr>) l ctx level msg fs (w\<lparr>wd_pool := q\<rparr>))\<lparr>wd_pool := []\<rparr>"
proof (cases "Leveler_Level (wd_levels w) (lg_leveler l) \<le> level")
  case True
  let ?i = "i\<lparr>li_pick := k\<rparr>"
  have same: "call_record ?i l ctx level msg fs = call_record i l ctx level msg fs"
    "pipeline_dispatch lib ?i = pipeline_dispatch lib i"
    by (simp_all add: call_record_def pipeline_dispatch_def fun_eq_iff)
  show ?thesis
    using True assms
    by (simp add: log_enabled same pipeline_dispatch_pool pool_inv_newRecord)
      (metis pipeline_dispatch_no_pool)
next
  case False
  then show ?thesis using assms by (simp add: log_def)
qed

theorem log_pool_irrelevant_witness:
  "pool_inv (wd_pool (log sample_lib (lc_in (demo_call 9)) demo_logger None 9 ''m'' [] (demo_world\<lparr>wd_pool := [freshRecord]\<rparr>)))
   \<and> wd_h (log sample_lib (lc_in (demo_call 9)) demo_logger None 9 ''m'' [] (demo_world\<lparr>wd_pool := [freshRecord]\<rparr>))
     = wd_h (log sample_lib ((lc_in (demo_call 9))\<lparr>li_pick := None\<rparr>) demo_logger None 9 ''m'' [] (demo_world\<lparr>wd_pool := []\<rparr>))"
proof -
  have "pool_inv [freshRecord]" "pool_inv []"
    by (simp_all add: pool_inv_def freshRecord_def zeroRecord_def reset_def)
  from log_pool_irrelevant [OF this, of sample_lib "lc_in (demo_call 9)" demo_logger None 9 "''m''" "[]" demo_world None]
  show ?thesis by (metis world.select_convs(5) world.surjective world.update_convs(4))
qed

text \<open>
  C34: \<open>With\<close> only prepends: every emission path of a child logger does exactly what the parent does
  with the child's fields in front of the call's; binding in two steps is binding at once.
\<close>

theorem With_prepends:
  "log lib i (With l fs) ctx level msg gs w = log lib i l ctx level msg (fs @ gs) w
   \<and> eventAt lib i (With l fs) ctx level name gs w = eventAt lib i l ctx level name (fs @ gs) w
   \<and> logAt lib i (With l fs) ctx t level msg gs w = logAt lib i l ctx t level msg (fs @ gs) w
   \<and> With (With l fs) gs = With l (fs @ gs)"
proof -
  have tail: "pipeline_dispatch lib i (With l fs) = pipeline_dispatch lib i l"
    by (simp add: pipeline_dispatch_def update_metrics_def With_def fun_eq_iff Let_def split: prod.split option.split)
  have simps: "lg_leveler (With l fs) = lg_leveler l" "lg_with (With l fs) = lg_with l @ fs"
    "lg_addCaller (With l fs) = lg_addCaller l" "lg_callerSkip (With l fs) = lg_callerSkip l"
    by (simp_all add: With_def)
  show ?thesis
    by (simp add: log_def eventAt_def logAt_def tail simps Let_def split: prod.split) (simp add: With_def)
qed

text \<open>
  A call below the logger's level has no effect whatever, on every emission path, and the level
  is read at each call: after \<open>LevelVar.Set\<close> the logger and all its children filter by the new
  level.
\<close>

lemma level_guard:
  assumes "lg_leveler l = LevelVar a"
  shows "(Enabled (With l fs) level (w\<lparr>wd_levels := LevelVar_Set a lv (wd_levels w)\<rparr>) \<longleftrightarrow> lv \<le> level)
    \<and> (level < lv \<longrightarrow> log lib i (With l fs) ctx level msg gs (w\<lparr>wd_levels := LevelVar_Set a lv (wd_levels w)\<rparr>)
      = w\<lparr>wd_levels := LevelVar_Set a lv (wd_levels w)\<rparr>)"
  using assms by (simp_all add: Enabled_def With_def LevelVar_Set_def log_def)

theorem level_guard_witness:
  "log sample_lib (lc_in (demo_call 5)) (With (demo_logger\<lparr>lg_leveler := LevelVar 3\<rparr>) []) None 5 ''m'' []
     (demo_world\<lparr>wd_levels := LevelVar_Set 3 9 (wd_levels demo_world)\<rparr>)
   = demo_world\<lparr>wd_levels := LevelVar_Set 3 9 (wd_levels demo_world)\<rparr>"
  by (rule level_guard [THEN conjunct2, rule_format]) simp_all

end
