(* ===== verification/Slog_Handler.thy ===== *)
theory Slog_Handler
  imports Logger
begin

text \<open>
  \<open>handler.go\<close>: the \<open>slog.Handler\<close> over a logger. Attributes form a tree (groups, lazily resolved
  values); the handler flattens it into fields with dotted keys, and keeps the prefix of the
  open groups and the attributes bound so far. The main theorem is the law of \<open>slog\<close>: any
  sequence of \<open>WithGroup\<close> and \<open>WithAttrs\<close> amounts to logging one nested attribute tree.
\<close>

section \<open>Attributes\<close>

text \<open>\<open>SVLogValuer v\<close> is a \<open>LogValuer\<close> whose \<open>LogValue\<close> returns \<open>v\<close>.\<close>

datatype sval =
    SVString string | SVInt64 u64 | SVUint64 u64 | SVFloat64 u64 | SVBool bool
  | SVDuration u64 | SVTime gtime | SVAny goval | SVLogValuer sval | SVGroup "sattr list"
and sattr = SAttr (sa_Key: string) (sa_Value: sval)

text \<open>
  \<open>Value.Resolve\<close> of the standard library: at most 100 calls of \<open>LogValue\<close>, then an error
  value.
\<close>

fun resolve_n :: "nat \<Rightarrow> sval \<Rightarrow> sval" where
  "resolve_n 0 v = SVAny (VError (GoErr ''LogValue called too many times''))"
| "resolve_n (Suc n) (SVLogValuer v) = resolve_n n v"
| "resolve_n (Suc n) v = v"

definition Resolve :: "sval \<Rightarrow> sval" where
  "Resolve v = resolve_n 100 v"

fun is_empty_attr :: "string \<Rightarrow> sval \<Rightarrow> bool" where
  "is_empty_attr k (SVAny VNil) = (k = [])"
| "is_empty_attr k v = False"

lemma size_resolve: "size (resolve_n n v) \<le> size v"
  by (induction n v rule: resolve_n.induct) auto

lemma size_Resolve_group: "Resolve v = SVGroup gs \<Longrightarrow> size_list size gs < size v"
  using size_resolve [of 100 v] by (simp add: Resolve_def)

function appendAttr :: "string \<Rightarrow> sattr \<Rightarrow> Field list" and appendAttrs :: "string \<Rightarrow> sattr list \<Rightarrow> Field list" where
  "appendAttr pre (SAttr k v0) =
     (let v = Resolve v0
      in if is_empty_attr k v then []
         else (let key = pre @ k
               in case v of
                    SVGroup gs \<Rightarrow> (if k = [] then appendAttrs pre gs else appendAttrs (key @ ''.'') gs)
                  | SVString s \<Rightarrow> [FString key s]
                  | SVInt64 n \<Rightarrow> [FInt (IntTy True 64) key (sint n)]
                  | SVUint64 n \<Rightarrow> [FInt (IntTy False 64) key (uint n)]
                  | SVFloat64 x \<Rightarrow> [FFloat key x]
                  | SVBool b \<Rightarrow> [FBool key b]
                  | SVDuration d \<Rightarrow> [FDur key d]
                  | SVTime t \<Rightarrow> [FTime key t]
                  | SVAny x \<Rightarrow> [FAny key x]
                  | SVLogValuer x \<Rightarrow> [FAny key VNil]))"
| "appendAttrs pre [] = []"
| "appendAttrs pre (a # as) = appendAttr pre a @ appendAttrs pre as"
  by pat_completeness auto

termination
  by (relation "measure (case_sum (\<lambda>(p, a). size a) (\<lambda>(p, as). size_list size as))")
    (auto dest!: size_Resolve_group sym [of "SVGroup _"])

section \<open>The handler\<close>

definition slogToLevel :: "int \<Rightarrow> Level" where
  "slogToLevel sl =
     (if sl < -4 then LevelTrace
      else if sl < 0 then LevelDebug
      else if sl < 4 then LevelInfo
      else if sl < 8 then LevelWarn
      else LevelError)"

record 'h slogHandler =
  sh_l :: "'h Logger"
  sh_groups :: "string list"
  sh_prefix :: string
  sh_preform :: "Field list"

record slog_record =
  sr_Time :: gtime
  sr_Level :: int
  sr_Message :: string
  sr_Attrs :: "sattr list"

definition Handler :: "'h Logger \<Rightarrow> 'h slogHandler" where
  "Handler l = \<lparr>sh_l = l, sh_groups = [], sh_prefix = [], sh_preform = []\<rparr>"

definition slog_Enabled :: "'h slogHandler \<Rightarrow> int \<Rightarrow> 'h world \<Rightarrow> bool" where
  "slog_Enabled h sl w = Enabled (sh_l h) (slogToLevel sl) w"

definition slog_clone :: "'h slogHandler \<Rightarrow> 'h slogHandler" where
  "slog_clone h = \<lparr>sh_l = sh_l h, sh_groups = [] @ sh_groups h, sh_prefix = sh_prefix h,
     sh_preform = [] @ sh_preform h\<rparr>"

definition slog_WithAttrs :: "'h slogHandler \<Rightarrow> sattr list \<Rightarrow> 'h slogHandler" where
  "slog_WithAttrs h attrs =
     (let nh = slog_clone h
      in nh\<lparr>sh_preform := sh_preform nh @ appendAttrs (sh_prefix nh) attrs\<rparr>)"

definition slog_WithGroup :: "'h slogHandler \<Rightarrow> string \<Rightarrow> 'h slogHandler" where
  "slog_WithGroup h name =
     (if name = [] then h
      else (let nh = slog_clone h
            in nh\<lparr>sh_groups := sh_groups nh @ [name], sh_prefix := sh_prefix h @ name @ ''.''\<rparr>))"

definition slog_Handle ::
  "golib \<Rightarrow> log_in \<Rightarrow> 'h slogHandler \<Rightarrow> gctx option \<Rightarrow> slog_record \<Rightarrow> 'h world \<Rightarrow> goerr option \<times> 'h world" where
  "slog_Handle lib i h ctx r w =
     (let fs = sh_preform h @ appendAttrs (sh_prefix h) (sr_Attrs r)
      in (None, logAt lib i (sh_l h) ctx (sr_Time r) (slogToLevel (sr_Level r)) (sr_Message r) fs w))"

section \<open>The nesting law\<close>

datatype slog_op = OpAttrs "sattr list" | OpGroup string

fun slog_with :: "slog_op \<Rightarrow> 'h slogHandler \<Rightarrow> 'h slogHandler" where
  "slog_with (OpAttrs as) h = slog_WithAttrs h as"
| "slog_with (OpGroup g) h = slog_WithGroup h g"

text \<open>The attribute tree that a sequence of \<open>With\<close> operations stands for.\<close>

fun nest :: "slog_op list \<Rightarrow> sattr list \<Rightarrow> sattr list" where
  "nest [] attrs = attrs"
| "nest (OpAttrs as # ops) attrs = as @ nest ops attrs"
| "nest (OpGroup g # ops) attrs = (if g = [] then nest ops attrs else [SAttr g (SVGroup (nest ops attrs))])"

definition slog_fields :: "'h slogHandler \<Rightarrow> sattr list \<Rightarrow> Field list" where
  "slog_fields h attrs = sh_preform h @ appendAttrs (sh_prefix h) attrs"

lemma appendAttrs_append: "appendAttrs p (as @ bs) = appendAttrs p as @ appendAttrs p bs"
  by (induction as) auto

lemma Resolve_group [simp]: "Resolve (SVGroup gs) = SVGroup gs"
  by (simp add: Resolve_def numeral_eq_Suc)

lemma slog_fields_WithAttrs: "slog_fields (slog_WithAttrs h as) bs = slog_fields h (as @ bs)"
  by (simp add: slog_fields_def slog_WithAttrs_def slog_clone_def Let_def appendAttrs_append)

lemma slog_fields_WithGroup:
  "g \<noteq> [] \<Longrightarrow> slog_fields (slog_WithGroup h g) bs = slog_fields h [SAttr g (SVGroup bs)]"
  by (simp add: slog_fields_def slog_WithGroup_def slog_clone_def Let_def)

lemma slog_WithGroup_empty [simp]: "slog_WithGroup h [] = h"
  by (simp add: slog_WithGroup_def)

lemma slog_fields_nest: "slog_fields (fold slog_with ops h) attrs = slog_fields h (nest ops attrs)"
proof (induction ops arbitrary: h)
  case (Cons op ops)
  then show ?case
    by (cases op) (simp_all add: slog_fields_WithAttrs slog_fields_WithGroup)
qed simp

lemma slog_with_logger [simp]: "sh_l (fold slog_with ops h) = sh_l h"
proof (induction ops arbitrary: h)
  case (Cons op ops)
  then show ?case
    by (cases op) (simp_all add: slog_WithAttrs_def slog_WithGroup_def slog_clone_def Let_def)
qed simp

section \<open>Properties\<close>

text \<open>
  C39: The slog bridge obeys the law of handlers: whatever sequence of \<open>WithAttrs\<close> and \<open>WithGroup\<close> calls
  built the handler (empty group names included), handling a record does exactly what the
  original handler does with one attribute list in which the groups are nested and the bound
  attributes stand in front, each inside the groups open when it was bound.
\<close>

theorem slog_nesting:
  "slog_Handle lib i (fold slog_with ops h) ctx r w
   = slog_Handle lib i h ctx (r\<lparr>sr_Attrs := nest ops (sr_Attrs r)\<rparr>) w"
  using slog_fields_nest [of ops h "sr_Attrs r"]
  by (simp add: slog_Handle_def slog_fields_def)

text \<open>
  \<open>Enabled\<close> is what \<open>Handle\<close> does: a record of a level that is not enabled has no effect, and the
  level translation is monotone and stays within the five bands.
\<close>

lemma slog_Enabled_Handle:
  "\<not> slog_Enabled h (sr_Level r) w \<Longrightarrow> slog_Handle lib i h ctx r w = (None, w)"
  by (simp add: slog_Handle_def slog_Enabled_def Enabled_def logAt_def)

lemma slogToLevel_mono: "sl \<le> sl' \<Longrightarrow> slogToLevel sl \<le> slogToLevel sl'"
  by (simp add: slogToLevel_def level_defs)

end
