(* ===== verification/Message_Template.thy ===== *)
theory Message_Template
  imports Logger
begin

text \<open>
  \<open>template.go\<close>: message templates. The scanning loop over the template, with \<open>{{\<close> and \<open>}}\<close> as
  literal braces, named holes filled from the arguments in order, and an unterminated hole
  copied literally. The theorem is the round trip with a printer of templates.
\<close>

section \<open>Parsing\<close>

abbreviation LB :: char where
  "LB \<equiv> CHR ''{''"

abbreviation RB :: char where
  "RB \<equiv> CHR ''}''"

definition starts :: "char \<Rightarrow> string \<Rightarrow> bool" where
  "starts c s = (case s of [] \<Rightarrow> False | d # _ \<Rightarrow> d = c)"

text \<open>
  The loop from index \<open>i\<close> on, as a function of the remaining template and arguments; it returns
  the rendered text and the fields.
\<close>

function template_loop :: "golib \<Rightarrow> string \<Rightarrow> goval list \<Rightarrow> string \<times> Field list" where
  "template_loop lib [] args = ([], [])"
| "template_loop lib (c # cs) args =
     (if c = LB then
        (if starts LB cs
         then (let (m, fs) = template_loop lib (tl cs) args in (LB # m, fs))
         else (case cut_at RB cs of
                 None \<Rightarrow> (c # cs, [])
               | Some (name, rest) \<Rightarrow>
                   (let (val, args') = (case args of [] \<Rightarrow> (VNil, []) | a # as \<Rightarrow> (a, as));
                        (m, fs) = template_loop lib rest args'
                    in (Sprint lib val @ m, FAny name val # fs))))
      else if c = RB \<and> starts RB cs
        then (let (m, fs) = template_loop lib (tl cs) args in (RB # m, fs))
      else (let (m, fs) = template_loop lib cs args in (c # m, fs)))"
  by pat_completeness auto

termination
  by (relation "measure (\<lambda>(lib, s, args). length s)") (auto simp: cut_Some)

definition parseTemplate :: "golib \<Rightarrow> string \<Rightarrow> goval list \<Rightarrow> string \<times> Field list" where
  "parseTemplate lib tmpl args =
     (let (m, fs) = template_loop lib tmpl args
      in (m, fs @ [FString ''msg_template'' tmpl]))"

section \<open>Templated logging\<close>

definition logt :: "golib \<Rightarrow> log_in \<Rightarrow> 'h Logger \<Rightarrow> gctx option \<Rightarrow> Level \<Rightarrow> string \<Rightarrow> goval list \<Rightarrow> 'h world \<Rightarrow> 'h world" where
  "logt lib i l ctx level tmpl args w =
     (if \<not> Enabled l level w then w
      else (let (msg, fs) = parseTemplate lib tmpl args in log lib i l ctx level msg fs w))"

definition Debugt :: "golib \<Rightarrow> log_in \<Rightarrow> 'h Logger \<Rightarrow> string \<Rightarrow> goval list \<Rightarrow> 'h world \<Rightarrow> 'h world" where
  "Debugt lib i l tmpl args = logt lib i l (Some Background) LevelDebug tmpl args"

definition Infot :: "golib \<Rightarrow> log_in \<Rightarrow> 'h Logger \<Rightarrow> string \<Rightarrow> goval list \<Rightarrow> 'h world \<Rightarrow> 'h world" where
  "Infot lib i l tmpl args = logt lib i l (Some Background) LevelInfo tmpl args"

definition Warnt :: "golib \<Rightarrow> log_in \<Rightarrow> 'h Logger \<Rightarrow> string \<Rightarrow> goval list \<Rightarrow> 'h world \<Rightarrow> 'h world" where
  "Warnt lib i l tmpl args = logt lib i l (Some Background) LevelWarn tmpl args"

definition Errort :: "golib \<Rightarrow> log_in \<Rightarrow> 'h Logger \<Rightarrow> string \<Rightarrow> goval list \<Rightarrow> 'h world \<Rightarrow> 'h world" where
  "Errort lib i l tmpl args = logt lib i l (Some Background) LevelError tmpl args"

definition Logt :: "golib \<Rightarrow> log_in \<Rightarrow> 'h Logger \<Rightarrow> gctx option \<Rightarrow> Level \<Rightarrow> string \<Rightarrow> goval list \<Rightarrow> 'h world \<Rightarrow> 'h world" where
  "Logt lib i l ctx level tmpl args = logt lib i l ctx level tmpl args"

section \<open>Printing templates\<close>

datatype seg = Lit string | Hole string

fun escape_braces :: "string \<Rightarrow> string" where
  "escape_braces [] = []"
| "escape_braces (c # cs) = (if c = LB \<or> c = RB then c # c # escape_braces cs else c # escape_braces cs)"

fun print_template :: "seg list \<Rightarrow> string" where
  "print_template [] = []"
| "print_template (Lit s # gs) = escape_braces s @ print_template gs"
| "print_template (Hole n # gs) = LB # n @ RB # print_template gs"

text \<open>A hole's name is cut at the first closing brace, and must not look like an escape.\<close>

definition hole_ok :: "seg \<Rightarrow> bool" where
  "hole_ok g = (case g of Lit s \<Rightarrow> True | Hole n \<Rightarrow> RB \<notin> set n \<and> \<not> starts LB n)"

fun render_template :: "golib \<Rightarrow> seg list \<Rightarrow> goval list \<Rightarrow> string \<times> Field list" where
  "render_template lib [] args = ([], [])"
| "render_template lib (Lit s # gs) args = (let (m, fs) = render_template lib gs args in (s @ m, fs))"
| "render_template lib (Hole n # gs) args =
     (let (val, args') = (case args of [] \<Rightarrow> (VNil, []) | a # as \<Rightarrow> (a, as));
          (m, fs) = render_template lib gs args'
      in (Sprint lib val @ m, FAny n val # fs))"

declare template_loop.simps(2) [simp del]

lemma template_literal:
  "template_loop lib (escape_braces s @ rest) args = (let (m, fs) = template_loop lib rest args in (s @ m, fs))"
proof (induction s)
  case (Cons c s)
  consider "c = LB" | "c = RB" | "c \<noteq> LB" "c \<noteq> RB" by blast
  then show ?case
    using Cons by cases (simp_all add: template_loop.simps(2) starts_def Let_def split_beta)
qed (simp add: split_beta)

lemma template_hole:
  assumes "RB \<notin> set n" "\<not> starts LB n"
  shows "template_loop lib (LB # n @ RB # rest) args =
    (let (val, args') = (case args of [] \<Rightarrow> (VNil, []) | a # as \<Rightarrow> (a, as));
         (m, fs) = template_loop lib rest args'
     in (Sprint lib val @ m, FAny n val # fs))"
proof -
  have "\<not> starts LB (n @ RB # rest)" using assms(2) by (cases n) (simp_all add: starts_def)
  then show ?thesis
    using cut_append [OF assms(1), of rest] by (simp add: template_loop.simps(2))
qed

section \<open>Properties\<close>

text \<open>
  C40: Templates mean what they say: for every template built from literal text, with braces doubled,
  and named holes, \<open>parseTemplate\<close> renders the literal text unescaped with the arguments in the
  holes, left to right and nil when they run out, gives one field per hole under the hole's
  name, and the template itself under \<open>msg_template\<close>.
\<close>

theorem template_roundtrip:
  assumes "list_all hole_ok gs"
  shows "parseTemplate lib (print_template gs) args
    = (fst (render_template lib gs args),
       snd (render_template lib gs args) @ [FString ''msg_template'' (print_template gs)])"
proof -
  have "template_loop lib (print_template gs) args = render_template lib gs args"
    using assms
  proof (induction lib gs args rule: render_template.induct)
    case (3 lib n gs args)
    then show ?case by (simp add: hole_ok_def template_hole split_beta split: list.split)
  qed (simp_all add: template_literal)
  then show ?thesis by (simp add: parseTemplate_def split_beta)
qed

theorem template_roundtrip_witness:
  "fst (parseTemplate sample_lib (print_template [Lit ''{'', Hole ''n'', Lit ''} files'']) [VString ''12'']) = ''{12} files''"
  using template_roundtrip [of "[Lit ''{'', Hole ''n'', Lit ''} files'']" sample_lib "[VString ''12'']"]
  by (simp add: hole_ok_def starts_def)

end
