(* ===== verification/Span_Tree.thy ===== *)
theory Span_Tree
  imports Logger
begin

text \<open>
  \<open>span.go\<close>: spans as scoped context. Span states are shared through contexts and live in a store
  indexed by address. The hierarchical paths are shown to identify the spans of a tree: no two
  spans opened under one root have the same path, so the flat log determines the tree. The
  hand-written \<open>itoa\<close> equals the decimal numeral on the whole range it is used on.
\<close>

section \<open>Decimal conversion\<close>

text \<open>The digits are written from the end of a 20-byte array; the result is the used suffix.\<close>

function itoa_loop :: "int \<Rightarrow> nat \<Rightarrow> bytes \<Rightarrow> nat \<times> bytes" where
  "itoa_loop n i b =
     (if 0 < n then itoa_loop (n div 10) (i - 1) (b[i - 1 := char_of (nat (48 + n mod 10))])
      else (i, b))"
  by pat_completeness auto

termination
  by (relation "measure (\<lambda>(n, i, b). nat n)") auto

declare itoa_loop.simps [simp del]

definition itoa :: "int \<Rightarrow> string" where
  "itoa n =
     (if n = 0 then ''0''
      else (let (i, b) = itoa_loop n 20 (replicate 20 (CHR 0x00)) in drop i b))"

section \<open>Spans\<close>

text \<open>\<open>shortID\<close> of the six bytes the random source gives.\<close>

definition shortID :: "bytes \<Rightarrow> string" where
  "shortID b = hexEncode b"

record spanState =
  ss_id :: string
  ss_path :: string
  ss_children :: int

type_synonym span_store = "spanState list"

record 'h Span =
  sn_l :: "'h Logger"
  sn_name :: string
  sn_id :: string
  sn_parentID :: string
  sn_path :: string
  sn_start :: gtime
  sn_fields :: "Field list"
  sn_level :: Level
  sn_err :: "goerr option"
  sn_ended :: bool

definition span_parent :: "gctx \<Rightarrow> nat option" where
  "span_parent ctx = (case ctx_Value ctx spanKey of Some (CVspan a) \<Rightarrow> Some a | _ \<Rightarrow> None)"

text \<open>\<open>sid\<close> is what \<open>shortID\<close> returns (twelve random hexadecimal digits), \<open>now\<close> the time.\<close>

definition StartSpan ::
  "string \<Rightarrow> gtime \<Rightarrow> 'h Logger \<Rightarrow> gctx option \<Rightarrow> string \<Rightarrow> Field list \<Rightarrow> span_store \<Rightarrow> (gctx \<times> 'h Span) \<times> span_store" where
  "StartSpan sid now l ctx0 name fs st =
     (let ctx = ctxOr ctx0;
          s = \<lparr>sn_l = l, sn_name = name, sn_id = sid, sn_parentID = [], sn_path = [], sn_start = now,
               sn_fields = fs, sn_level = LevelInfo, sn_err = None, sn_ended = False\<rparr>;
          (s, st) = (case span_parent ctx of
             Some p \<Rightarrow>
               (let st = st[p := (st ! p)\<lparr>ss_children := ss_children (st ! p) + 1\<rparr>]
                in (s\<lparr>sn_parentID := ss_id (st ! p),
                      sn_path := ss_path (st ! p) @ ''.'' @ itoa (ss_children (st ! p))\<rparr>, st))
           | None \<Rightarrow> (s\<lparr>sn_path := ''1''\<rparr>, st));
          a = length st;
          st = st @ [\<lparr>ss_id = sn_id s, ss_path = sn_path s, ss_children = 0\<rparr>];
          ctx = WithValue ctx spanKey (CVspan a);
          bound = [FString ''span'' name, FString ''span_id'' (sn_id s), FString ''span_path'' (sn_path s)] @ fs;
          bound = (if sn_parentID s \<noteq> [] then bound @ [FString ''parent_span_id'' (sn_parentID s)] else bound);
          ctx = ContextWith ctx bound
      in ((ctx, s), st))"

definition Fail :: "goerr option \<Rightarrow> 'h Span \<Rightarrow> 'h Span" where
  "Fail err s = s\<lparr>sn_err := err, sn_level := LevelError\<rparr>"

definition SetLevel :: "Level \<Rightarrow> 'h Span \<Rightarrow> 'h Span" where
  "SetLevel lv s = s\<lparr>sn_level := lv\<rparr>"

definition end_fields :: "gtime \<Rightarrow> 'h Span \<Rightarrow> Field list" where
  "end_fields now s =
     (let fs = [FString ''span'' (sn_name s), FString ''span_id'' (sn_id s), FString ''span_path'' (sn_path s),
                FDur ''duration'' (word_of_int (time_Sub now (sn_start s))), FBool ''ok'' (sn_err s = None)];
          fs = (if sn_parentID s \<noteq> [] then fs @ [FString ''parent_span_id'' (sn_parentID s)] else fs);
          fs = (if sn_err s \<noteq> None then fs @ [FNamedErr ''error'' (sn_err s)] else fs)
      in fs @ sn_fields s)"

definition Span_End :: "golib \<Rightarrow> log_in \<Rightarrow> gtime \<Rightarrow> 'h Span \<Rightarrow> 'h world \<Rightarrow> 'h Span \<times> 'h world" where
  "Span_End lib i now s w =
     (if sn_ended s then (s, w)
      else (s\<lparr>sn_ended := True\<rparr>,
            log lib i (sn_l s) (Some Background) (sn_level s) ''span.end'' (end_fields now s) w))"

section \<open>\<open>itoa\<close> is correct\<close>

lemma digit_chars: "digit 0 = CHR ''0''" "digit 1 = CHR ''1''" "digit 2 = CHR ''2''" "digit 3 = CHR ''3''"
  by code_simp+

lemma digit_byte: "0 < n \<Longrightarrow> char_of (nat (48 + n mod 10)) = digit (nat n mod 10)"
  by (simp add: digit_def nat_add_distrib nat_mod_distrib)

lemma itoa_loop_dec:
  assumes "0 < n" "length (dec (nat n)) \<le> i" "i \<le> length b"
  shows "itoa_loop n i b = (i - length (dec (nat n)), take (i - length (dec (nat n))) b @ dec (nat n) @ drop i b)"
  using assms
proof (induction n i b rule: itoa_loop.induct)
  case (1 n i b)
  let ?d = "char_of (nat (48 + n mod 10))"
  have d: "?d = digit (nat n mod 10)" using "1.prems"(1) by (rule digit_byte)
  have i: "0 < i" using "1.prems"(2) dec_nonempty [of "nat n"] by (cases i) auto
  have upd: "take k (b[i - 1 := ?d]) @ xs @ drop (i - 1) (b[i - 1 := ?d]) = take k b @ (xs @ [?d]) @ drop i b"
    if "k \<le> i - 1" for k xs
  proof -
    have "drop (i - 1) (b[i - 1 := ?d]) = ?d # drop i b"
      using i "1.prems"(3) by (simp add: Cons_nth_drop_Suc [symmetric])
    then show ?thesis using that by (simp add: take_update_cancel)
  qed
  show ?case
  proof (cases "n < 10")
    case True
    then have "dec (nat n) = [?d]" using "1.prems"(1) d by (simp add: dec.simps [of "nat n"])
    moreover have "itoa_loop n i b = (i - 1, b[i - 1 := ?d])"
      using True "1.prems"(1) by (simp add: itoa_loop.simps)
    moreover have "b[i - 1 := ?d] = take (i - 1) b @ ([] @ [?d]) @ drop i b"
      using upd [of "i - 1" "[]"] by (metis append_Nil append_take_drop_id le_refl take_update_cancel)
    ultimately show ?thesis by simp
  next
    case False
    let ?m = "dec (nat (n div 10))"
    have m: "dec (nat n) = ?m @ [?d]"
      using False d by (simp add: dec.simps [of "nat n"] nat_div_distrib)
    then have len: "length (dec (nat n)) = Suc (length ?m)" by simp
    have "itoa_loop (n div 10) (i - 1) (b[i - 1 := ?d])
      = (i - 1 - length ?m, take (i - 1 - length ?m) (b[i - 1 := ?d]) @ ?m @ drop (i - 1) (b[i - 1 := ?d]))"
      using False "1.prems" len by (intro "1.IH") (simp_all add: pos_imp_zdiv_pos_iff)
    then show ?thesis
      using "1.prems"(1) upd [of "i - 1 - length ?m" ?m] m len by (simp add: itoa_loop.simps [of n])
  qed
qed

lemma length_dec_bound: "n < 10 ^ k \<Longrightarrow> 0 < k \<Longrightarrow> length (dec n) \<le> k"
proof (induction k arbitrary: n)
  case (Suc k)
  show ?case
  proof (cases "n < 10")
    case True
    then show ?thesis by (simp add: dec.simps)
  next
    case False
    have "n div 10 < 10 ^ k" using Suc.prems(1) by (simp add: less_mult_imp_div_less mult.commute)
    moreover have "0 < k" using False Suc.prems(1) by (cases k) auto
    ultimately have "length (dec (n div 10)) \<le> k" by (rule Suc.IH)
    then show ?thesis using False by (simp add: dec.simps [of n])
  qed
qed simp

lemma itoa_dec:
  assumes "0 \<le> n" "n < 2 ^ 63"
  shows "itoa n = dec (nat n)"
proof (cases "n = 0")
  case True
  then show ?thesis by (simp add: itoa_def dec.simps digit_chars)
next
  case False
  have "nat n < 10 ^ 19" using assms by (simp add: nat_less_iff)
  then have "length (dec (nat n)) \<le> 20" using length_dec_bound [of "nat n" 19] by simp
  then show ?thesis
    using False assms itoa_loop_dec [of n 20 "replicate 20 (CHR 0x00)"] by (simp add: itoa_def)
qed

section \<open>Paths identify spans\<close>

text \<open>The spans opened, directly or not, under one root span, in the order of opening.\<close>

inductive spans_from :: "'h Logger \<Rightarrow> span_store \<Rightarrow> bool" for l where
  root: "span_parent (ctxOr ctx) = None \<Longrightarrow> spans_from l (snd (StartSpan sid now l ctx name fs []))"
| child: "spans_from l st \<Longrightarrow> span_parent (ctxOr ctx) = Some p \<Longrightarrow> p < length st \<Longrightarrow>
     spans_from l (snd (StartSpan sid now l ctx name fs st))"

definition render_path :: "nat list \<Rightarrow> string" where
  "render_path ns = join_with CHR ''.'' (map dec ns)"

lemma join_with_snoc: "ws \<noteq> [] \<Longrightarrow> join_with d (ws @ [w]) = join_with d ws @ d # w"
  by (cases ws) (simp_all add: join_with_Cons)

lemma render_path_inj: "ms \<noteq> [] \<Longrightarrow> ns \<noteq> [] \<Longrightarrow> render_path ms = render_path ns \<Longrightarrow> ms = ns"
proof -
  assume *: "ms \<noteq> []" "ns \<noteq> []" "render_path ms = render_path ns"
  have free: "CHR ''.'' \<notin> set (dec n)" for n by (rule dec_free) simp
  then have "split_on CHR ''.'' (render_path xs) = map dec xs" if "xs \<noteq> []" for xs
    using that unfolding render_path_def by (intro split_join) auto
  then have "map dec ms = map dec ns" using * by metis
  then show "ms = ns" by (simp add: inj_map_eq_map inj_def)
qed

text \<open>\<open>P\<close> gives the position of each span in the tree: distinct, closed under parents, numbered.\<close>

definition positions :: "nat list list \<Rightarrow> span_store \<Rightarrow> bool" where
  "positions P st \<longleftrightarrow>
     length P = length st \<and> distinct P \<and> (\<forall>q \<in> set P. q \<noteq> []) \<and>
     (\<forall>q \<in> set P. 1 < length q \<longrightarrow> butlast q \<in> set P) \<and>
     (\<forall>i < length st. ss_path (st ! i) = render_path (P ! i) \<and>
        0 \<le> ss_children (st ! i) \<and> ss_children (st ! i) \<le> int (length st) \<and>
        (\<forall>k. P ! i @ [k] \<in> set P \<longrightarrow> int k \<le> ss_children (st ! i)))"

lemma StartSpan_root:
  "span_parent (ctxOr ctx) = None \<Longrightarrow>
     snd (StartSpan sid now l ctx name fs st) = st @ [\<lparr>ss_id = sid, ss_path = ''1'', ss_children = 0\<rparr>]"
  by (simp add: StartSpan_def Let_def)

lemma StartSpan_child:
  "span_parent (ctxOr ctx) = Some p \<Longrightarrow> p < length st \<Longrightarrow>
     snd (StartSpan sid now l ctx name fs st) =
       st[p := (st ! p)\<lparr>ss_children := ss_children (st ! p) + 1\<rparr>] @
       [\<lparr>ss_id = sid, ss_path = ss_path (st ! p) @ ''.'' @ itoa (ss_children (st ! p) + 1), ss_children = 0\<rparr>]"
  by (simp add: StartSpan_def Let_def)

text \<open>The position of the next child is unused, and so is everything below it.\<close>

lemma positions_fresh:
  assumes "positions P st" "p < length st"
  shows "P ! p @ [nat (ss_children (st ! p) + 1)] \<notin> set P" "P ! p @ [nat (ss_children (st ! p) + 1), k] \<notin> set P"
proof -
  let ?q = "P ! p @ [nat (ss_children (st ! p) + 1)]"
  have "0 \<le> ss_children (st ! p)" "?q \<in> set P \<longrightarrow> int (nat (ss_children (st ! p) + 1)) \<le> ss_children (st ! p)"
    using assms unfolding positions_def by blast+
  then show new: "?q \<notin> set P" by auto
  show "P ! p @ [nat (ss_children (st ! p) + 1), k] \<notin> set P"
  proof
    assume "P ! p @ [nat (ss_children (st ! p) + 1), k] \<in> set P"
    then have "butlast (?q @ [k]) \<in> set P" using assms(1) by (simp add: positions_def)
    then show False using new by (simp add: butlast_append)
  qed
qed

lemma positions_child:
  assumes pos: "positions P st" and p: "p < length st" and bound: "int (length st) < 2 ^ 63 - 1"
    and st': "st' = st[p := (st ! p)\<lparr>ss_children := c\<rparr>] @
       [\<lparr>ss_id = sid, ss_path = ss_path (st ! p) @ ''.'' @ itoa c, ss_children = 0\<rparr>]"
    and c: "c = ss_children (st ! p) + 1"
  shows "positions (P @ [P ! p @ [nat c]]) st'"
proof -
  let ?q = "P ! p @ [nat c]"
  have len: "length P = length st" and inP: "P ! p \<in> set P" using pos p by (auto simp: positions_def)
  have c0: "0 \<le> c" "c \<le> int (length st) + 1" "c < 2 ^ 63"
    using pos p bound c by (auto simp: positions_def)
  note new = positions_fresh [OF pos p, folded c]
  have path: "ss_path (st ! p) @ ''.'' @ itoa c = render_path ?q"
    using pos p inP itoa_dec [OF c0(1,3)] by (simp add: positions_def render_path_def join_with_snoc)
  have "ss_path (st' ! i) = render_path ((P @ [?q]) ! i) \<and> 0 \<le> ss_children (st' ! i) \<and>
      ss_children (st' ! i) \<le> int (length st') \<and>
      (\<forall>k. (P @ [?q]) ! i @ [k] \<in> set (P @ [?q]) \<longrightarrow> int k \<le> ss_children (st' ! i))" if i: "i < length st'" for i
  proof (cases "i = length st")
    case True
    then show ?thesis using st' path new(2) len by (auto simp: nth_append)
  next
    case False
    then have i': "i < length st" using i st' by simp
    have eq: "P ! i @ [k] = ?q \<longleftrightarrow> i = p \<and> k = nat c" for k
      using pos i' p len by (auto simp: positions_def nth_eq_iff_index_eq)
    have at: "ss_path (st ! i) = render_path (P ! i)" "0 \<le> ss_children (st ! i)"
      "ss_children (st ! i) \<le> int (length st)"
      "\<And>k. P ! i @ [k] \<in> set P \<Longrightarrow> int k \<le> ss_children (st ! i)"
      using pos i' by (auto simp: positions_def)
    show ?thesis
    proof (cases "i = p")
      case True
      have kids: "int k \<le> c" if "P ! p @ [k] \<in> set P" for k
        using at(4) [of k] that True c by simp
      show ?thesis using True i' p at c0 st' len kids by (auto simp: nth_append)
    next
      case False
      then show ?thesis using at eq i' p st' len by (auto simp: nth_append)
    qed
  qed
  moreover have "length (P @ [?q]) = length st'" using st' len by simp
  moreover have "distinct (P @ [?q])" using pos new(1) by (simp add: positions_def)
  moreover have "\<forall>q \<in> set (P @ [?q]). 1 < length q \<longrightarrow> butlast q \<in> set (P @ [?q])"
    using pos inP by (auto simp: positions_def butlast_append)
  ultimately show ?thesis using pos by (simp add: positions_def)
qed

lemma spans_positions:
  "spans_from l st \<Longrightarrow> int (length st) < 2 ^ 63 \<Longrightarrow> \<exists>P. positions P st"
proof (induction rule: spans_from.induct)
  case (root ctx sid now name fs)
  have "positions [[1]] [\<lparr>ss_id = sid, ss_path = ''1'', ss_children = 0\<rparr>]"
    by (simp add: positions_def render_path_def dec.simps digit_chars [simplified])
  then show ?case using StartSpan_root [OF root(1)] by (metis append_Nil)
next
  case (child st ctx p sid now name fs)
  have len: "int (length st) < 2 ^ 63 - 1"
    using child.prems by (simp add: StartSpan_child [OF child.hyps(2,3)])
  then obtain P where "positions P st" using child.IH by auto
  from positions_child [OF this child.hyps(3) len refl refl, of sid] show ?case
    unfolding StartSpan_child [OF child.hyps(2,3)] by blast
qed

section \<open>Properties\<close>

text \<open>
  Span paths identify spans: among all the spans opened under one root, in whatever order and
  nesting, no two have the same path, so that \<open>span_path\<close> alone reconstructs the tree.
\<close>

lemma span_paths_distinct:
  assumes "spans_from l st" "int (length st) < 2 ^ 63"
  shows "distinct (map ss_path st)"
proof -
  obtain P where P: "positions P st" using spans_positions [OF assms] by blast
  then have paths: "map ss_path st = map render_path P"
    by (intro nth_equalityI) (simp_all add: positions_def)
  have "inj_on render_path (set P)"
    using P render_path_inj by (intro inj_onI) (auto simp: positions_def)
  then show ?thesis using P unfolding paths by (simp add: positions_def distinct_map)
qed

definition span_ctx :: "nat \<Rightarrow> gctx option" where
  "span_ctx p = Some (WithValue Background spanKey (CVspan p))"

definition span_demo :: span_store where
  "span_demo =
     snd (StartSpan ''c'' 0 demo_logger (span_ctx 1) ''z'' []
       (snd (StartSpan ''b'' 0 demo_logger (span_ctx 0) ''y'' []
         (snd (StartSpan ''a'' 0 demo_logger None ''x'' [] [])))))"

lemma span_ctx_parent: "span_parent (ctxOr (span_ctx p)) = Some p" "span_parent (ctxOr None) = None"
  by (simp_all add: span_parent_def span_ctx_def ctxOr_def)

lemma span_demo_from: "spans_from demo_logger span_demo"
  unfolding span_demo_def
  by (intro spans_from.child [OF _ span_ctx_parent(1)] spans_from.root [OF span_ctx_parent(2)])
    (simp_all add: StartSpan_root StartSpan_child span_ctx_parent)

theorem span_paths_distinct_witness:
  "distinct (map ss_path span_demo) \<and> length span_demo = 3"
proof -
  have "length span_demo = 3"
    by (simp add: span_demo_def StartSpan_root StartSpan_child span_ctx_parent)
  then show ?thesis using span_paths_distinct [OF span_demo_from] by simp
qed

text \<open>
  The hand-written \<open>itoa\<close> of the span path, digits written backwards into a 20-byte array, never
  runs out of the array and returns the decimal numeral of every non-negative \<open>int\<close>.
\<close>

lemma itoa_correct:
  assumes "0 \<le> n" "n < 2 ^ 63"
  shows "itoa n = dec_int n"
  using itoa_dec [OF assms] assms(1) by (simp add: dec_int_def)

theorem itoa_correct_witness: "itoa 1203 = ''1203''"
  using itoa_correct [of 1203] by (simp add: dec_int_def dec.simps digit_chars [simplified])

text \<open>
  \<open>End\<close> emits once: whatever is done between, a second \<open>End\<close> changes nothing; the first logs one
  record \<open>span.end\<close> with the outcome \<open>ok\<close> exactly when \<open>Fail\<close> set no error.
\<close>

lemma span_end_once:
  "let (s1, w1) = Span_End lib i now s w
   in Span_End lib i' now' s1 w2 = (s1, w2) \<and>
      (\<not> sn_ended s \<longrightarrow>
         w1 = log lib i (sn_l s) (Some Background) (sn_level s) ''span.end'' (end_fields now s) w
         \<and> end_fields now s ! 4 = FBool ''ok'' (sn_err s = None))"
  by (simp add: Span_End_def Let_def) (simp add: end_fields_def Let_def nth_append)

end
