(* ===== verification/Level_Control.thy ===== *)
theory Level_Control
  imports Level
begin

text \<open>
  \<open>config_reload.go\<close> and \<open>signal.go\<close>: the two background ways of changing a level. Each goroutine
  is a function of the sequence of events it receives: ticks that observe the file system, and
  signal deliveries, with the channel of the signal loops. Reading the file and decoding its JSON are parameters.
\<close>

section \<open>The configuration watcher\<close>

text \<open>
  What a tick observes: whether \<open>os.Stat\<close> succeeds and the modification time, and what
  \<open>os.ReadFile\<close> then returns. \<open>unmarshal\<close> is \<open>json.Unmarshal\<close> into \<open>FileConfig\<close>: the \<open>level\<close>
  string, empty when absent, or an error.
\<close>

record file_view =
  fv_mtime :: "gtime option"
  fv_bytes :: "bytes option"

record ConfigWatcher =
  cw_lv :: nat
  cw_lastMod :: gtime
  cw_hasReload :: bool
  cw_reloads :: "string list"
  cw_stopped :: bool

definition watcher_interval :: "int \<Rightarrow> int" where
  "watcher_interval d = (if d < 10 ^ 9 then 10 ^ 9 else d)"

definition watcher_apply ::
  "golib \<Rightarrow> (bytes \<Rightarrow> string option) \<Rightarrow> file_view \<Rightarrow> ConfigWatcher \<times> level_store \<Rightarrow> ConfigWatcher \<times> level_store" where
  "watcher_apply lib unmarshal v s =
     (case fv_bytes v of
        None \<Rightarrow> s
      | Some b \<Rightarrow>
          (case unmarshal b of
             None \<Rightarrow> s
           | Some lvl \<Rightarrow>
               (let (w, st) = s;
                    st = (case parseLevel lib lvl of Some l \<Rightarrow> LevelVar_Set (cw_lv w) l st | None \<Rightarrow> st);
                    w = (if cw_hasReload w then w\<lparr>cw_reloads := cw_reloads w @ [lvl]\<rparr> else w)
                in (w, st))))"

definition watcher_applyOnce ::
  "golib \<Rightarrow> (bytes \<Rightarrow> string option) \<Rightarrow> file_view \<Rightarrow> ConfigWatcher \<times> level_store \<Rightarrow> ConfigWatcher \<times> level_store" where
  "watcher_applyOnce lib unmarshal v s = (if fv_mtime v \<noteq> None then watcher_apply lib unmarshal v s else s)"

definition WatchConfigFile ::
  "golib \<Rightarrow> (bytes \<Rightarrow> string option) \<Rightarrow> nat \<Rightarrow> file_view \<Rightarrow> level_store \<Rightarrow> ConfigWatcher \<times> level_store" where
  "WatchConfigFile lib unmarshal lv v st =
     watcher_applyOnce lib unmarshal v
       (\<lparr>cw_lv = lv, cw_lastMod = 0, cw_hasReload = False, cw_reloads = [], cw_stopped = False\<rparr>, st)"

text \<open>
  What the goroutine receives, in the order it receives it: a tick with what the file system shows
  then, the callback registered by \<open>OnReload\<close>, and the closed \<open>stop\<close> channel, after which it has
  returned.
\<close>

definition watcher_OnReload :: "ConfigWatcher \<Rightarrow> ConfigWatcher" where
  "watcher_OnReload w = w\<lparr>cw_hasReload := True\<rparr>"

text \<open>\<open>Stop\<close> runs through a \<open>sync.Once\<close>, so it may be called again.\<close>

definition watcher_Stop :: "ConfigWatcher \<Rightarrow> ConfigWatcher" where
  "watcher_Stop w = (if cw_stopped w then w else w\<lparr>cw_stopped := True\<rparr>)"

datatype watch_event = Tick file_view | OnReload | StopWatch

fun watcher_event ::
  "golib \<Rightarrow> (bytes \<Rightarrow> string option) \<Rightarrow> watch_event \<Rightarrow> ConfigWatcher \<times> level_store \<Rightarrow> ConfigWatcher \<times> level_store" where
  "watcher_event lib unmarshal (Tick v) (w, st) =
     (if cw_stopped w then (w, st)
      else (case fv_mtime v of
              None \<Rightarrow> (w, st)
            | Some m \<Rightarrow>
                if m \<noteq> cw_lastMod w
                then watcher_apply lib unmarshal v (w\<lparr>cw_lastMod := m\<rparr>, st)
                else (w, st)))"
| "watcher_event lib unmarshal OnReload (w, st) = (watcher_OnReload w, st)"
| "watcher_event lib unmarshal StopWatch (w, st) = (watcher_Stop w, st)"

section \<open>Signals\<close>

text \<open>\<open>CycleLevelOnSignal\<close>: the local flag \<open>on\<close> and the level, one delivery at a time.\<close>

definition cycle_signal :: "nat \<Rightarrow> Level \<Rightarrow> Level \<Rightarrow> bool \<times> level_store \<Rightarrow> bool \<times> level_store" where
  "cycle_signal lv normal verbose s =
     (let (on, st) = s
      in (\<not> on, LevelVar_Set lv (if on then normal else verbose) st))"

section \<open>The signal loops\<close>

text \<open>
  \<open>OnSIGHUP\<close> and \<open>CycleLevelOnSignal\<close> run one loop over a channel of capacity 1 and a \<open>done\<close> channel; the
  runtime sends without blocking, so a signal that meets a full channel is dropped. \<open>stop\<close> closes
  \<open>done\<close>; closing it again panics, which is \<open>None\<close>. The state \<open>sg_st\<close> is what \<open>fn\<close> works on.
\<close>

record 's sig_loop =
  sg_pending :: bool
  sg_notify :: bool
  sg_done :: bool
  sg_exited :: bool
  sg_st :: 's

datatype sig_event = Arrive | Receive | StopCall | SeeDone

definition sig_start :: "'s \<Rightarrow> 's sig_loop" where
  "sig_start st = \<lparr>sg_pending = False, sg_notify = True, sg_done = False, sg_exited = False, sg_st = st\<rparr>"

fun sig_step :: "('s \<Rightarrow> 's) \<Rightarrow> sig_event \<Rightarrow> 's sig_loop \<Rightarrow> 's sig_loop option" where
  "sig_step fn Arrive g = Some (if sg_notify g then g\<lparr>sg_pending := True\<rparr> else g)"
| "sig_step fn Receive g =
     Some (if sg_pending g \<and> \<not> sg_exited g then g\<lparr>sg_pending := False, sg_st := fn (sg_st g)\<rparr> else g)"
| "sig_step fn StopCall g = (if sg_done g then None else Some (g\<lparr>sg_notify := False, sg_done := True\<rparr>))"
| "sig_step fn SeeDone g = Some (if sg_done g then g\<lparr>sg_exited := True\<rparr> else g)"

fun sig_run :: "('s \<Rightarrow> 's) \<Rightarrow> sig_event list \<Rightarrow> 's sig_loop \<Rightarrow> 's sig_loop option" where
  "sig_run fn [] g = Some g"
| "sig_run fn (e # es) g = Option.bind (sig_step fn e g) (sig_run fn es)"

definition OnSIGHUP :: "('s \<Rightarrow> 's) \<Rightarrow> sig_event list \<Rightarrow> 's \<Rightarrow> 's sig_loop option" where
  "OnSIGHUP fn es st = sig_run fn es (sig_start st)"

definition CycleLevelOnSignal :: "nat \<Rightarrow> Level \<Rightarrow> Level \<Rightarrow> sig_event list \<Rightarrow> level_store \<Rightarrow> (bool \<times> level_store) sig_loop option" where
  "CycleLevelOnSignal lv normal verbose es st = sig_run (cycle_signal lv normal verbose) es (sig_start (False, st))"

section \<open>Lemmas\<close>

text \<open>The level a view of the file stands for, if it is readable, decodes and parses.\<close>

definition good_level :: "golib \<Rightarrow> (bytes \<Rightarrow> string option) \<Rightarrow> file_view \<Rightarrow> Level option" where
  "good_level lib unmarshal v =
     (case fv_mtime v of None \<Rightarrow> None | Some _ \<Rightarrow>
       Option.bind (fv_bytes v) (\<lambda>b. Option.bind (unmarshal b) (parseLevel lib)))"

lemma watcher_apply_level:
  assumes "fv_mtime v \<noteq> None"
  shows "snd (watcher_apply lib unmarshal v (w, st)) =
    (case good_level lib unmarshal v of None \<Rightarrow> st | Some l \<Rightarrow> LevelVar_Set (cw_lv w) l st)"
  using assms by (auto simp: watcher_apply_def good_level_def Let_def split: option.split)

lemma watcher_apply_frame:
  "cw_lv (fst (watcher_apply lib unmarshal v s)) = cw_lv (fst s)"
  "cw_lastMod (fst (watcher_apply lib unmarshal v s)) = cw_lastMod (fst s)"
  "cw_stopped (fst (watcher_apply lib unmarshal v s)) = cw_stopped (fst s)"
  by (cases s; simp add: watcher_apply_def Let_def split: option.split)+

text \<open>The level after the events, from the views alone: the last good one with a new time.\<close>

fun last_good :: "golib \<Rightarrow> (bytes \<Rightarrow> string option) \<Rightarrow> gtime \<Rightarrow> file_view list \<Rightarrow> Level \<Rightarrow> Level" where
  "last_good lib unmarshal m [] l = l"
| "last_good lib unmarshal m (v # vs) l =
     (case fv_mtime v of
        None \<Rightarrow> last_good lib unmarshal m vs l
      | Some m' \<Rightarrow>
          if m' = m then last_good lib unmarshal m vs l
          else last_good lib unmarshal m' vs (case good_level lib unmarshal v of None \<Rightarrow> l | Some l' \<Rightarrow> l'))"

lemma watcher_ticks:
  assumes "\<not> cw_stopped w"
  shows "snd (fold (watcher_event lib unmarshal) (map Tick vs) (w, st)) (cw_lv w)
      = last_good lib unmarshal (cw_lastMod w) vs (st (cw_lv w))
    \<and> (\<forall>a. a \<noteq> cw_lv w \<longrightarrow> snd (fold (watcher_event lib unmarshal) (map Tick vs) (w, st)) a = st a)"
  using assms
proof (induction vs arbitrary: w st)
  case (Cons v vs)
  show ?case
  proof (cases "\<exists>m. fv_mtime v = Some m \<and> m \<noteq> cw_lastMod w")
    case False
    then show ?thesis using Cons by (auto split: option.split)
  next
    case True
    then obtain m where m: "fv_mtime v = Some m" "m \<noteq> cw_lastMod w" by blast
    let ?s = "watcher_apply lib unmarshal v (w\<lparr>cw_lastMod := m\<rparr>, st)"
    have frame: "cw_lv (fst ?s) = cw_lv w" "cw_lastMod (fst ?s) = m" "\<not> cw_stopped (fst ?s)"
      using Cons.prems by (simp_all add: watcher_apply_frame)
    have lev: "snd ?s = (case good_level lib unmarshal v of None \<Rightarrow> st | Some l \<Rightarrow> st(cw_lv w := l))"
      using m by (simp add: watcher_apply_level LevelVar_Set_def split: option.split)
    have "fold (watcher_event lib unmarshal) (map Tick (v # vs)) (w, st)
        = fold (watcher_event lib unmarshal) (map Tick vs) (fst ?s, snd ?s)"
      using Cons.prems m by simp
    then show ?thesis
      using Cons.IH [OF frame(3), of "snd ?s"] frame lev m by (auto split: option.splits)
  qed
qed simp

section \<open>Properties\<close>

text \<open>
  Reloading keeps the last good configuration: over any sequence of ticks, the level is the one
  of the last view of the file that had a new modification time, could be read and decoded and
  named a level; missing, unreadable, malformed or unchanged files change nothing, and no other
  level variable is ever touched.
\<close>

lemma watcher_last_good:
  assumes "\<not> cw_stopped w"
  shows "snd (fold (watcher_event lib unmarshal) (map Tick vs) (w, st))
    = st(cw_lv w := last_good lib unmarshal (cw_lastMod w) vs (st (cw_lv w)))"
  using watcher_ticks [OF assms, of lib unmarshal vs st] by (auto simp: fun_eq_iff)

definition watcher_demo :: ConfigWatcher where
  "watcher_demo = \<lparr>cw_lv = 0, cw_lastMod = 0, cw_hasReload = False, cw_reloads = [], cw_stopped = False\<rparr>"

theorem watcher_last_good_witness:
  "snd (fold (watcher_event sample_lib Some)
      (map Tick [\<lparr>fv_mtime = Some 1, fv_bytes = Some ''debug''\<rparr>, \<lparr>fv_mtime = Some 2, fv_bytes = Some ''bogus''\<rparr>,
                 \<lparr>fv_mtime = None, fv_bytes = None\<rparr>])
      (watcher_demo, (\<lambda>_. 9))) 0 = 5"
proof -
  have "parseLevel sample_lib ''debug'' = Some 5" "parseLevel sample_lib ''bogus'' = None" by code_simp+
  then show ?thesis
    by (subst watcher_last_good) (simp_all add: watcher_demo_def good_level_def)
qed

text \<open>
  \<open>CycleLevelOnSignal\<close> alternates: after \<open>k\<close> deliveries, starting with the flag off, the level is
  \<open>verbose\<close> when \<open>k\<close> is odd and \<open>normal\<close> when \<open>k\<close> is even and positive, whatever it was before.
\<close>

lemma cycle_alternates:
  "(cycle_signal lv normal verbose ^^ k) (False, st) =
     (odd k, if k = 0 then st else LevelVar_Set lv (if odd k then verbose else normal) st)"
  by (induction k) (auto simp: cycle_signal_def LevelVar_Set_def)

text \<open>The runs of \<open>fn\<close>, counted on the events alone.\<close>

fun fn_runs :: "sig_event list \<Rightarrow> bool \<Rightarrow> nat" where
  "fn_runs [] p = 0"
| "fn_runs (Arrive # es) p = fn_runs es True"
| "fn_runs (Receive # es) p = (if p then Suc (fn_runs es False) else fn_runs es False)"
| "fn_runs (e # es) p = fn_runs es p"

lemma sig_run_open:
  assumes "StopCall \<notin> set es" "sg_notify g" "\<not> sg_done g" "\<not> sg_exited g"
  shows "\<exists>g'. sig_run fn es g = Some g' \<and> sg_st g' = (fn ^^ fn_runs es (sg_pending g)) (sg_st g)
    \<and> sg_notify g' \<and> \<not> sg_done g' \<and> \<not> sg_exited g'"
  using assms
proof (induction es arbitrary: g)
  case (Cons e es)
  show ?case
  proof (cases e)
    case Arrive
    then show ?thesis using Cons.IH [of "g\<lparr>sg_pending := True\<rparr>"] Cons.prems by simp
  next
    case Receive
    then show ?thesis
      using Cons.IH [of "g\<lparr>sg_pending := False, sg_st := fn (sg_st g)\<rparr>"] Cons.IH [of g] Cons.prems
      by (cases "sg_pending g") (simp_all add: funpow_swap1)
  next
    case SeeDone
    then show ?thesis using Cons.IH [of g] Cons.prems by simp
  qed (use Cons.prems in simp)
qed simp

lemma fn_runs_le: "fn_runs es p \<le> length (filter ((=) Arrive) es) + (if p then 1 else 0)"
  by (induction es p rule: fn_runs.induct) auto

lemma fn_runs_last: "fn_runs (es @ [Arrive, Receive]) p \<ge> 1"
  by (induction es p rule: fn_runs.induct) auto

text \<open>
  While the loop is not stopped, \<open>fn\<close> runs at most once per signal and at least once after the
  last one; signals that arrive before the loop gets to the channel are merged into one run. So
  reopening a file on SIGHUP is never missed, but the level of \<open>CycleLevelOnSignal\<close> after two quick
  signals is the one after a single signal; and \<open>stop\<close> may be called only once.
\<close>

lemma signal_runs:
  assumes "StopCall \<notin> set es"
  shows "\<exists>g. OnSIGHUP fn es st = Some g \<and> sg_st g = (fn ^^ fn_runs es False) st"
  using sig_run_open [OF assms, of "sig_start st" fn] by (auto simp: OnSIGHUP_def sig_start_def)

lemma signals_merge:
  "CycleLevelOnSignal lv normal verbose [Arrive, Arrive, Receive, Receive] st
   = CycleLevelOnSignal lv normal verbose [Arrive, Receive] st"
  by (simp add: CycleLevelOnSignal_def sig_start_def)

lemma stop_twice_panics: "OnSIGHUP fn [StopCall, StopCall] st = None"
  by (simp add: OnSIGHUP_def sig_start_def)

end
