(* ===== verification/Logger_Shims.thy ===== *)
theory Logger_Shims
  imports Logger
begin

text \<open>
  The conveniences around the core: \<open>recover.go\<close> (panics logged, re-raised or swallowed),
  \<open>shim_std.go\<close> (the standard library's \<open>log\<close> redirected), \<open>presets.go\<close> and \<open>tty.go\<close>
  (ready-made loggers), and the capturing sink of \<open>logtest/logtest.go\<close>.
\<close>

section \<open>Panics\<close>

text \<open>
  A panic in flight is the value \<open>recover()\<close> returns, \<open>None\<close> when there is none. \<open>stk\<close> is what
  \<open>runtime.Stack\<close> would write into a buffer large enough; the code's buffer has 8 KiB.
\<close>

definition stack_text :: "bytes \<Rightarrow> string" where
  "stack_text stk = take 8192 stk"

definition logPanic :: "golib \<Rightarrow> log_in \<Rightarrow> bytes \<Rightarrow> 'h Logger \<Rightarrow> gctx option \<Rightarrow> goval \<Rightarrow> 'h world \<Rightarrow> 'h world" where
  "logPanic lib i stk l ctx r w =
     (let w1 = log lib i l (Some (ctxOr ctx)) LevelFatal ''panic''
                 [FAny ''panic'' r, FString ''stack'' (stack_text stk)] w
      in snd (Logger_Sync l w1))"

definition Recover :: "golib \<Rightarrow> log_in \<Rightarrow> bytes \<Rightarrow> 'h Logger \<Rightarrow> gctx option \<Rightarrow> goval option \<Rightarrow> 'h world \<Rightarrow> goval option \<times> 'h world" where
  "Recover lib i stk l ctx p w =
     (case p of None \<Rightarrow> (None, w) | Some r \<Rightarrow> (Some r, logPanic lib i stk l ctx r w))"

definition RecoverAndContinue ::
  "golib \<Rightarrow> log_in \<Rightarrow> bytes \<Rightarrow> 'h Logger \<Rightarrow> gctx option \<Rightarrow> goval option \<Rightarrow> 'h world \<Rightarrow> goval option \<times> 'h world" where
  "RecoverAndContinue lib i stk l ctx p w =
     (case p of
        None \<Rightarrow> (None, w)
      | Some r \<Rightarrow>
          (None, log lib i l (Some (ctxOr ctx)) LevelError ''recovered panic''
             [FAny ''panic'' r, FString ''stack'' (stack_text stk)] w))"

text \<open>The body of the goroutine \<open>Go\<close> starts; \<open>fn\<close> may end in a panic.\<close>

definition Go :: "golib \<Rightarrow> log_in \<Rightarrow> bytes \<Rightarrow> 'h Logger \<Rightarrow> gctx option \<Rightarrow> ('h world \<Rightarrow> goval option \<times> 'h world) \<Rightarrow> 'h world \<Rightarrow> goval option \<times> 'h world" where
  "Go lib i stk l ctx fn w = (let (p, w1) = fn w in RecoverAndContinue lib i stk l ctx p w1)"

section \<open>The standard logger\<close>

record 'h stdWriter =
  sw_l :: "'h Logger"
  sw_level :: Level

definition StdLogWriter :: "'h Logger \<Rightarrow> Level \<Rightarrow> 'h stdWriter" where
  "StdLogWriter l level = \<lparr>sw_l = l, sw_level = level\<rparr>"

definition stdWriter_Write :: "golib \<Rightarrow> log_in \<Rightarrow> 'h stdWriter \<Rightarrow> bytes \<Rightarrow> 'h world \<Rightarrow> (nat \<times> goerr option) \<times> 'h world" where
  "stdWriter_Write lib i sw p w =
     (let msg = trimNL p
      in ((length p, None), log lib i (sw_l sw) (Some Background) (sw_level sw) msg [] w))"

text \<open>\<open>StdLogger\<close>: \<open>mkLog\<close> is \<open>log.New\<close>, of a writer, a prefix and flags.\<close>

definition StdLogger :: "('h stdWriter \<Rightarrow> string \<Rightarrow> int \<Rightarrow> 'l) \<Rightarrow> 'h Logger \<Rightarrow> Level \<Rightarrow> 'l" where
  "StdLogger mkLog l level = mkLog (StdLogWriter l level) [] 0"

text \<open>The global \<open>log.Default\<close>: its writer (here the identity of one), flags and prefix.\<close>

record std_state =
  sd_out :: nat
  sd_flags :: int
  sd_prefix :: string

definition RedirectStdLog :: "nat \<Rightarrow> std_state \<Rightarrow> (std_state \<Rightarrow> std_state) \<times> std_state" where
  "RedirectStdLog writer sd =
     (let prev = sd_out sd; pf = sd_flags sd; pp = sd_prefix sd;
          sd1 = sd\<lparr>sd_out := writer, sd_flags := 0, sd_prefix := []\<rparr>
      in ((\<lambda>s. s\<lparr>sd_out := prev, sd_flags := pf, sd_prefix := pp\<rparr>), sd1))"

section \<open>Presets\<close>

text \<open>
  What \<open>isTTY\<close> asks of the operating system: whether \<open>NO_COLOR\<close> is set, and whether the writer
  is a file, can be stat'ed and is a character device. Writer 2 is \<open>os.Stderr\<close>.
\<close>

record tty_view =
  tv_noColor :: bool
  tv_isFile :: bool
  tv_charDevice :: "bool option"

definition isTTY :: "tty_view \<Rightarrow> bool" where
  "isTTY v =
     (if tv_noColor v then False
      else if \<not> tv_isFile v then False
      else (case tv_charDevice v of None \<Rightarrow> False | Some b \<Rightarrow> b))"

definition NewConsoleSink :: "tty_view \<Rightarrow> nat \<Rightarrow> Level \<Rightarrow> Sink" where
  "NewConsoleSink v w minLevel =
     (let enc = NewConsoleEncoder\<lparr>Color := isTTY v\<rparr> in NewWriterSink w (EncConsole enc) minLevel)"

definition Development :: "golib \<Rightarrow> 'w env \<Rightarrow> tty_view \<Rightarrow> 'w heap world \<Rightarrow> 'w heap Logger \<times> 'w heap world" where
  "Development lib ev v w =
     New lib ev [WithLevel LevelDebug, WithSink (NewConsoleSink v 2 LevelDebug), WithCaller 0] w"

text \<open>\<open>mk\<close> builds the channel transport on a sink, with capacity 4096 and \<open>DropNewest\<close>.\<close>

definition Production :: "golib \<Rightarrow> 'w env \<Rightarrow> (Sink \<Rightarrow> 'w heap Transport) \<Rightarrow> 'w heap world \<Rightarrow> 'w heap Logger \<times> 'w heap world" where
  "Production lib ev mk w =
     (let sink = NewWriterSink 2 (EncJSON NewJSONEncoder) LevelInfo
      in New lib ev [WithLevel LevelInfo, WithProcessors [PSample (NewSampleProcessor 100 100)], WithTransport (mk sink)] w)"

definition Test :: "golib \<Rightarrow> 'w env \<Rightarrow> nat \<Rightarrow> 'w heap world \<Rightarrow> 'w heap Logger \<times> 'w heap world" where
  "Test lib ev wr w =
     New lib ev [WithLevel LevelTrace, WithSink (NewWriterSink wr (EncConsole NewConsoleEncoder) LevelTrace)] w"

section \<open>Capturing what is logged\<close>

record Entry =
  en_Level :: Level
  en_Message :: string
  en_Fields :: "string \<rightharpoonup> goval"

definition Capture_Emit :: "Record \<Rightarrow> Entry list \<Rightarrow> Entry list" where
  "Capture_Emit r es =
     es @ [\<lparr>en_Level = rLevel r, en_Message = rMessage r,
            en_Fields = foldl (\<lambda>m f. m(fKey f \<mapsto> Value f)) Map.empty (rFields r)\<rparr>]"

definition Capture_Transport :: "Entry list Transport" where
  "Capture_Transport = \<lparr>tr_Dispatch = (\<lambda>lv r es. Capture_Emit r es), tr_Dropped = (\<lambda>es. 0),
     tr_Sync = (\<lambda>es. (None, es)), tr_Close = (\<lambda>es. (None, es))\<rparr>"

text \<open>The logger is built over the inline transport of the capturing sink.\<close>

definition logtest_New :: "Entry list world \<Rightarrow> Entry list Logger \<times> Entry list world" where
  "logtest_New w = new_logger (fold apply_option [WithLevel LevelTrace] default_config) Capture_Transport (w\<lparr>wd_h := []\<rparr>)"

definition Capture_Entries :: "Entry list \<Rightarrow> Entry list" where
  "Capture_Entries es = [] @ es"

definition AssertLogged :: "(string \<Rightarrow> string \<Rightarrow> bool) \<Rightarrow> Level \<Rightarrow> string \<Rightarrow> Entry list \<Rightarrow> bool" where
  "AssertLogged contains level sub es = list_ex (\<lambda>e. en_Level e = level \<and> contains (en_Message e) sub) (Capture_Entries es)"

definition AssertField :: "string \<Rightarrow> goval \<Rightarrow> Entry list \<Rightarrow> bool" where
  "AssertField key value es = list_ex (\<lambda>e. en_Fields e key = Some value) (Capture_Entries es)"

definition AssertNoErrors :: "Entry list \<Rightarrow> bool" where
  "AssertNoErrors es = list_all (\<lambda>e. \<not> LevelError \<le> en_Level e) (Capture_Entries es)"

section \<open>Lemmas\<close>

lemma capture_fields:
  "foldl (\<lambda>m f. m(fKey f \<mapsto> Value f)) m fs k =
     (case filter (\<lambda>f. fKey f = k) fs of [] \<Rightarrow> m k | gs \<Rightarrow> Some (Value (last gs)))"
proof (induction fs arbitrary: m)
  case (Cons f fs)
  then show ?case by (auto split: list.splits)
qed simp

lemma log_no_procs:
  assumes "wd_procs w ! lg_processors l = []" "pool_inv (wd_pool w)"
    "Leveler_Level (wd_levels w) (lg_leveler l) \<le> level"
  shows "wd_h (log lib i l ctx level msg fs w) =
    tr_Dispatch (lg_transport l) (wd_levels w) (call_record i l ctx level msg fs) (wd_h w)"
  using assms
  by (simp add: log_enabled pipeline_dispatch_def runPipeline_def update_metrics_def Let_def split: option.split)

section \<open>Properties\<close>

text \<open>
  A crash is never invisible and never hidden: \<open>Recover\<close> with a panic in flight logs one FATAL
  record carrying the panic value (when the level admits it), flushes, and re-raises the same
  value; \<open>RecoverAndContinue\<close>, and so \<open>Go\<close>, logs at ERROR and raises nothing; without a panic
  neither does anything.
\<close>

lemma recover_semantics:
  "fst (Recover lib i stk l ctx p w) = p \<and> fst (RecoverAndContinue lib i stk l ctx p w) = None
   \<and> fst (Go lib i stk l ctx fn w) = None
   \<and> Recover lib i stk l ctx None w = (None, w) \<and> RecoverAndContinue lib i stk l ctx None w = (None, w)
   \<and> snd (Recover lib i stk l ctx (Some r) w) = snd (Logger_Sync l
        (log lib i l (Some (ctxOr ctx)) LevelFatal ''panic'' [FAny ''panic'' r, FString ''stack'' (take 8192 stk)] w))
   \<and> snd (Go lib i stk l ctx (\<lambda>w. (Some r, w)) w) =
        log lib i l (Some (ctxOr ctx)) LevelError ''recovered panic'' [FAny ''panic'' r, FString ''stack'' (take 8192 stk)] w"
  by (simp add: Recover_def RecoverAndContinue_def Go_def logPanic_def stack_text_def split_beta split: option.split)

text \<open>
  The test helper sees what was logged: on a logger over the capturing sink without processors,
  every enabled call appends exactly one entry, with the call's level and message and, for every
  key, the value of the last field of that name among the bound and the given ones.
\<close>

lemma capture_faithful:
  assumes "wd_procs w ! lg_processors l = []" "pool_inv (wd_pool w)"
    "Leveler_Level (wd_levels w) (lg_leveler l) \<le> level" "lg_transport l = Capture_Transport"
  shows "\<exists>e. wd_h (log lib i l ctx level msg fs w) = wd_h w @ [e] \<and> en_Level e = level \<and> en_Message e = msg
    \<and> (\<forall>k. en_Fields e k = (case filter (\<lambda>f. fKey f = k) (lg_with l @ fs) of
          [] \<Rightarrow> None | gs \<Rightarrow> Some (Value (last gs))))"
proof -
  have fields: "foldl (\<lambda>m f. m(fKey f \<mapsto> Value f)) Map.empty (lg_with l @ fs) k =
      (case filter (\<lambda>f. fKey f = k) (lg_with l @ fs) of [] \<Rightarrow> None | gs \<Rightarrow> Some (Value (last gs)))" for k
    by (simp only: capture_fields [of Map.empty "lg_with l @ fs" k])
  show ?thesis
    unfolding log_no_procs [OF assms(1-3)] assms(4)
    by (intro exI [of _ "\<lparr>en_Level = level, en_Message = msg,
        en_Fields = foldl (\<lambda>m f. m(fKey f \<mapsto> Value f)) Map.empty (lg_with l @ fs)\<rparr>"])
      (simp only: fields Entry.simps, simp add: Capture_Transport_def Capture_Emit_def call_record_def)
qed

definition capture_world :: "Entry list world" where
  "capture_world = \<lparr>wd_levels = (\<lambda>_. 0), wd_procs = [], wd_metrics = [], wd_pool = [], wd_h = []\<rparr>"

theorem capture_faithful_witness:
  "let (l, w) = logtest_New capture_world
   in \<exists>e. wd_h (log sample_lib (lc_in (demo_call 9)) l None 9 ''hi'' [] w) = [e] \<and> en_Message e = ''hi''"
proof -
  obtain l w where new: "logtest_New capture_world = (l, w)" by fastforce
  then have "wd_procs w ! lg_processors l = []" "pool_inv (wd_pool w)" "lg_transport l = Capture_Transport"
    "Leveler_Level (wd_levels w) (lg_leveler l) \<le> 9" "wd_h w = []"
    by (auto simp: logtest_New_def capture_world_def LevelTrace_def inv_intros)
  with capture_faithful [of w l 9 sample_lib "lc_in (demo_call 9)" None "''hi''" "[]"] new
  show ?thesis by auto
qed

end
