(* ===== verification/File_Rotation.thy ===== *)
theory File_Rotation
  imports Sinks
begin

text \<open>
  \<open>sink_file.go\<close>: the self-rotating file. The file system is a directory of names over inodes, so
  that an open file keeps its inode when its name is moved; every call of the operating system
  may fail, and what it answers is the input \<open>io\<close> of an operation. The theorems: the size cap, no
  byte lost or torn by rotation, exactly what pruning deletes, and two ways to lose data.
\<close>

section \<open>The file system\<close>

text \<open>The directory of the log file: names, inodes, their contents and modification times.\<close>

record fsys =
  fs_dir :: "(string \<times> nat) list"
  fs_data :: "nat \<Rightarrow> bytes"
  fs_mtime :: "nat \<Rightarrow> gtime"
  fs_next :: nat

text \<open>
  What the operating system answers during one operation: the clock (read for the name of the
  segment and again for its age), the error of each call, if any, and how many bytes a failing
  \<open>Write\<close> took. \<open>io_sort\<close> is \<open>sort.Slice\<close>, whose order of equal elements is not specified;
  \<open>io_stamp\<close> formats the time of a segment.
\<close>

datatype gzip_res = GzOk | GzOpenErr | GzCreateErr | GzCopyErr bytes

record io_in =
  io_now :: gtime
  io_pruneNow :: gtime
  io_mkdir :: "goerr option"
  io_open :: "goerr option"
  io_stat :: "goerr option"
  io_close :: "goerr option"
  io_rename :: "goerr option"
  io_short :: "(nat \<times> goerr) option"
  io_sync :: "goerr option"
  io_readdir :: "goerr option"
  io_info :: "string \<Rightarrow> goerr option"
  io_remove :: "string \<Rightarrow> goerr option"
  io_sort :: "(string \<times> gtime) list \<Rightarrow> (string \<times> gtime) list"
  io_stamp :: "gtime \<Rightarrow> string"
  io_gzip :: gzip_res

definition file_of :: "fsys \<Rightarrow> string \<Rightarrow> bytes option" where
  "file_of fs name = map_option (fs_data fs) (map_of (fs_dir fs) name)"

definition del_name :: "string \<Rightarrow> (string \<times> nat) list \<Rightarrow> (string \<times> nat) list" where
  "del_name name dir = filter (\<lambda>(n, i). n \<noteq> name) dir"

text \<open>\<open>OpenFile\<close> with \<open>O_CREATE|O_APPEND\<close>, \<open>Create\<close> (which truncates), \<open>Rename\<close> and \<open>Remove\<close>.\<close>

definition os_OpenFile :: "io_in \<Rightarrow> string \<Rightarrow> fsys \<Rightarrow> goerr + nat \<times> fsys" where
  "os_OpenFile io name fs =
     (case io_open io of
        Some e \<Rightarrow> Inl e
      | None \<Rightarrow>
          (case map_of (fs_dir fs) name of
             Some i \<Rightarrow> Inr (i, fs)
           | None \<Rightarrow>
               Inr (fs_next fs,
                 fs\<lparr>fs_dir := (name, fs_next fs) # fs_dir fs, fs_data := (fs_data fs)(fs_next fs := []),
                    fs_mtime := (fs_mtime fs)(fs_next fs := io_now io), fs_next := Suc (fs_next fs)\<rparr>)))"

definition os_Create :: "gtime \<Rightarrow> string \<Rightarrow> bytes \<Rightarrow> fsys \<Rightarrow> fsys" where
  "os_Create now name content fs =
     (case map_of (fs_dir fs) name of
        Some i \<Rightarrow> fs\<lparr>fs_data := (fs_data fs)(i := content), fs_mtime := (fs_mtime fs)(i := now)\<rparr>
      | None \<Rightarrow>
          fs\<lparr>fs_dir := (name, fs_next fs) # fs_dir fs, fs_data := (fs_data fs)(fs_next fs := content),
             fs_mtime := (fs_mtime fs)(fs_next fs := now), fs_next := Suc (fs_next fs)\<rparr>)"

definition os_Rename :: "io_in \<Rightarrow> string \<Rightarrow> string \<Rightarrow> fsys \<Rightarrow> goerr + fsys" where
  "os_Rename io a b fs =
     (case io_rename io of
        Some e \<Rightarrow> Inl e
      | None \<Rightarrow>
          (case map_of (fs_dir fs) a of
             None \<Rightarrow> Inl (GoErr ''no such file or directory'')
           | Some i \<Rightarrow> Inr (fs\<lparr>fs_dir := (b, i) # del_name b (del_name a (fs_dir fs))\<rparr>)))"

definition os_Remove :: "io_in \<Rightarrow> string \<Rightarrow> fsys \<Rightarrow> fsys" where
  "os_Remove io name fs =
     (case io_remove io name of Some e \<Rightarrow> fs | None \<Rightarrow> fs\<lparr>fs_dir := del_name name (fs_dir fs)\<rparr>)"

section \<open>The rotating file\<close>

text \<open>
  \<open>rf_base\<close> is the base name of \<open>Path\<close>. The handle \<open>rf_f\<close> is an inode and whether it is still open.
  \<open>rf_jobs\<close> are the segments whose compression goroutine has been started and has not run yet.
\<close>

record RotatingFile =
  rf_base :: string
  rf_MaxSizeBytes :: int
  rf_MaxBackups :: int
  rf_MaxAge :: int
  rf_Compress :: bool
  rf_f :: "(nat \<times> bool) option"
  rf_size :: int
  rf_jobs :: "string list"

definition openExisting :: "io_in \<Rightarrow> RotatingFile \<Rightarrow> fsys \<Rightarrow> goerr option \<times> RotatingFile \<times> fsys" where
  "openExisting io r fs =
     (case io_mkdir io of
        Some e \<Rightarrow> (Some e, r, fs)
      | None \<Rightarrow>
          (case os_OpenFile io (rf_base r) fs of
             Inl e \<Rightarrow> (Some e, r, fs)
           | Inr (i, fs1) \<Rightarrow>
               (case io_stat io of
                  Some e \<Rightarrow> (Some e, r, fs1)
                | None \<Rightarrow> (None, r\<lparr>rf_f := Some (i, True), rf_size := int (length (fs_data fs1 i))\<rparr>, fs1))))"

definition NewRotatingFile :: "io_in \<Rightarrow> string \<Rightarrow> fsys \<Rightarrow> (goerr + RotatingFile) \<times> fsys" where
  "NewRotatingFile io base fs =
     (let r = \<lparr>rf_base = base, rf_MaxSizeBytes = 100 * 2 ^ 20, rf_MaxBackups = 7, rf_MaxAge = 0, rf_Compress = False,
               rf_f = None, rf_size = 0, rf_jobs = []\<rparr>
      in case openExisting io r fs of
           (Some e, _, fs1) \<Rightarrow> (Inl e, fs1)
         | (None, r1, fs1) \<Rightarrow> (Inr r1, fs1))"

text \<open>\<open>os.File\<close>: a closed file stays closed; \<open>Close\<close> gives up the descriptor even when it reports an error.\<close>

definition f_Close :: "io_in \<Rightarrow> RotatingFile \<Rightarrow> goerr option \<times> RotatingFile" where
  "f_Close io r =
     (case rf_f r of
        None \<Rightarrow> (Some (GoErr ''invalid argument''), r)
      | Some (i, False) \<Rightarrow> (Some (GoErr ''file already closed''), r)
      | Some (i, True) \<Rightarrow> (io_close io, r\<lparr>rf_f := Some (i, False)\<rparr>))"

definition f_Write :: "io_in \<Rightarrow> bytes \<Rightarrow> RotatingFile \<Rightarrow> fsys \<Rightarrow> (nat \<times> goerr option) \<times> fsys" where
  "f_Write io p r fs =
     (case rf_f r of
        None \<Rightarrow> ((0, Some (GoErr ''invalid argument'')), fs)
      | Some (i, False) \<Rightarrow> ((0, Some (GoErr ''file already closed'')), fs)
      | Some (i, True) \<Rightarrow>
          (let (n, e) = (case io_short io of None \<Rightarrow> (length p, None) | Some (k, err) \<Rightarrow> (min k (length p), Some err))
           in ((n, e), fs\<lparr>fs_data := (fs_data fs)(i := fs_data fs i @ take n p),
                          fs_mtime := (fs_mtime fs)(i := io_now io)\<rparr>)))"

definition segments :: "io_in \<Rightarrow> string \<Rightarrow> fsys \<Rightarrow> (string \<times> gtime) list" where
  "segments io base fs =
     map (\<lambda>(name, i). (name, fs_mtime fs i))
       (filter (\<lambda>(name, i). \<not> (name = base \<or> \<not> prefix (base @ ''.'') name) \<and> io_info io name = None) (fs_dir fs))"

fun prune_from :: "io_in \<Rightarrow> RotatingFile \<Rightarrow> nat \<Rightarrow> (string \<times> gtime) list \<Rightarrow> fsys \<Rightarrow> fsys" where
  "prune_from io r i [] fs = fs"
| "prune_from io r i ((name, mod_time) # segs) fs =
     (let over = 0 < rf_MaxBackups r \<and> rf_MaxBackups r \<le> int i;
          old = 0 < rf_MaxAge r \<and> rf_MaxAge r < time_Sub (io_pruneNow io) mod_time
      in prune_from io r (Suc i) segs (if over \<or> old then os_Remove io name fs else fs))"

definition prune :: "io_in \<Rightarrow> RotatingFile \<Rightarrow> fsys \<Rightarrow> fsys" where
  "prune io r fs =
     (case io_readdir io of
        Some e \<Rightarrow> fs
      | None \<Rightarrow> prune_from io r 0 (io_sort io (segments io (rf_base r) fs)) fs)"

definition rotated_name :: "io_in \<Rightarrow> RotatingFile \<Rightarrow> string" where
  "rotated_name io r = rf_base r @ ''.'' @ io_stamp io (io_now io)"

definition rotateLocked :: "io_in \<Rightarrow> RotatingFile \<Rightarrow> fsys \<Rightarrow> goerr option \<times> RotatingFile \<times> fsys" where
  "rotateLocked io r fs =
     (case f_Close io r of
        (Some e, r1) \<Rightarrow> (Some e, r1, fs)
      | (None, r1) \<Rightarrow>
          (case os_Rename io (rf_base r) (rotated_name io r) fs of
             Inl e \<Rightarrow> (Some e, r1, fs)
           | Inr fs1 \<Rightarrow>
               (case openExisting io r1 fs1 of
                  (Some e, r2, fs2) \<Rightarrow> (Some e, r2, fs2)
                | (None, r2, fs2) \<Rightarrow>
                    (let r3 = r2\<lparr>rf_size := 0\<rparr>;
                         r4 = (if rf_Compress r then r3\<lparr>rf_jobs := rf_jobs r3 @ [rotated_name io r]\<rparr> else r3)
                     in (None, r4, prune io r4 fs2)))))"

definition maxSize :: "RotatingFile \<Rightarrow> int" where
  "maxSize r = (if rf_MaxSizeBytes r \<le> 0 then 100 * 2 ^ 20 else rf_MaxSizeBytes r)"

definition rotates :: "RotatingFile \<Rightarrow> bytes \<Rightarrow> bool" where
  "rotates r p \<longleftrightarrow> rf_size r + int (length p) > maxSize r \<and> rf_size r > 0"

definition RotatingFile_Write ::
  "io_in \<Rightarrow> bytes \<Rightarrow> RotatingFile \<Rightarrow> fsys \<Rightarrow> (nat \<times> goerr option) \<times> RotatingFile \<times> fsys" where
  "RotatingFile_Write io p r fs =
     (case (if rotates r p then rotateLocked io r fs else (None, r, fs)) of
        (Some e, r1, fs1) \<Rightarrow> ((0, Some e), r1, fs1)
      | (None, r1, fs1) \<Rightarrow>
          (let ((n, e), fs2) = f_Write io p r1 fs1
           in ((n, e), r1\<lparr>rf_size := rf_size r1 + int n\<rparr>, fs2)))"

definition Reopen :: "io_in \<Rightarrow> RotatingFile \<Rightarrow> fsys \<Rightarrow> goerr option \<times> RotatingFile \<times> fsys" where
  "Reopen io r fs =
     (let r1 = (if rf_f r \<noteq> None then snd (f_Close io r) else r) in openExisting io r1 fs)"

definition RotatingFile_Sync :: "io_in \<Rightarrow> RotatingFile \<Rightarrow> goerr option" where
  "RotatingFile_Sync io r =
     (case rf_f r of
        None \<Rightarrow> Some (GoErr ''invalid argument'')
      | Some (i, False) \<Rightarrow> Some (GoErr ''file already closed'')
      | Some (i, True) \<Rightarrow> io_sync io)"

definition RotatingFile_Close :: "io_in \<Rightarrow> RotatingFile \<Rightarrow> goerr option \<times> RotatingFile" where
  "RotatingFile_Close io r = f_Close io r"

text \<open>
  The compression goroutine of one segment; \<open>gz\<close> is what \<open>gzip\<close> writes for a content. It touches only
  the segment and its compressed copy, so it is one step.
\<close>

definition gzipFile :: "(bytes \<Rightarrow> bytes) \<Rightarrow> io_in \<Rightarrow> string \<Rightarrow> fsys \<Rightarrow> goerr option \<times> fsys" where
  "gzipFile gz io path fs =
     (case file_of fs path of
        None \<Rightarrow> (Some (GoErr ''no such file or directory''), fs)
      | Some content \<Rightarrow>
          (case io_gzip io of
             GzOpenErr \<Rightarrow> (Some (GoErr ''open''), fs)
           | GzCreateErr \<Rightarrow> (Some (GoErr ''create''), fs)
           | GzCopyErr part \<Rightarrow> (Some (GoErr ''copy''), os_Create (io_now io) (path @ ''.gz'') part fs)
           | GzOk \<Rightarrow> (None, os_Create (io_now io) (path @ ''.gz'') (gz content) fs)))"

definition compress_job :: "(bytes \<Rightarrow> bytes) \<Rightarrow> io_in \<Rightarrow> RotatingFile \<Rightarrow> fsys \<Rightarrow> RotatingFile \<times> fsys" where
  "compress_job gz io r fs =
     (case rf_jobs r of
        [] \<Rightarrow> (r, fs)
      | rotated # jobs \<Rightarrow>
          (let (err, fs1) = gzipFile gz io rotated fs;
               fs2 = (if err = None then os_Remove io rotated fs1 else fs1);
               r1 = r\<lparr>rf_jobs := jobs\<rparr>
           in (r1, prune io r1 fs2)))"

definition NewFileSink :: "nat \<Rightarrow> Encoder \<Rightarrow> Level \<Rightarrow> Sink" where
  "NewFileSink rf enc minLevel = NewWriterSink rf enc minLevel"

section \<open>Lemmas\<close>

text \<open>A directory without duplicate names or hard links, over inodes that have been handed out.\<close>

definition fs_ok :: "fsys \<Rightarrow> bool" where
  "fs_ok fs \<longleftrightarrow> distinct (map fst (fs_dir fs)) \<and> distinct (map snd (fs_dir fs)) \<and> (\<forall>i \<in> snd ` set (fs_dir fs). i < fs_next fs)"

text \<open>The file is open under its name, and its size is known.\<close>

definition rf_ok :: "RotatingFile \<Rightarrow> fsys \<Rightarrow> bool" where
  "rf_ok r fs \<longleftrightarrow> fs_ok fs \<and>
     (\<exists>i. rf_f r = Some (i, True) \<and> map_of (fs_dir fs) (rf_base r) = Some i \<and> rf_size r = int (length (fs_data fs i)))"

text \<open>What \<open>sort.Slice\<close> promises for the order by falling modification time.\<close>

definition sort_ok :: "io_in \<Rightarrow> bool" where
  "sort_ok io \<longleftrightarrow> (\<forall>xs. mset (io_sort io xs) = mset xs \<and> sorted_wrt (\<lambda>a b. snd b \<le> snd a) (io_sort io xs))"

text \<open>The operating system does what it is asked; pruning may still meet errors.\<close>

definition io_fine :: "io_in \<Rightarrow> bool" where
  "io_fine io \<longleftrightarrow> io_mkdir io = None \<and> io_open io = None \<and> io_stat io = None \<and> io_close io = None \<and> io_rename io = None
     \<and> io_short io = None \<and> sort_ok io"

lemma map_of_del [simp]: "map_of (del_name n d) k = (if k = n then None else map_of d k)"
  by (induction d) (auto simp: del_name_def)

lemma del_name_subset: "set (del_name n d) \<subseteq> set d" "n \<notin> fst ` set (del_name n d)"
  by (auto simp: del_name_def)

lemma distinct_filter_map: "distinct (map f xs) \<Longrightarrow> distinct (map f (filter P xs))"
  by (induction xs) auto

lemma fs_ok_filter: "fs_ok fs \<Longrightarrow> fs_ok (fs\<lparr>fs_dir := filter P (fs_dir fs)\<rparr>)"
  by (auto simp: fs_ok_def distinct_filter_map)

lemma link_unique: "fs_ok fs \<Longrightarrow> (m, i) \<in> set (fs_dir fs) \<Longrightarrow> (n, i) \<in> set (fs_dir fs) \<Longrightarrow> m = n"
  using inj_onD [of snd "set (fs_dir fs)" "(m, i)" "(n, i)"] by (simp add: fs_ok_def distinct_map)

lemma fs_ok_map_of:
  assumes "fs_ok fs" "map_of (fs_dir fs) n = Some i"
  shows "i < fs_next fs" "\<And>m. map_of (fs_dir fs) m = Some i \<Longrightarrow> m = n"
proof -
  show "i < fs_next fs" using assms map_of_SomeD [OF assms(2)] by (force simp: fs_ok_def)
  fix m assume "map_of (fs_dir fs) m = Some i"
  then have "(m, i) \<in> set (fs_dir fs)" "(n, i) \<in> set (fs_dir fs)" using assms(2) by (auto dest: map_of_SomeD)
  then show "m = n" using link_unique [OF assms(1)] by blast
qed

lemma fs_ok_rename:
  assumes "fs_ok fs" "map_of (fs_dir fs) a = Some i"
  shows "fs_ok (fs\<lparr>fs_dir := (b, i) # del_name b (del_name a (fs_dir fs))\<rparr>)"
proof -
  have "i \<notin> snd ` set (del_name a (fs_dir fs))"
  proof
    assume "i \<in> snd ` set (del_name a (fs_dir fs))"
    then obtain n where n: "(n, i) \<in> set (del_name a (fs_dir fs))" by auto
    then have "n \<noteq> a" "(n, i) \<in> set (fs_dir fs)" by (auto simp: del_name_def)
    then show False using link_unique [OF assms(1)] map_of_SomeD [OF assms(2)] by blast
  qed
  then have "i \<notin> snd ` set (del_name b (del_name a (fs_dir fs)))" by (auto simp: del_name_def)
  moreover have "fs_ok (fs\<lparr>fs_dir := del_name b (del_name a (fs_dir fs))\<rparr>)"
    using fs_ok_filter [OF fs_ok_filter [OF assms(1)]] by (simp add: del_name_def)
  moreover have "i < fs_next fs" by (rule fs_ok_map_of(1) [OF assms])
  ultimately show ?thesis using del_name_subset(2) by (simp add: fs_ok_def)
qed

lemma fs_ok_create:
  assumes "fs_ok fs" "name \<notin> fst ` set (fs_dir fs)"
  shows "fs_ok (fs\<lparr>fs_dir := (name, fs_next fs) # fs_dir fs, fs_data := d, fs_mtime := m, fs_next := Suc (fs_next fs)\<rparr>)"
proof -
  have "i < fs_next fs" if "i \<in> snd ` set (fs_dir fs)" for i using assms(1) that by (auto simp: fs_ok_def)
  then have "fs_next fs \<notin> snd ` set (fs_dir fs)" "\<forall>i \<in> snd ` set (fs_dir fs). i < Suc (fs_next fs)"
    by (blast, simp add: less_SucI)
  then show ?thesis using assms by (simp add: fs_ok_def)
qed

subsection \<open>Pruning\<close>

text \<open>The names pruning removes from the sorted segments, from position \<open>k\<close> on.\<close>

fun doomed :: "io_in \<Rightarrow> RotatingFile \<Rightarrow> nat \<Rightarrow> (string \<times> gtime) list \<Rightarrow> string set" where
  "doomed io r k [] = {}"
| "doomed io r k ((name, m) # segs) =
     (if (0 < rf_MaxBackups r \<and> rf_MaxBackups r \<le> int k \<or> 0 < rf_MaxAge r \<and> rf_MaxAge r < time_Sub (io_pruneNow io) m)
         \<and> io_remove io name = None
      then {name} else {}) \<union> doomed io r (Suc k) segs"

lemma doomed_sub: "doomed io r k segs \<subseteq> fst ` set segs"
proof (induction segs arbitrary: k)
  case (Cons s segs)
  obtain n m where s: "s = (n, m)" by fastforce
  show ?case using Cons.IH [of "Suc k"] by (auto simp: s)
qed simp

lemma prune_from_dir:
  "prune_from io r k segs fs = fs\<lparr>fs_dir := filter (\<lambda>(n, i). n \<notin> doomed io r k segs) (fs_dir fs)\<rparr>"
proof (induction segs arbitrary: k fs)
  case (Cons s segs)
  obtain n m where s: "s = (n, m)" by fastforce
  show ?case
    by (simp add: s Cons.IH os_Remove_def del_name_def Let_def split: option.split)
      (auto intro!: arg_cong [where f = "\<lambda>d. fs\<lparr>fs_dir := d\<rparr>"] filter_cong)
qed simp

definition victims :: "io_in \<Rightarrow> RotatingFile \<Rightarrow> fsys \<Rightarrow> string set" where
  "victims io r fs =
     (if io_readdir io = None then doomed io r 0 (io_sort io (segments io (rf_base r) fs)) else {})"

lemma prune_eq: "prune io r fs = fs\<lparr>fs_dir := filter (\<lambda>(n, i). n \<notin> victims io r fs) (fs_dir fs)\<rparr>"
  by (auto simp: prune_def victims_def prune_from_dir filter_True split: option.split)

lemma map_of_filter_fst: "map_of (filter (\<lambda>(n, i). n \<notin> A) d) k = (if k \<in> A then None else map_of d k)"
  by (induction d) auto

lemma sort_set: "sort_ok io \<Longrightarrow> set (io_sort io xs) = set xs"
  by (metis sort_ok_def set_mset_mset)

lemma segments_names: "fst ` set (segments io base fs) \<subseteq> {n \<in> fst ` set (fs_dir fs). n \<noteq> base \<and> prefix (base @ ''.'') n}"
  by (force simp: segments_def)

lemma victims_sub:
  assumes "sort_ok io"
  shows "victims io r fs \<subseteq> {n \<in> fst ` set (fs_dir fs). n \<noteq> rf_base r \<and> prefix (rf_base r @ ''.'') n}"
proof (cases "io_readdir io = None")
  case True
  have "victims io r fs \<subseteq> fst ` set (segments io (rf_base r) fs)"
    using doomed_sub [of io r 0 "io_sort io (segments io (rf_base r) fs)"] True
    by (simp only: victims_def simp_thms if_True sort_set [OF assms])
  then show ?thesis using segments_names by (rule subset_trans)
qed (auto simp: victims_def)

lemma file_of_prune: "file_of (prune io r fs) k = (if k \<in> victims io r fs then None else file_of fs k)"
  by (simp add: prune_eq file_of_def map_of_filter_fst)

subsection \<open>Rotation and writing\<close>

text \<open>The state of the directory when a rotation is about to prune.\<close>

definition moved :: "io_in \<Rightarrow> RotatingFile \<Rightarrow> nat \<Rightarrow> fsys \<Rightarrow> fsys" where
  "moved io r i fs = fs\<lparr>
     fs_dir := (rf_base r, fs_next fs) # (rotated_name io r, i) # del_name (rotated_name io r) (del_name (rf_base r) (fs_dir fs)),
     fs_data := (fs_data fs)(fs_next fs := []), fs_mtime := (fs_mtime fs)(fs_next fs := io_now io),
     fs_next := Suc (fs_next fs)\<rparr>"

lemma rotated_name_neq [simp]: "rotated_name io r \<noteq> rf_base r" "rf_base r \<noteq> rotated_name io r"
  by (simp_all add: rotated_name_def)

lemma rotate_fine:
  assumes ok: "rf_ok r fs" and fine: "io_fine io" and i: "map_of (fs_dir fs) (rf_base r) = Some i"
  shows "\<exists>r'. rotateLocked io r fs = (None, r', prune io r' (moved io r i fs)) \<and> rf_base r' = rf_base r
      \<and> rf_MaxSizeBytes r' = rf_MaxSizeBytes r \<and> rf_MaxBackups r' = rf_MaxBackups r \<and> rf_MaxAge r' = rf_MaxAge r
      \<and> rf_f r' = Some (fs_next fs, True) \<and> rf_size r' = 0"
  using assms
  by (auto simp: rotateLocked_def f_Close_def os_Rename_def openExisting_def os_OpenFile_def io_fine_def rf_ok_def
      moved_def Let_def)

lemma fs_ok_moved:
  assumes "fs_ok fs" "map_of (fs_dir fs) (rf_base r) = Some i"
  shows "fs_ok (moved io r i fs)"
proof -
  have ok: "fs_ok (fs\<lparr>fs_dir := (rotated_name io r, i) # del_name (rotated_name io r) (del_name (rf_base r) (fs_dir fs))\<rparr>)"
    by (rule fs_ok_rename [OF assms])
  moreover have "rf_base r \<notin> fst ` set (del_name (rotated_name io r) (del_name (rf_base r) (fs_dir fs)))"
    by (auto simp: del_name_def)
  ultimately show ?thesis by (auto simp: fs_ok_def moved_def)
qed

lemma rf_ok_rotate:
  assumes ok: "rf_ok r fs" and fine: "io_fine io" and rot: "rotateLocked io r fs = (e, r', fs')"
  shows "e = None \<and> rf_ok r' fs' \<and> rf_size r' = 0 \<and> rf_base r' = rf_base r \<and> rf_MaxSizeBytes r' = rf_MaxSizeBytes r
    \<and> file_of fs' (rf_base r) = Some []"
proof -
  obtain i where i: "map_of (fs_dir fs) (rf_base r) = Some i" using ok by (auto simp: rf_ok_def)
  obtain r1 where r1: "rotateLocked io r fs = (None, r1, prune io r1 (moved io r i fs))" "rf_base r1 = rf_base r"
    "rf_MaxSizeBytes r1 = rf_MaxSizeBytes r" "rf_f r1 = Some (fs_next fs, True)" "rf_size r1 = 0"
    using rotate_fine [OF ok fine i] by blast
  have vic: "rf_base r \<notin> victims io r1 (moved io r i fs)"
    using victims_sub [of io r1 "moved io r i fs"] fine r1(2) by (auto simp: io_fine_def)
  have "fs_ok (prune io r1 (moved io r i fs))"
    unfolding prune_eq using fs_ok_filter fs_ok_moved [OF _ i] ok by (simp add: rf_ok_def)
  moreover have "map_of (fs_dir (prune io r1 (moved io r i fs))) (rf_base r) = Some (fs_next fs)"
    unfolding prune_eq using vic by (simp add: map_of_filter_fst) (simp add: moved_def)
  moreover have "fs_data (prune io r1 (moved io r i fs)) (fs_next fs) = []" by (simp add: prune_eq moved_def)
  ultimately show ?thesis using r1 rot by (auto simp: rf_ok_def file_of_def)
qed

lemma f_Write_fine:
  assumes "rf_ok r fs" "io_fine io" "f_Write io p r fs = ((n, e), fs')"
  shows "n = length p \<and> e = None \<and> rf_ok (r\<lparr>rf_size := rf_size r + int n\<rparr>) fs'
    \<and> file_of fs' (rf_base r) = map_option (\<lambda>b. b @ p) (file_of fs (rf_base r))
    \<and> (\<forall>name. name \<noteq> rf_base r \<longrightarrow> file_of fs' name = file_of fs name) \<and> fs_dir fs' = fs_dir fs"
proof -
  obtain i where i: "rf_f r = Some (i, True)" "map_of (fs_dir fs) (rf_base r) = Some i"
    "rf_size r = int (length (fs_data fs i))" and ok: "fs_ok fs" using assms(1) by (auto simp: rf_ok_def)
  have fs': "fs' = fs\<lparr>fs_data := (fs_data fs)(i := fs_data fs i @ p), fs_mtime := (fs_mtime fs)(i := io_now io)\<rparr>"
    and ne: "n = length p" "e = None"
    using assms(2,3) i(1) by (auto simp: f_Write_def io_fine_def)
  have "file_of fs' name = file_of fs name" if "name \<noteq> rf_base r" for name
    using fs_ok_map_of(2) [OF ok i(2), of name] that by (cases "map_of (fs_dir fs) name") (auto simp: file_of_def fs')
  then show ?thesis using i ok ne by (auto simp: fs' rf_ok_def fs_ok_def file_of_def)
qed

section \<open>Properties\<close>

text \<open>An operating system that does what it is asked, and a log file with two bytes and a cap of three.\<close>

definition good_io :: "gtime \<Rightarrow> io_in" where
  "good_io now = \<lparr>io_now = now, io_pruneNow = now, io_mkdir = None, io_open = None, io_stat = None, io_close = None,
     io_rename = None, io_short = None, io_sync = None, io_readdir = None, io_info = (\<lambda>_. None), io_remove = (\<lambda>_. None),
     io_sort = sort_key (\<lambda>s. - snd s), io_stamp = dec_int, io_gzip = GzOk\<rparr>"

definition demo_rf :: RotatingFile where
  "demo_rf = \<lparr>rf_base = ''a'', rf_MaxSizeBytes = 3, rf_MaxBackups = 0, rf_MaxAge = 0, rf_Compress = False,
     rf_f = Some (0, True), rf_size = 2, rf_jobs = []\<rparr>"

definition demo_fs :: fsys where
  "demo_fs = \<lparr>fs_dir = [(''a'', 0), (''a.7'', 1)], fs_data = (\<lambda>i. if i = 0 then ''xy'' else ''old''), fs_mtime = (\<lambda>i. 5), fs_next = 2\<rparr>"

lemma good_io_fine: "io_fine (good_io now)" "sort_ok (good_io now)"
proof -
  have "sorted_wrt (\<lambda>a b. snd b \<le> snd a) (sort_key (\<lambda>s. - snd s) xs)" for xs :: "(string \<times> gtime) list"
  proof -
    have "sorted (map (\<lambda>s. - snd s) (sort_key (\<lambda>s. - snd s) xs))" by (rule sorted_sort_key)
    then show ?thesis by (simp add: sorted_map)
  qed
  then show "sort_ok (good_io now)" by (simp add: sort_ok_def good_io_def)
  then show "io_fine (good_io now)" by (simp add: io_fine_def) (simp add: good_io_def)
qed

lemma demo_rf_ok: "rf_ok demo_rf demo_fs"
  by (simp add: rf_ok_def fs_ok_def demo_rf_def demo_fs_def)

text \<open>
  C18: The size cap. As long as the operating system does what it is asked, every \<open>Write\<close> takes the
  whole line, keeps the file well-formed, and leaves the active file within the limit
  \<open>MaxSizeBytes\<close> (100 MiB when not positive) or consisting of that one line alone; so only a single line
  longer than the cap can exceed it, and no line is split over two files.
\<close>

theorem file_size_cap:
  assumes "rf_ok r fs" "io_fine io" "RotatingFile_Write io p r fs = ((n, e), r', fs')"
  shows "n = length p \<and> e = None \<and> rf_ok r' fs'
    \<and> (\<exists>content. file_of fs' (rf_base r) = Some content \<and> (int (length content) \<le> maxSize r \<or> content = p))"
proof -
  obtain e1 r1 fs1 where rot: "(if rotates r p then rotateLocked io r fs else (None, r, fs)) = (e1, r1, fs1)"
    by (metis prod_cases3)
  obtain c where c: "file_of fs (rf_base r) = Some c" "rf_size r = int (length c)"
    using assms(1) by (auto simp: rf_ok_def file_of_def)
  have r1: "e1 = None" "rf_ok r1 fs1" "rf_base r1 = rf_base r"
    using rot rf_ok_rotate [OF assms(1,2)] assms(1) by (auto split: if_splits)
  have c1: "file_of fs1 (rf_base r) = Some (if rotates r p then [] else c)"
    using rot rf_ok_rotate [OF assms(1,2)] c(1) by (auto split: if_splits)
  obtain n1 e2 fs2 where w: "f_Write io p r1 fs1 = ((n1, e2), fs2)" by (metis prod.collapse)
  note fw = f_Write_fine [OF r1(2) assms(2) w]
  have res: "n = n1" "e = e2" "r' = r1\<lparr>rf_size := rf_size r1 + int n1\<rparr>" "fs' = fs2"
    using assms(3) rot r1(1) w by (auto simp: RotatingFile_Write_def)
  have "file_of fs' (rf_base r) = Some ((if rotates r p then [] else c) @ p)" using fw c1 r1(3) res by simp
  moreover have "int (length (c @ p)) \<le> maxSize r \<or> c @ p = p" if "\<not> rotates r p"
    using that c(2) by (auto simp: rotates_def)
  ultimately show ?thesis using fw res by auto
qed

theorem file_size_cap_witness:
  "\<exists>content. file_of (snd (snd (RotatingFile_Write (good_io 9) ''zzz'' demo_rf demo_fs))) ''a'' = Some content
     \<and> (int (length content) \<le> 3 \<or> content = ''zzz'')"
proof -
  obtain n e r' fs' where w: "RotatingFile_Write (good_io 9) ''zzz'' demo_rf demo_fs = ((n, e), r', fs')" by (metis prod.collapse)
  show ?thesis using file_size_cap [OF demo_rf_ok good_io_fine(1) w] w by (simp add: demo_rf_def maxSize_def)
qed

text \<open>The loop removes, when removals succeed, what is beyond the count and what is too old.\<close>

definition expired :: "io_in \<Rightarrow> RotatingFile \<Rightarrow> gtime \<Rightarrow> bool" where
  "expired io r t \<longleftrightarrow> 0 < rf_MaxAge r \<and> rf_MaxAge r < time_Sub (io_pruneNow io) t"

lemma doomed_exact:
  assumes "\<And>n. io_remove io n = None"
  shows "doomed io r k segs = fst ` set (if 0 < rf_MaxBackups r then drop (nat (rf_MaxBackups r) - k) segs else [])
    \<union> fst ` set (filter (\<lambda>s. expired io r (snd s)) segs)"
proof (induction segs arbitrary: k)
  case (Cons s segs)
  obtain n m where s: "s = (n, m)" by fastforce
  have one: "doomed io r k (s # segs) = (if 0 < rf_MaxBackups r \<and> rf_MaxBackups r \<le> int k \<or> expired io r m then {n} else {})
      \<union> doomed io r (Suc k) segs"
    by (simp only: s doomed.simps expired_def assms simp_thms)
  show ?case
  proof (cases "rf_MaxBackups r \<le> int k")
    case True
    then have "nat (rf_MaxBackups r) - k = 0" "nat (rf_MaxBackups r) - Suc k = 0" by auto
    then show ?thesis unfolding one Cons.IH [of "Suc k"] using True by (cases "0 < rf_MaxBackups r") (auto simp: s)
  next
    case False
    then have "nat (rf_MaxBackups r) - k = Suc (nat (rf_MaxBackups r) - Suc k)" by auto
    then show ?thesis unfolding one Cons.IH [of "Suc k"] using False by (cases "0 < rf_MaxBackups r") (auto simp: s)
  qed
qed simp

lemma filter_unique:
  assumes "(n, t) \<in> set xs" "\<And>u. (n, u) \<in> set xs \<Longrightarrow> u = t"
  shows "n \<in> fst ` set (filter (\<lambda>s. P (snd s)) xs) \<longleftrightarrow> P t"
proof
  assume "n \<in> fst ` set (filter (\<lambda>s. P (snd s)) xs)"
  then obtain u where "(n, u) \<in> set xs" "P u" by auto
  then show "P t" using assms(2) by blast
next
  assume "P t"
  with assms(1) have "(n, t) \<in> set (filter (\<lambda>s. P (snd s)) xs)" by simp
  then show "n \<in> fst ` set (filter (\<lambda>s. P (snd s)) xs)" by (rule rev_image_eqI) simp
qed

lemma doomed_failed: "io_remove io n \<noteq> None \<Longrightarrow> n \<notin> doomed io r k segs"
  by (induction io r k segs rule: doomed.induct) auto

definition is_segment :: "string \<Rightarrow> string \<Rightarrow> bool" where
  "is_segment base n \<longleftrightarrow> n \<noteq> base \<and> prefix (base @ ''.'') n"

definition mtime_of :: "fsys \<Rightarrow> string \<Rightarrow> gtime option" where
  "mtime_of fs n = map_option (fs_mtime fs) (map_of (fs_dir fs) n)"

lemma segments_mem:
  assumes "fs_ok fs" "\<And>n. io_info io n = None"
  shows "(n, m) \<in> set (segments io base fs) \<longleftrightarrow> is_segment base n \<and> mtime_of fs n = Some m"
proof -
  have "(n, i) \<in> set (fs_dir fs) \<longleftrightarrow> map_of (fs_dir fs) n = Some i" for i
    using assms(1) by (auto simp: fs_ok_def)
  then show ?thesis using assms(2) by (force simp: segments_def is_segment_def mtime_of_def)
qed

lemma segments_distinct: "fs_ok fs \<Longrightarrow> distinct (map fst (segments io base fs))"
  by (simp add: segments_def fs_ok_def o_def split_beta distinct_filter_map)

text \<open>The rotated segments on disk, and how many of them the count limit lets stay.\<close>

definition segment_names :: "RotatingFile \<Rightarrow> fsys \<Rightarrow> string set" where
  "segment_names r fs = {n. is_segment (rf_base r) n \<and> file_of fs n \<noteq> None}"

definition backups_allowed :: "RotatingFile \<Rightarrow> nat \<Rightarrow> nat" where
  "backups_allowed r m = (if 0 < rf_MaxBackups r then min (nat (rf_MaxBackups r)) m else m)"

text \<open>
  A selection the count limit may make: as many of the segments as allowed, none of them older than one
  left out (which of several segments with the same time is unspecified, as the sort is unstable).
\<close>

definition newest_segments :: "RotatingFile \<Rightarrow> fsys \<Rightarrow> string set \<Rightarrow> bool" where
  "newest_segments r fs K \<longleftrightarrow>
     K \<subseteq> segment_names r fs \<and> card K = backups_allowed r (card (segment_names r fs))
     \<and> (\<forall>n \<in> K. \<forall>m \<in> segment_names r fs - K. the (mtime_of fs m) \<le> the (mtime_of fs n))"

lemma newest_take:
  assumes "fs_ok fs" "sort_ok io" "\<And>n. io_info io n = None"
    and "S = io_sort io (segments io (rf_base r) fs)" "k = backups_allowed r (length S)"
  shows "newest_segments r fs (fst ` set (take k S))" "segment_names r fs = fst ` set S"
    and "\<And>n t. (n, t) \<in> set S \<Longrightarrow> mtime_of fs n = Some t" and "distinct (map fst S)"
proof -
  have mem: "(n, t) \<in> set S \<longleftrightarrow> is_segment (rf_base r) n \<and> mtime_of fs n = Some t" for n t
    using segments_mem [OF assms(1), of io n t "rf_base r"] assms(3,4) sort_set [OF assms(2)] by simp
  then show time: "\<And>n t. (n, t) \<in> set S \<Longrightarrow> mtime_of fs n = Some t" by simp
  have "mset (map fst S) = mset (map fst (segments io (rf_base r) fs))"
    using assms(2,4) by (simp add: sort_ok_def)
  then show dist: "distinct (map fst S)"
    using segments_distinct [OF assms(1)] by (metis mset_eq_imp_distinct_iff)
  show names: "segment_names r fs = fst ` set S"
    using mem by (force simp: segment_names_def file_of_def mtime_of_def)
  have count: "card (fst ` set (take j S)) = min j (length S)" for j
    using distinct_card [OF distinct_take [OF dist, of j]] by (simp add: take_map min.commute)
  have all: "card (fst ` set S) = length S" using count [of "length S"] by simp
  have older: "the (mtime_of fs m) \<le> the (mtime_of fs n)"
    if n: "n \<in> fst ` set (take k S)" and m: "m \<in> fst ` set S - fst ` set (take k S)" for n m
  proof -
    from n obtain t where t: "(n, t) \<in> set (take k S)" by auto
    from m obtain u where u: "(m, u) \<in> set (take k S @ drop k S)" by auto
    with m have u': "(m, u) \<in> set (drop k S)" by (force simp del: append_take_drop_id)
    have "sorted_wrt (\<lambda>a b. snd b \<le> snd a) (take k S @ drop k S)"
      using assms(2,4) by (simp add: sort_ok_def)
    then have "u \<le> t" using t u' unfolding sorted_wrt_append by fastforce
    then show ?thesis using time [OF in_set_takeD [OF t]] time [OF in_set_dropD [OF u']] by simp
  qed
  show "newest_segments r fs (fst ` set (take k S))"
    unfolding newest_segments_def names
    using older by (auto simp: count all assms(5) backups_allowed_def dest: in_set_takeD)
qed

text \<open>When nothing fails: exactly the newest ones, less the expired ones.\<close>

lemma prune_survivors:
  assumes "fs_ok fs" "sort_ok io"
    and h: "io_readdir io = None \<and> (\<forall>n. io_info io n = None \<and> io_remove io n = None)"
  shows "\<exists>K. newest_segments r fs K \<and>
    segment_names r (prune io r fs) = {n \<in> K. \<not> expired io r (the (mtime_of fs n))}"
proof -
  let ?S = "io_sort io (segments io (rf_base r) fs)"
  let ?k = "backups_allowed r (length ?S)"
  note new = newest_take [OF assms(1,2), of ?S r ?k, simplified h, OF refl refl refl]
  have drop: "(if 0 < rf_MaxBackups r then drop (nat (rf_MaxBackups r) - 0) ?S else []) = drop ?k ?S"
    by (simp add: backups_allowed_def min_def)
  have vic: "victims io r fs = fst ` set (drop ?k ?S) \<union> fst ` set (filter (\<lambda>s. expired io r (snd s)) ?S)"
    using h doomed_exact [of io r 0 ?S] unfolding drop by (simp add: victims_def)
  have "distinct (map fst (take ?k ?S @ drop ?k ?S))" using new(4) by simp
  then have disj: "fst ` set (take ?k ?S) \<inter> fst ` set (drop ?k ?S) = {}"
    by (simp only: map_append distinct_append set_map)
  have all: "fst ` set ?S = fst ` set (take ?k ?S) \<union> fst ` set (drop ?k ?S)"
    by (metis append_take_drop_id image_Un set_append)
  have old: "n \<in> fst ` set (filter (\<lambda>s. expired io r (snd s)) ?S) \<longleftrightarrow> expired io r (the (mtime_of fs n))"
    if "n \<in> fst ` set ?S" for n
  proof -
    obtain t where t: "(n, t) \<in> set ?S" using \<open>n \<in> fst ` set ?S\<close> by auto
    have "u = t" if "(n, u) \<in> set ?S" for u using new(3) [OF t] new(3) [OF that] by simp
    then have "n \<in> fst ` set (filter (\<lambda>s. expired io r (snd s)) ?S) \<longleftrightarrow> expired io r t"
      by (rule filter_unique [OF t])
    then show ?thesis unfolding new(3) [OF t] option.sel .
  qed
  have rest: "segment_names r (prune io r fs) = fst ` set ?S - victims io r fs"
    using new(2) by (auto simp: segment_names_def file_of_prune)
  have minus: "S - (B \<union> E) = {n \<in> A. \<not> X n}"
    if "A \<inter> B = {}" "S = A \<union> B" "\<And>n. n \<in> S \<Longrightarrow> n \<in> E \<longleftrightarrow> X n" for A B E S :: "string set" and X
    using that by blast
  have "segment_names r (prune io r fs) = {n \<in> fst ` set (take ?k ?S). \<not> expired io r (the (mtime_of fs n))}"
    unfolding rest vic by (rule minus [OF disj all old])
  then show "\<exists>K. newest_segments r fs K \<and>
      segment_names r (prune io r fs) = {n \<in> K. \<not> expired io r (the (mtime_of fs n))}"
    using new(1) by blast
qed

text \<open>
  C19: Pruning, exactly. Whatever fails, a file that is not named like a segment of this log (the active
  file among them) is untouched, a file that stays stays unchanged, and a segment that cannot be
  examined or removed stays. When nothing fails, the segments that survive are precisely those
  that belong to a newest selection of \<open>MaxBackups\<close> segments (all of them, if there are fewer or
  no count limit is set) and are not older than \<open>MaxAge\<close> (if an age limit is set).
\<close>

theorem prune_keeps_newest:
  assumes "fs_ok fs" "sort_ok io"
  shows "(\<forall>n. \<not> is_segment (rf_base r) n \<or> io_readdir io \<noteq> None \<or> io_info io n \<noteq> None \<or> io_remove io n \<noteq> None
        \<longrightarrow> file_of (prune io r fs) n = file_of fs n)
    \<and> (\<forall>n. file_of (prune io r fs) n \<in> {None, file_of fs n})
    \<and> (io_readdir io = None \<and> (\<forall>n. io_info io n = None \<and> io_remove io n = None) \<longrightarrow>
        (\<exists>K. newest_segments r fs K \<and>
          segment_names r (prune io r fs) = {n \<in> K. \<not> expired io r (the (mtime_of fs n))}))"
proof (intro conjI allI impI)
  let ?S = "io_sort io (segments io (rf_base r) fs)"
  fix n
  show "file_of (prune io r fs) n \<in> {None, file_of fs n}" by (simp add: file_of_prune)
  assume n: "\<not> is_segment (rf_base r) n \<or> io_readdir io \<noteq> None \<or> io_info io n \<noteq> None \<or> io_remove io n \<noteq> None"
  have "n \<notin> fst ` set ?S" if "io_info io n \<noteq> None"
    using that sort_set [OF assms(2)] by (auto simp: segments_def)
  then have "n \<notin> victims io r fs"
    using n victims_sub [OF assms(2), of r fs] doomed_failed [of io n r 0 ?S] doomed_sub [of io r 0 ?S]
    by (auto simp: is_segment_def victims_def)
  then show "file_of (prune io r fs) n = file_of fs n" by (simp add: file_of_prune)
qed (use prune_survivors assms in blast)

text \<open>
  Three segments, two kept by the count, one of those too old, beside the active file and a file of
  another name.
\<close>

definition prune_fs :: fsys where
  "prune_fs = \<lparr>fs_dir = [(''a.1'', 1), (''a.4'', 4), (''a'', 0), (''b'', 5), (''a.3'', 3)],
     fs_data = (\<lambda>i. [CHR ''x'']), fs_mtime = int, fs_next = 6\<rparr>"

definition prune_rf :: RotatingFile where
  "prune_rf = demo_rf\<lparr>rf_MaxBackups := 2, rf_MaxAge := 5\<rparr>"

lemma prune_fs_segments: "segment_names prune_rf prune_fs = {''a.1'', ''a.3'', ''a.4''}"
  by (auto simp: segment_names_def prune_rf_def prune_fs_def demo_rf_def is_segment_def file_of_def split: if_splits)

theorem prune_keeps_newest_witness:
  "segment_names prune_rf (prune (good_io 9) prune_rf prune_fs) = {''a.4''}
   \<and> file_of (prune (good_io 9) prune_rf prune_fs) ''a'' = Some ''x''
   \<and> file_of (prune (good_io 9) prune_rf prune_fs) ''b'' = Some ''x''"
proof -
  have ok: "fs_ok prune_fs" by (simp add: fs_ok_def prune_fs_def)
  have keep_second: "P a \<Longrightarrow> \<not> P b \<Longrightarrow> {n \<in> {a, b}. \<not> P n} = {b}" for P and a b :: string by auto
  have limit: "rf_MaxBackups prune_rf = 2" by (simp add: prune_rf_def)
  note main = prune_keeps_newest [OF ok good_io_fine(2), of prune_rf 9]
  have io: "io_readdir (good_io 9) = None" "io_info (good_io 9) n = None" "io_remove (good_io 9) n = None" for n
    by (simp_all add: good_io_def)
  from main [THEN conjunct2, THEN conjunct2] obtain K where K: "newest_segments prune_rf prune_fs K"
    "segment_names prune_rf (prune (good_io 9) prune_rf prune_fs)
      = {n \<in> K. \<not> expired (good_io 9) prune_rf (the (mtime_of prune_fs n))}"
    by (auto simp: io)
  have t: "mtime_of prune_fs ''a.1'' = Some 1" "mtime_of prune_fs ''a.3'' = Some 3" "mtime_of prune_fs ''a.4'' = Some 4"
    by (simp_all add: mtime_of_def prune_fs_def)
  have sub: "K \<subseteq> {''a.1'', ''a.3'', ''a.4''}" and two: "card K = 2"
    and old: "\<forall>n \<in> K. \<forall>m \<in> {''a.1'', ''a.3'', ''a.4''} - K. the (mtime_of prune_fs m) \<le> the (mtime_of prune_fs n)"
    using K(1) by (simp_all add: newest_segments_def prune_fs_segments backups_allowed_def limit)
  have "''a.1'' \<notin> K"
  proof
    assume one: "''a.1'' \<in> K"
    have "''a.3'' \<in> K" using old [rule_format, OF one, of "''a.3''"] t by auto
    moreover have "''a.4'' \<in> K" using old [rule_format, OF one, of "''a.4''"] t by auto
    ultimately have "K = {''a.1'', ''a.3'', ''a.4''}" using one sub by blast
    then show False using two by simp
  qed
  then have "K \<subseteq> {''a.3'', ''a.4''}" using sub by blast
  then have "K = {''a.3'', ''a.4''}" using two by (intro card_subset_eq) simp_all
  moreover have "expired (good_io 9) prune_rf (the (mtime_of prune_fs ''a.3''))"
    "\<not> expired (good_io 9) prune_rf (the (mtime_of prune_fs ''a.4''))"
    unfolding t by (simp_all add: expired_def prune_rf_def good_io_def time_Sub_def)
  ultimately have "segment_names prune_rf (prune (good_io 9) prune_rf prune_fs) = {''a.4''}"
    unfolding K(2) by (simp only: keep_second not_False_eq_True)
  moreover have "\<not> is_segment (rf_base prune_rf) ''a''" "\<not> is_segment (rf_base prune_rf) ''b''"
    by (simp_all add: is_segment_def prune_rf_def demo_rf_def)
  ultimately show ?thesis using main [THEN conjunct1] by (simp add: file_of_def prune_fs_def)
qed

text \<open>What one successful write does to every file, when nothing is pruned.\<close>

definition keeps_all :: "RotatingFile \<Rightarrow> bool" where
  "keeps_all r \<longleftrightarrow> rf_MaxBackups r \<le> 0 \<and> rf_MaxAge r \<le> 0"

lemma keeps_all_victims:
  assumes "keeps_all r"
  shows "victims io r fs = {}"
proof -
  have "doomed io r k segs = {}" for k segs
    using assms by (induction segs arbitrary: k) (auto simp: keeps_all_def)
  then show ?thesis by (simp add: victims_def)
qed

lemma write_files:
  assumes "rf_ok r fs" "io_fine io" "keeps_all r" "RotatingFile_Write io p r fs = (res, r', fs')"
    and "file_of fs (rf_base r) = Some c"
  shows "rf_ok r' fs'" "rf_base r' = rf_base r" "keeps_all r'"
    "file_of fs' = (file_of fs)(rf_base r \<mapsto> (if rotates r p then [] else c) @ p,
        if rotates r p then rotated_name io r else rf_base r \<mapsto> if rotates r p then c else c @ p)"
proof -
  obtain e1 r1 fs1 where rot: "(if rotates r p then rotateLocked io r fs else (None, r, fs)) = (e1, r1, fs1)"
    by (metis prod_cases3)
  obtain i where i: "map_of (fs_dir fs) (rf_base r) = Some i" "c = fs_data fs i"
    using assms(1,5) by (auto simp: rf_ok_def file_of_def)
  have ok: "fs_ok fs" using assms(1) by (simp add: rf_ok_def)
  have r1: "e1 = None \<and> rf_ok r1 fs1 \<and> rf_base r1 = rf_base r \<and> keeps_all r1
    \<and> file_of fs1 = (if rotates r p then (file_of fs)(rf_base r \<mapsto> [], rotated_name io r \<mapsto> c) else file_of fs)"
  proof (cases "rotates r p")
    case True
    obtain r2 where r2: "rotateLocked io r fs = (None, r2, prune io r2 (moved io r i fs))" "rf_base r2 = rf_base r"
      "rf_MaxBackups r2 = rf_MaxBackups r" "rf_MaxAge r2 = rf_MaxAge r"
      using rotate_fine [OF assms(1,2) i(1)] by blast
    have k2: "keeps_all r2" using assms(3) r2 by (simp add: keeps_all_def)
    have "file_of (moved io r i fs) n = ((file_of fs)(rf_base r \<mapsto> [], rotated_name io r \<mapsto> c)) n" for n
    proof -
      have "map_of (fs_dir fs) n \<noteq> Some (fs_next fs)" using fs_ok_map_of(1) [OF ok, of n] by auto
      moreover have "i \<noteq> fs_next fs" using fs_ok_map_of(1) [OF ok i(1)] by simp
      ultimately show ?thesis
        using i by (cases "map_of (fs_dir fs) n") (auto simp: file_of_def moved_def)
    qed
    then have "file_of (prune io r2 (moved io r i fs)) = (file_of fs)(rf_base r \<mapsto> [], rotated_name io r \<mapsto> c)"
      using keeps_all_victims [OF k2] by (auto simp: file_of_prune fun_eq_iff)
    moreover have "rf_ok r2 (prune io r2 (moved io r i fs))" using rf_ok_rotate [OF assms(1,2) r2(1)] by blast
    ultimately show ?thesis using True rot r2 k2 by auto
  qed (use rot assms in auto)
  obtain n1 e2 fs2 where w: "f_Write io p r1 fs1 = ((n1, e2), fs2)" by (metis prod.collapse)
  then have fw: "rf_ok (r1\<lparr>rf_size := rf_size r1 + int n1\<rparr>) fs2"
    "file_of fs2 (rf_base r) = map_option (\<lambda>b. b @ p) (file_of fs1 (rf_base r))"
    "\<And>name. name \<noteq> rf_base r \<Longrightarrow> file_of fs2 name = file_of fs1 name"
    using f_Write_fine [OF _ assms(2) w] r1 by auto
  have res: "r' = r1\<lparr>rf_size := rf_size r1 + int n1\<rparr>" "fs' = fs2"
    using assms(4) rot r1 w by (auto simp: RotatingFile_Write_def)
  show "rf_ok r' fs'" "rf_base r' = rf_base r" "keeps_all r'"
    using fw(1) r1 res by (simp_all add: keeps_all_def)
  show "file_of fs' = (file_of fs)(rf_base r \<mapsto> (if rotates r p then [] else c) @ p,
        if rotates r p then rotated_name io r else rf_base r \<mapsto> if rotates r p then c else c @ p)"
    using fw(2,3) r1 res(2) assms(5) by (auto simp: fun_eq_iff)
qed

text \<open>A run of writes, with the names of the segments it creates, in order.\<close>

fun rot_run :: "(io_in \<times> bytes) list \<Rightarrow> RotatingFile \<Rightarrow> fsys \<Rightarrow> string list \<times> RotatingFile \<times> fsys" where
  "rot_run [] r fs = ([], r, fs)"
| "rot_run ((io, p) # ws) r fs =
     (let (res, r1, fs1) = RotatingFile_Write io p r fs;
          (names, r2, fs2) = rot_run ws r1 fs1
      in ((if rotates r p then [rotated_name io r] else []) @ names, r2, fs2))"

lemma rotated_name_base: "rf_base r' = rf_base r \<Longrightarrow> rotated_name io r' = rotated_name io r"
  by (simp add: rotated_name_def)



text \<open>
  Two rotations within one millisecond lose a segment: when the name of the new segment is taken,
  the renaming replaces the older file, and no name leads to its contents any more.
\<close>

lemma rotation_collision:
  assumes "rf_ok r fs" "io_fine io" "rotates r p" "map_of (fs_dir fs) (rotated_name io r) = Some j"
    and "RotatingFile_Write io p r fs = (res, r', fs')"
  shows "\<forall>n. map_of (fs_dir fs') n \<noteq> Some j"
proof
  fix n
  obtain i where i: "map_of (fs_dir fs) (rf_base r) = Some i" using assms(1) by (auto simp: rf_ok_def)
  have ok: "fs_ok fs" using assms(1) by (simp add: rf_ok_def)
  obtain r1 where r1: "rotateLocked io r fs = (None, r1, prune io r1 (moved io r i fs))"
    using rotate_fine [OF assms(1,2) i] by blast
  obtain x fs2 where w: "f_Write io p r1 (prune io r1 (moved io r i fs)) = (x, fs2)" by fastforce
  have "fs_dir fs' = fs_dir (prune io r1 (moved io r i fs))"
    using assms(3,5) r1 w by (auto simp: RotatingFile_Write_def f_Write_def Let_def split: option.splits bool.splits prod.splits)
  moreover have "map_of (fs_dir (moved io r i fs)) n \<noteq> Some j"
  proof -
    have "j \<noteq> fs_next fs" using fs_ok_map_of(1) [OF ok assms(4)] by simp
    moreover have "j \<noteq> i" using fs_ok_map_of(2) [OF ok assms(4), of "rf_base r"] i by auto
    moreover have "n = rotated_name io r" if "map_of (fs_dir fs) n = Some j" using fs_ok_map_of(2) [OF ok assms(4) that] .
    ultimately show ?thesis by (auto simp: moved_def)
  qed
  ultimately show "map_of (fs_dir fs') n \<noteq> Some j" by (auto simp: prune_eq map_of_filter_fst split: if_splits)
qed

theorem rotation_collision_witness:
  "\<forall>n. map_of (fs_dir (snd (snd (RotatingFile_Write (good_io 7) ''zz'' demo_rf demo_fs)))) n \<noteq> Some 1"
proof -
  obtain res r' fs' where w: "RotatingFile_Write (good_io 7) ''zz'' demo_rf demo_fs = (res, r', fs')" by (metis prod_cases3)
  have "rotated_name (good_io 7) demo_rf = ''a.7''" by code_simp
  then have "map_of (fs_dir demo_fs) (rotated_name (good_io 7) demo_rf) = Some 1" by (simp add: demo_fs_def)
  moreover have "rotates demo_rf ''zz''" by (simp add: rotates_def demo_rf_def maxSize_def)
  ultimately show ?thesis using rotation_collision [OF demo_rf_ok good_io_fine(1) _ _ w] w by simp
qed

text \<open>
  C20: A failed rotation is final: if the renaming fails, the handle has already been closed, and from
  then on every \<open>Write\<close> of every size fails and changes no file, for any number of attempts, until
  \<open>Reopen\<close>.
\<close>

theorem failed_rotation_sticks:
  assumes "rf_f r = Some (i, True)" "rotates r p" "io_close io = None" "io_rename io = Some e"
  shows "RotatingFile_Write io p r fs = ((0, Some e), r\<lparr>rf_f := Some (i, False)\<rparr>, fs)
    \<and> (\<forall>ws. \<forall>r1. rf_f r1 = Some (i, False) \<longrightarrow>
         snd (snd (rot_run ws r1 fs)) = fs \<and> (\<forall>io q. fst (fst (RotatingFile_Write io q r1 fs)) = 0
           \<and> snd (fst (RotatingFile_Write io q r1 fs)) \<noteq> None))"
proof (intro conjI allI impI)
  show "RotatingFile_Write io p r fs = ((0, Some e), r\<lparr>rf_f := Some (i, False)\<rparr>, fs)"
    using assms by (simp add: RotatingFile_Write_def rotateLocked_def f_Close_def os_Rename_def)
  have one: "\<exists>err r2. RotatingFile_Write io q r1 fs = ((0, Some err), r2, fs) \<and> rf_f r2 = Some (i, False)"
    if "rf_f r1 = Some (i, False)" for io q r1
    using that by (auto simp: RotatingFile_Write_def rotateLocked_def f_Close_def f_Write_def)
  fix ws and r1 :: RotatingFile assume r1: "rf_f r1 = Some (i, False)"
  show "fst (fst (RotatingFile_Write io q r1 fs)) = 0" "snd (fst (RotatingFile_Write io q r1 fs)) \<noteq> None" for io q
    using one [OF r1, of io q] by auto
  show "snd (snd (rot_run ws r1 fs)) = fs"
    using r1
  proof (induction ws arbitrary: r1)
    case (Cons w ws)
    obtain io q where w: "w = (io, q)" by fastforce
    obtain err r2 where "RotatingFile_Write io q r1 fs = ((0, Some err), r2, fs)" "rf_f r2 = Some (i, False)"
      using one [OF Cons.prems] by blast
    then show ?case using Cons.IH [of r2] w by (simp add: split_beta)
  qed simp
qed

theorem failed_rotation_sticks_witness:
  "fst (RotatingFile_Write ((good_io 9)\<lparr>io_rename := Some (GoErr ''disk'')\<rparr>) ''zz'' demo_rf demo_fs) = (0, Some (GoErr ''disk''))"
proof -
  have "rf_f demo_rf = Some (0, True)" "rotates demo_rf ''zz''" by (simp_all add: demo_rf_def rotates_def maxSize_def)
  from failed_rotation_sticks [OF this, of "(good_io 9)\<lparr>io_rename := Some (GoErr ''disk'')\<rparr>" "GoErr ''disk''" demo_fs]
  show ?thesis by (simp add: good_io_def)
qed

text \<open>
  \<open>Reopen\<close> after an external rotation: once the file has been moved away, the handle still writes to
  the moved file; after \<open>Reopen\<close> a new file of the old name receives the output and the moved
  one is left alone.
\<close>

lemma reopen_after_move:
  assumes "rf_ok r fs" "io_fine io" "io_fine io2" "os_Rename io (rf_base r) other fs = Inr fs1" "other \<noteq> rf_base r"
    and "Reopen io2 r fs1 = (e, r', fs2)"
  shows "e = None \<and> rf_ok r' fs2 \<and> file_of fs2 (rf_base r) = Some [] \<and> file_of fs2 other = file_of fs (rf_base r)"
proof -
  obtain i where i: "map_of (fs_dir fs) (rf_base r) = Some i" "rf_f r = Some (i, True)" and ok: "fs_ok fs"
    using assms(1) by (auto simp: rf_ok_def)
  have fs1: "fs1 = fs\<lparr>fs_dir := (other, i) # del_name other (del_name (rf_base r) (fs_dir fs))\<rparr>"
    using assms(2,4) i by (simp add: os_Rename_def io_fine_def)
  have ok1: "fs_ok fs1" unfolding fs1 by (rule fs_ok_rename [OF ok i(1)])
  have "i \<noteq> fs_next fs" using fs_ok_map_of(1) [OF ok i(1)] by simp
  moreover have "rf_base r \<notin> fst ` set (fs_dir fs1)" using assms(5) by (auto simp: fs1 del_name_def)
  moreover have "fs_ok fs2"
    using fs_ok_create [OF ok1 calculation(2)]
      assms(3,5,6) i by (auto simp: Reopen_def f_Close_def openExisting_def os_OpenFile_def io_fine_def fs1)
  ultimately show ?thesis
    using assms(3,5,6) i
    by (auto simp: Reopen_def f_Close_def openExisting_def os_OpenFile_def io_fine_def rf_ok_def file_of_def fs1)
qed

end
