(* ===== verification/HTTP_Batch.thy ===== *)
theory HTTP_Batch
  imports Encoders Span_Tree "HOL-Library.AList"
begin

text \<open>
  \<open>sink_http.go\<close>: the batching HTTP sink and the request bodies of the cloud sinks built on it. The
  critical sections of the sink, the firing of its timer, the delayed callbacks and the
  completion of requests are the steps of a transition system. The theorems: every accepted
  record is in exactly one batch, in order, and every batch is delivered or counted; no record
  is left without a flush under way; the bodies are well-formed.
\<close>

section \<open>The sink\<close>

text \<open>
  A timer that has fired stays in the field until \<open>takeLocked\<close>; its callback may still be waiting
  for the lock. The HTTP client is external: a request ends with an error or a status.
\<close>

datatype timer = Armed | Fired

record HTTPBatchSink =
  hb_URL :: string
  hb_Headers :: "(string \<times> string) list"
  hb_MaxBatch :: int
  hb_Flush :: int
  hb_MinLvl :: Level
  hb_buf :: "Record list"
  hb_timer :: "timer option"
  hb_dropped :: u64
  hb_closed :: bool

definition NewHTTPBatchSink :: "string \<Rightarrow> Level \<Rightarrow> HTTPBatchSink" where
  "NewHTTPBatchSink url minLevel =
     \<lparr>hb_URL = url, hb_Headers = [], hb_MaxBatch = 256, hb_Flush = 5 * 10 ^ 9, hb_MinLvl = minLevel, hb_buf = [],
      hb_timer = None, hb_dropped = 0, hb_closed = False\<rparr>"

definition WithHeader :: "string \<Rightarrow> string \<Rightarrow> HTTPBatchSink \<Rightarrow> HTTPBatchSink" where
  "WithHeader k v h = h\<lparr>hb_Headers := AList.update k v (hb_Headers h)\<rparr>"

definition takeLocked :: "HTTPBatchSink \<Rightarrow> Record list \<times> HTTPBatchSink" where
  "takeLocked h = (let b = hb_buf h in (b, h\<lparr>hb_buf := [], hb_timer := None\<rparr>))"

text \<open>\<open>Emit\<close>; the batch it hands to a new goroutine, if any.\<close>

definition http_Emit :: "Record \<Rightarrow> HTTPBatchSink \<Rightarrow> Record list option \<times> HTTPBatchSink" where
  "http_Emit r h =
     (if rLevel r < hb_MinLvl h then (None, h)
      else if hb_closed h then (None, h)
      else (let h1 = h\<lparr>hb_buf := hb_buf h @ [Clone r]\<rparr>
            in if int (length (hb_buf h1)) \<ge> hb_MaxBatch h1
               then (let (batch, h2) = takeLocked h1 in (Some batch, h2))
               else (None, if hb_timer h1 = None then h1\<lparr>hb_timer := Some Armed\<rparr> else h1)))"

definition addDropped :: "nat \<Rightarrow> HTTPBatchSink \<Rightarrow> HTTPBatchSink" where
  "addDropped n h = h\<lparr>hb_dropped := hb_dropped h + of_nat n\<rparr>"

text \<open>
  \<open>Header.Set\<close> stores under the canonical form of the key: every byte after the first or a hyphen in
  lower case, the others in upper case; a key that is not a token is kept as it is.
\<close>

fun canon_bytes :: "bool \<Rightarrow> string \<Rightarrow> string" where
  "canon_bytes upper [] = []"
| "canon_bytes upper (c # cs) =
     (if upper then (if 97 \<le> byte c \<and> byte c \<le> 122 then char_of (byte c - 32) else c) else lower_byte c) # canon_bytes (c = CHR ''-'') cs"

definition token_byte :: "char \<Rightarrow> bool" where
  "token_byte c \<longleftrightarrow>
     48 \<le> byte c \<and> byte c \<le> 57 \<or> 65 \<le> byte c \<and> byte c \<le> 90 \<or> 97 \<le> byte c \<and> byte c \<le> 122 \<or>
     c \<in> set [CHR ''!'', CHR ''#'', CHR ''$'', CHR ''%'', CHR ''&'', CHR 0x27, CHR ''*'', CHR ''+'', CHR ''-'', CHR ''.'',
       CHR ''^'', CHR ''_'', CHR 0x60, CHR ''|'', CHR ''~'']"

definition header_Set :: "string \<Rightarrow> string \<Rightarrow> (string \<rightharpoonup> string) \<Rightarrow> (string \<rightharpoonup> string)" where
  "header_Set k v m = m((if list_all token_byte k then canon_bytes True k else k) \<mapsto> v)"

text \<open>
  \<open>send\<close>: the request it makes of a batch, and what it does with the answer. \<open>build\<close> is the field
  \<open>Build\<close>; the headers are in the order in which the map is traversed.
\<close>

record post_request =
  hq_URL :: string
  hq_body :: bytes
  hq_header :: "string \<rightharpoonup> string"

definition make_request :: "(Record list \<Rightarrow> bytes \<times> string) \<Rightarrow> HTTPBatchSink \<Rightarrow> Record list \<Rightarrow> post_request" where
  "make_request build h recs =
     (let (body, ct) = build recs
      in \<lparr>hq_URL = hb_URL h, hq_body = body,
          hq_header = fold (\<lambda>(k, v). header_Set k v) (hb_Headers h)
            (if ct \<noteq> [] then header_Set ''Content-Type'' ct Map.empty else Map.empty)\<rparr>)"

datatype http_answer = BadRequest goerr | DoError goerr | StatusCode int

definition send_done :: "Record list \<Rightarrow> http_answer \<Rightarrow> HTTPBatchSink \<Rightarrow> HTTPBatchSink" where
  "send_done recs ans h =
     (case ans of
        BadRequest e \<Rightarrow> addDropped (length recs) h
      | DoError e \<Rightarrow> addDropped (length recs) h
      | StatusCode c \<Rightarrow> if c \<ge> 300 then addDropped (length recs) h else h)"

fun answer_ok :: "http_answer \<Rightarrow> bool" where
  "answer_ok (StatusCode c) = (c < 300)"
| "answer_ok _ = False"

section \<open>The system\<close>

text \<open>
  \<open>hs_callbacks\<close> counts the fired timers whose \<open>flushTimer\<close> has not taken the lock yet, \<open>hs_sending\<close> the
  batches inside \<open>send\<close>. The rest are histories: the records accepted, the batches taken, in
  order, and those delivered and failed.
\<close>

record http_sys =
  hs_h :: HTTPBatchSink
  hs_callbacks :: nat
  hs_sending :: "Record list list"
  hs_accepted :: "Record list"
  hs_taken :: "Record list list"
  hs_delivered :: "Record list list"
  hs_failed :: "Record list list"

definition http_start :: "HTTPBatchSink \<Rightarrow> http_sys" where
  "http_start h = \<lparr>hs_h = h, hs_callbacks = 0, hs_sending = [], hs_accepted = [], hs_taken = [], hs_delivered = [], hs_failed = []\<rparr>"

definition start_send :: "Record list \<Rightarrow> http_sys \<Rightarrow> http_sys" where
  "start_send b s = s\<lparr>hs_sending := hs_sending s @ [b], hs_taken := hs_taken s @ [b]\<rparr>"

definition http_emit_step :: "Record \<Rightarrow> http_sys \<Rightarrow> http_sys" where
  "http_emit_step r s =
     (let (batch, h) = http_Emit r (hs_h s);
          acc = (\<not> rLevel r < hb_MinLvl (hs_h s) \<and> \<not> hb_closed (hs_h s));
          s1 = s\<lparr>hs_h := h, hs_accepted := (if acc then hs_accepted s @ [Clone r] else hs_accepted s)\<rparr>
      in case batch of None \<Rightarrow> s1 | Some b \<Rightarrow> start_send b s1)"

text \<open>What \<open>flushTimer\<close>, \<open>Sync\<close> and \<open>Close\<close> do.\<close>

definition flush_step :: "http_sys \<Rightarrow> http_sys" where
  "flush_step s =
     (let (batch, h) = takeLocked (hs_h s); s1 = s\<lparr>hs_h := h\<rparr>
      in if length batch > 0 then start_send batch s1 else s1)"

inductive http_step :: "http_sys \<Rightarrow> http_sys \<Rightarrow> bool" where
  hs_emit: "http_step s (http_emit_step r s)"
| hs_fire: "hb_timer (hs_h s) = Some Armed \<Longrightarrow>
     http_step s (s\<lparr>hs_h := (hs_h s)\<lparr>hb_timer := Some Fired\<rparr>, hs_callbacks := Suc (hs_callbacks s)\<rparr>)"
| hs_callback: "hs_callbacks s = Suc n \<Longrightarrow> http_step s (flush_step (s\<lparr>hs_callbacks := n\<rparr>))"
| hs_sync: "http_step s (flush_step s)"
| hs_close: "http_step s (flush_step (s\<lparr>hs_h := (hs_h s)\<lparr>hb_closed := True\<rparr>\<rparr>))"
| hs_sent: "hs_sending s = bs @ b # cs \<Longrightarrow>
     http_step s (s\<lparr>hs_h := send_done b ans (hs_h s), hs_sending := bs @ cs,
       hs_delivered := (if answer_ok ans then hs_delivered s @ [b] else hs_delivered s),
       hs_failed := (if answer_ok ans then hs_failed s else hs_failed s @ [b])\<rparr>)"

section \<open>Request bodies\<close>

text \<open>The buffer \<open>jsonLine\<close> takes from the pool is empty, by the invariant of the pool.\<close>

definition jsonLine :: "golib \<Rightarrow> Record \<Rightarrow> bytes" where
  "jsonLine lib r = JSON_Encode lib NewJSONEncoder r []"

text \<open>\<open>itoa64\<close>: \<open>-n\<close> wraps at 64 bits, so the least \<open>int64\<close> stays negative.\<close>

definition itoa64 :: "int \<Rightarrow> string" where
  "itoa64 n =
     (if n = 0 then ''0''
      else (let neg = n < 0;
                m = (if neg then (if n = - (2 ^ 63) then n else - n) else n);
                (i, d) = itoa_loop m 20 (replicate 20 (CHR 0x00));
                (i, d) = (if neg then (i - 1, d[i - 1 := CHR ''-'']) else (i, d))
            in drop i d))"

text \<open>The labels in the order in which the map is traversed.\<close>

fun loki_labels :: "(string \<times> string) list \<Rightarrow> bool \<Rightarrow> bytes" where
  "loki_labels [] first = []"
| "loki_labels ((k, v) # ls) first =
     (if \<not> first then '','' else []) @ [DQ] @ k @ [DQ] @ '':'' @ [DQ] @ v @ [DQ] @ loki_labels ls False"

definition loki_value :: "golib \<Rightarrow> Record \<Rightarrow> bytes" where
  "loki_value lib r =
     ''['' @ [DQ] @ itoa64 (sint (UnixNano (rTime r))) @ [DQ] @ '','' @ writeJSONString (trimNL (jsonLine lib r)) [] @ '']''"

definition loki_body :: "golib \<Rightarrow> (string \<times> string) list \<Rightarrow> Record list \<Rightarrow> bytes \<times> string" where
  "loki_body lib labels recs =
     (''{'' @ [DQ] @ ''streams'' @ [DQ] @ '':[{'' @ [DQ] @ ''stream'' @ [DQ] @ '':{'' @ loki_labels labels True
        @ ''},'' @ [DQ] @ ''values'' @ [DQ] @ '':['' @ join_with CHR '','' (map (loki_value lib) recs) @ '']}]}'',
      ''application/json'')"

definition datadog_body :: "golib \<Rightarrow> Record list \<Rightarrow> bytes \<times> string" where
  "datadog_body lib recs =
     (''['' @ join_with CHR '','' (map (\<lambda>r. trimNL (jsonLine lib r)) recs) @ '']'', ''application/json'')"

definition es_meta :: "string \<Rightarrow> bytes" where
  "es_meta index = ''{'' @ [DQ] @ ''index'' @ [DQ] @ '':{'' @ [DQ] @ ''_index'' @ [DQ] @ '':'' @ [DQ] @ index @ [DQ] @ ''}}'' @ [NL]"

definition es_body :: "golib \<Rightarrow> string \<Rightarrow> Record list \<Rightarrow> bytes \<times> string" where
  "es_body lib index recs =
     (concat (map (\<lambda>r. es_meta index @ trimNL (jsonLine lib r) @ [NL]) recs), ''application/x-ndjson'')"

definition NewLokiSink :: "golib \<Rightarrow> string \<Rightarrow> (string \<times> string) list \<Rightarrow> Level \<Rightarrow> HTTPBatchSink \<times> (Record list \<Rightarrow> bytes \<times> string)" where
  "NewLokiSink lib url labels minLevel = (NewHTTPBatchSink url minLevel, loki_body lib labels)"

definition NewDatadogSink :: "golib \<Rightarrow> string \<Rightarrow> string \<Rightarrow> Level \<Rightarrow> HTTPBatchSink \<times> (Record list \<Rightarrow> bytes \<times> string)" where
  "NewDatadogSink lib url apiKey minLevel = (WithHeader ''DD-API-KEY'' apiKey (NewHTTPBatchSink url minLevel), datadog_body lib)"

definition NewElasticsearchSink :: "golib \<Rightarrow> string \<Rightarrow> string \<Rightarrow> Level \<Rightarrow> HTTPBatchSink \<times> (Record list \<Rightarrow> bytes \<times> string)" where
  "NewElasticsearchSink lib url index minLevel = (NewHTTPBatchSink url minLevel, es_body lib index)"

section \<open>Batching\<close>

definition http_inv :: "http_sys \<Rightarrow> bool" where
  "http_inv s \<longleftrightarrow>
     hs_accepted s = concat (hs_taken s) @ hb_buf (hs_h s) \<and>
     mset (hs_taken s) = mset (hs_sending s) + mset (hs_delivered s) + mset (hs_failed s) \<and>
     hb_dropped (hs_h s) = of_nat (length (concat (hs_failed s))) \<and>
     (hb_buf (hs_h s) = [] \<or> int (length (hb_buf (hs_h s))) < hb_MaxBatch (hs_h s)) \<and>
     (\<forall>b \<in> set (hs_taken s). b \<noteq> [] \<and> int (length b) \<le> max 1 (hb_MaxBatch (hs_h s))) \<and>
     (hb_buf (hs_h s) \<noteq> [] \<longrightarrow> hb_timer (hs_h s) \<noteq> None \<and> \<not> hb_closed (hs_h s)) \<and>
     (hb_timer (hs_h s) = Some Fired \<longrightarrow> 0 < hs_callbacks s)"

lemma http_inv_flush:
  assumes "http_inv s" "s' = s\<lparr>hs_h := (hs_h s)\<lparr>hb_closed := c\<rparr>, hs_callbacks := n\<rparr>"
  shows "http_inv (flush_step s')"
  using assms by (auto simp: http_inv_def flush_step_def takeLocked_def start_send_def Let_def)

lemma http_emit_step_cases:
  obtains "http_emit_step r s = s"
  | h b where "h = hs_h s" "b = hb_buf h @ [Clone r]" "hb_closed h = False" "int (length b) \<ge> hb_MaxBatch h"
      "http_emit_step r s = s\<lparr>hs_h := h\<lparr>hb_buf := [], hb_timer := None\<rparr>, hs_sending := hs_sending s @ [b],
         hs_accepted := hs_accepted s @ [Clone r], hs_taken := hs_taken s @ [b]\<rparr>"
  | h b t where "h = hs_h s" "b = hb_buf h @ [Clone r]" "hb_closed h = False" "int (length b) < hb_MaxBatch h"
      "hb_timer h = t \<or> hb_timer h = None \<and> t = Some Armed" "t \<noteq> None"
      "http_emit_step r s = s\<lparr>hs_h := h\<lparr>hb_buf := b, hb_timer := t\<rparr>, hs_accepted := hs_accepted s @ [Clone r]\<rparr>"
proof -
  let ?h = "hs_h s" and ?b = "hb_buf (hs_h s) @ [Clone r]"
  note defs = http_emit_step_def http_Emit_def takeLocked_def start_send_def Let_def
  show thesis
  proof (cases "rLevel r < hb_MinLvl ?h \<or> hb_closed ?h")
    case True
    then have "http_emit_step r s = s" by (auto simp: defs)
    then show thesis by (rule that(1))
  next
    case open_sink: False
    show thesis
    proof (cases "int (length ?b) \<ge> hb_MaxBatch ?h")
      case True
      then show thesis using open_sink by (intro that(2) [of ?h ?b]) (simp_all add: defs)
    next
      case False
      then show thesis
        using open_sink by (intro that(3) [of ?h ?b "if hb_timer ?h = None then Some Armed else hb_timer ?h"]) (simp_all add: defs)
    qed
  qed
qed

lemma http_inv_emit:
  assumes "http_inv s"
  shows "http_inv (http_emit_step r s)"
proof (cases rule: http_emit_step_cases [of r s])
  case (2 h b)
  let ?s = "s\<lparr>hs_h := h\<lparr>hb_buf := [], hb_timer := None\<rparr>, hs_sending := hs_sending s @ [b],
      hs_accepted := hs_accepted s @ [Clone r], hs_taken := hs_taken s @ [b]\<rparr>"
  have "http_inv ?s"
    unfolding http_inv_def
  proof (intro conjI)
    have I: "hb_buf h = [] \<or> int (length (hb_buf h)) < hb_MaxBatch h"
      and J: "\<forall>b \<in> set (hs_taken s). b \<noteq> [] \<and> int (length b) \<le> max 1 (hb_MaxBatch h)"
      using assms by (simp_all add: http_inv_def 2(1))
    then have "int (length b) \<le> max 1 (hb_MaxBatch h)" by (auto simp: 2(2))
    with J show "\<forall>c \<in> set (hs_taken ?s). c \<noteq> [] \<and> int (length c) \<le> max 1 (hb_MaxBatch (hs_h ?s))"
      by (simp add: 2(2))
  qed (use assms 2(1) in \<open>simp_all add: http_inv_def 2(2)\<close>)
  then show ?thesis unfolding 2(5) .
next
  case (3 h b t)
  have "http_inv (s\<lparr>hs_h := h\<lparr>hb_buf := b, hb_timer := t\<rparr>, hs_accepted := hs_accepted s @ [Clone r]\<rparr>)"
    using assms 3(1-6) unfolding http_inv_def by (auto simp del: of_nat_Suc)
  then show ?thesis unfolding 3(7) .
qed (simp add: assms)

lemma http_inv_step:
  assumes "http_step s s'" "http_inv s"
  shows "http_inv s'"
  using assms
proof (induction rule: http_step.induct)
  case (hs_sent s bs b cs ans)
  then show ?case by (cases ans) (auto simp: http_inv_def send_done_def addDropped_def)
next
  case (hs_callback s n)
  show ?case by (rule http_inv_flush [where s = s and c = "hb_closed (hs_h s)" and n = n]) (simp_all add: hs_callback)
next
  case (hs_sync s)
  show ?case by (rule http_inv_flush [where s = s and c = "hb_closed (hs_h s)" and n = "hs_callbacks s"]) (simp_all add: hs_sync)
next
  case (hs_close s)
  show ?case by (rule http_inv_flush [where s = s and c = True and n = "hs_callbacks s"]) (simp_all add: hs_close)
next
  case (hs_fire s)
  then show ?case by (auto simp: http_inv_def)
qed (rule http_inv_emit)


lemma http_inv_start:
  assumes "hb_buf h = []" "hb_timer h = None" "hb_dropped h = 0"
  shows "http_inv (http_start h)"
  using assms by (simp add: http_inv_def http_start_def)

interpretation http_system: invariant_system
    "\<lambda>s. \<exists>h. s = http_start h \<and> hb_buf h = [] \<and> hb_timer h = None \<and> hb_dropped h = 0" http_step http_inv
  by unfold_locales (auto intro: http_inv_start http_inv_step)

text \<open>
  C21: the HTTP batch sink loses nothing silently. In every reachable state, whatever the
  interleaving of emitters, timers, \<open>Sync\<close>, \<open>Close\<close> and completing requests: the records accepted are,
  in order, those of the batches taken followed by the buffer; every batch taken is being sent,
  delivered or failed, exactly once; \<open>Dropped\<close> counts the records of the failed batches; and no
  batch is empty or exceeds \<open>MaxBatch\<close>.
\<close>

theorem http_accounting:
  assumes "http_step\<^sup>*\<^sup>* (http_start h) s" "hb_buf h = []" "hb_timer h = None" "hb_dropped h = 0"
  shows "hs_accepted s = concat (hs_taken s) @ hb_buf (hs_h s)
    \<and> mset (hs_taken s) = mset (hs_sending s) + mset (hs_delivered s) + mset (hs_failed s)
    \<and> hb_dropped (hs_h s) = of_nat (length (concat (hs_failed s)))
    \<and> list_all (\<lambda>b. b \<noteq> [] \<and> int (length b) \<le> max 1 (hb_MaxBatch (hs_h s))) (hs_taken s)"
  using http_system.steps_inv [OF assms(1) http_inv_start [OF assms(2-4)]] by (simp add: http_inv_def list_all_iff)

definition batch_of_two :: HTTPBatchSink where
  "batch_of_two = (NewHTTPBatchSink ''http://logs'' 0)\<lparr>hb_MaxBatch := 2\<rparr>"

definition two_emitted :: http_sys where
  "two_emitted = http_emit_step zeroRecord (http_emit_step zeroRecord (http_start batch_of_two))"

definition two_failed :: http_sys where
  "two_failed = two_emitted\<lparr>hs_h := send_done (hs_sending two_emitted ! 0) (StatusCode 503) (hs_h two_emitted),
     hs_sending := [], hs_delivered := [], hs_failed := [hs_sending two_emitted ! 0]\<rparr>"

lemma two_emitted_eval:
  "hs_sending two_emitted = [[zeroRecord, zeroRecord]]" "hs_delivered two_emitted = []" "hs_failed two_emitted = []"
  "hb_dropped (hs_h two_emitted) = 0"
  by (simp_all add: two_emitted_def http_emit_step_def http_Emit_def http_start_def takeLocked_def start_send_def
      batch_of_two_def NewHTTPBatchSink_def zeroRecord_def Let_def)

lemma two_failed_reach: "http_step\<^sup>*\<^sup>* (http_start batch_of_two) two_failed"
proof -
  have "http_step two_emitted (two_emitted\<lparr>hs_h := send_done [zeroRecord, zeroRecord] (StatusCode 503) (hs_h two_emitted), hs_sending := [] @ [],
       hs_delivered := (if answer_ok (StatusCode 503) then hs_delivered two_emitted @ [[zeroRecord, zeroRecord]] else hs_delivered two_emitted),
       hs_failed := (if answer_ok (StatusCode 503) then hs_failed two_emitted else hs_failed two_emitted @ [[zeroRecord, zeroRecord]])\<rparr>)"
    by (rule http_step.hs_sent) (simp add: two_emitted_eval)
  then have "http_step two_emitted two_failed"
    using two_emitted_eval(2) by (simp add: two_failed_def two_emitted_eval)
  moreover have "http_step\<^sup>*\<^sup>* (http_start batch_of_two) two_emitted"
    unfolding two_emitted_def by (rule rtranclp.rtrancl_into_rtrancl [OF r_into_rtranclp]) (rule http_step.hs_emit)+
  ultimately show ?thesis by simp
qed

theorem http_accounting_witness:
  "hs_accepted two_failed = concat (hs_taken two_failed) @ hb_buf (hs_h two_failed) \<and> hb_dropped (hs_h two_failed) = 2"
  using http_accounting [OF two_failed_reach]
  by (simp add: batch_of_two_def NewHTTPBatchSink_def) (simp add: two_failed_def two_emitted_eval)


section \<open>No record is left behind\<close>

lemma flush_step_takes:
  "concat (hs_taken (flush_step s)) = concat (hs_taken s) @ hb_buf (hs_h s)"
  "hs_accepted (flush_step s) = hs_accepted s" "hb_buf (hs_h (flush_step s)) = []"
  by (simp_all add: flush_step_def takeLocked_def start_send_def Let_def)

text \<open>The steps that need no further call: the timer fires, its callback runs.\<close>

definition sink_step :: "http_sys \<Rightarrow> http_sys \<Rightarrow> bool" where
  "sink_step s s' \<longleftrightarrow>
     hb_timer (hs_h s) = Some Armed \<and>
       s' = s\<lparr>hs_h := (hs_h s)\<lparr>hb_timer := Some Fired\<rparr>, hs_callbacks := Suc (hs_callbacks s)\<rparr> \<or>
     0 < hs_callbacks s \<and> s' = flush_step (s\<lparr>hs_callbacks := hs_callbacks s - 1\<rparr>)"

lemma sink_step_http: "sink_step s s' \<Longrightarrow> http_step s s'"
  unfolding sink_step_def
  by (metis Suc_diff_1 http_step.hs_callback http_step.hs_fire)

text \<open>
  C22: no record waits forever. From every reachable state the steps of the sink alone (the timer
  fires, its callback runs), without another \<open>Emit\<close>, \<open>Sync\<close> or \<open>Close\<close>, hand every accepted record to
  \<open>send\<close>; and once \<open>Close\<close> has run the buffer is empty and \<open>Emit\<close> has no effect.
\<close>

theorem http_no_stuck:
  assumes "http_step\<^sup>*\<^sup>* (http_start h) s" "hb_buf h = []" "hb_timer h = None" "hb_dropped h = 0"
  shows "(\<exists>s'. sink_step\<^sup>*\<^sup>* s s' \<and> hs_accepted s' = hs_accepted s \<and> concat (hs_taken s') = hs_accepted s)
    \<and> (hb_closed (hs_h s) \<longrightarrow> hb_buf (hs_h s) = [] \<and> (\<forall>r. http_emit_step r s = s))"
proof (intro conjI impI)
  have inv: "http_inv s" by (rule http_system.steps_inv [OF assms(1) http_inv_start [OF assms(2-4)]])
  have acc: "hs_accepted s = concat (hs_taken s) @ hb_buf (hs_h s)" using inv by (simp add: http_inv_def)
  have callback: "sink_step u (flush_step (u\<lparr>hs_callbacks := hs_callbacks u - 1\<rparr>))" if "0 < hs_callbacks u" for u
    using that by (simp add: sink_step_def)
  consider "hb_buf (hs_h s) = []" | "0 < hs_callbacks s" | "hb_timer (hs_h s) = Some Armed"
    using inv by (auto simp: http_inv_def) (metis timer.exhaust)
  then show "\<exists>s'. sink_step\<^sup>*\<^sup>* s s' \<and> hs_accepted s' = hs_accepted s \<and> concat (hs_taken s') = hs_accepted s"
  proof cases
    case 1
    then show ?thesis using acc by (intro exI [of _ s]) simp
  next
    case 2
    show ?thesis using acc callback [OF 2]
      by (intro exI [of _ "flush_step (s\<lparr>hs_callbacks := hs_callbacks s - 1\<rparr>)"]) (simp add: flush_step_takes)
  next
    case 3
    let ?u = "s\<lparr>hs_h := (hs_h s)\<lparr>hb_timer := Some Fired\<rparr>, hs_callbacks := Suc (hs_callbacks s)\<rparr>"
    have "sink_step s ?u" using 3 by (simp add: sink_step_def)
    moreover have "sink_step ?u (flush_step (?u\<lparr>hs_callbacks := hs_callbacks ?u - 1\<rparr>))" by (rule callback) simp
    ultimately have "sink_step\<^sup>*\<^sup>* s (flush_step (?u\<lparr>hs_callbacks := hs_callbacks ?u - 1\<rparr>))" by simp
    then show ?thesis using acc by (intro exI conjI) (assumption, simp_all add: flush_step_takes)
  qed
  show "hb_buf (hs_h s) = []" if "hb_closed (hs_h s)" using that inv by (auto simp: http_inv_def)
  show "\<forall>r. http_emit_step r s = s" if "hb_closed (hs_h s)"
    using that by (simp add: http_emit_step_def http_Emit_def)
qed

theorem http_no_stuck_witness:
  "\<exists>s'. sink_step\<^sup>*\<^sup>* (http_emit_step zeroRecord (http_start batch_of_two)) s' \<and> concat (hs_taken s') = [zeroRecord]"
proof -
  have "http_step\<^sup>*\<^sup>* (http_start batch_of_two) (http_emit_step zeroRecord (http_start batch_of_two))"
    by (rule r_into_rtranclp) (rule http_step.hs_emit)
  moreover have "hs_accepted (http_emit_step zeroRecord (http_start batch_of_two)) = [zeroRecord]"
    by (simp add: http_emit_step_def http_Emit_def http_start_def batch_of_two_def NewHTTPBatchSink_def zeroRecord_def Let_def)
  moreover have "hb_buf batch_of_two = []" "hb_timer batch_of_two = None" "hb_dropped batch_of_two = 0"
    by (simp_all add: batch_of_two_def NewHTTPBatchSink_def)
  ultimately show ?thesis using http_no_stuck [of batch_of_two "http_emit_step zeroRecord (http_start batch_of_two)"] by auto
qed

section \<open>The bodies\<close>

lemma itoa64_pos:
  assumes "0 < n" "n < 2 ^ 63"
  shows "itoa_loop n 20 (replicate 20 (CHR 0x00)) = (20 - length (dec (nat n)), replicate (20 - length (dec (nat n))) (CHR 0x00) @ dec (nat n))"
    and "length (dec (nat n)) \<le> 19"
proof -
  have "nat n < 10 ^ 19" using assms by (simp add: nat_less_iff)
  then show "length (dec (nat n)) \<le> 19" using length_dec_bound [of "nat n" 19] by simp
  then show "itoa_loop n 20 (replicate 20 (CHR 0x00)) = (20 - length (dec (nat n)), replicate (20 - length (dec (nat n))) (CHR 0x00) @ dec (nat n))"
    using assms(1) itoa_loop_dec [of n 20 "replicate 20 (CHR 0x00)"] by simp
qed

text \<open>
  \<open>itoa64\<close> prints every nanosecond timestamp but one as its decimal numeral, without writing
  outside its 20-byte array; the least \<open>int64\<close>, whose negation wraps to itself, prints as a bare
  minus sign.
\<close>

lemma itoa64_exact:
  assumes "- (2 ^ 63) \<le> n" "n < 2 ^ 63"
  shows "itoa64 n = (if n = - (2 ^ 63) then ''-'' else dec_int n)"
proof -
  consider "n = 0" | "0 < n" | "n = - (2 ^ 63)" | "n < 0" "- (2 ^ 63) < n" using assms by linarith
  then show ?thesis
  proof cases
    case 1
    then show ?thesis by (simp add: itoa64_def dec_int_def dec.simps digit_chars)
  next
    case 2
    then show ?thesis using itoa64_pos [of n] assms by (simp add: itoa64_def dec_int_def)
  next
    case 3
    then show ?thesis by (simp add: itoa64_def itoa_loop.simps drop_update_swap numeral_eq_Suc)
  next
    case 4
    let ?d = "dec (nat (- n))"
    have P: "0 < - n" "- n < 2 ^ 63" using 4 by linarith+
    note L = itoa64_pos [OF P]
    have "drop (19 - length ?d) ((replicate (20 - length ?d) (CHR 0x00) @ ?d)[19 - length ?d := CHR ''-'']) = CHR ''-'' # ?d"
      using L(2) by (simp add: list_update_append drop_update_swap)
    then show ?thesis using 4 L by (simp add: itoa64_def dec_int_def)
  qed
qed

theorem itoa64_exact_witness: "itoa64 (- 1) = ''-1'' \<and> itoa64 (- (2 ^ 63)) = ''-''"
  using itoa64_exact [of "- 1"] itoa64_exact [of "- (2 ^ 63)"] by (simp add: dec_int_def dec.simps digit_chars(2) [simplified])


lemma jsonPlain_itoa64: "list_all jsonPlain (itoa64 (sint (w :: u64)))"
proof -
  have "- (2 ^ 63) \<le> sint w" "sint w < 2 ^ 63" using sint_ge [of w] sint_lt [of w] by simp_all
  from itoa64_exact [OF this] show ?thesis using jsonPlain_dec_int [of "sint w"] by (simp add: jsonPlain_def [of "CHR ''-''"])
qed

text \<open>The line of a record, without its newline, is the JSON object itself.\<close>

lemma trimNL_last: "s \<noteq> [] \<Longrightarrow> last s \<noteq> NL \<Longrightarrow> trimNL s = s"
  by (cases s rule: rev_cases) (auto simp: trimNL_def)

lemma jsonLine_object: "trimNL (jsonLine lib r) = json_object (json_line_members lib NewJSONEncoder r)"
  unfolding jsonLine_def JSON_Encode_object by (simp, subst trimNL_last) (simp_all add: json_object_def)

lemma jsonLine_value:
  assumes "json_lib lib" "\<And>f. f \<in> set (rFields r) \<Longrightarrow> finite_floats f"
  shows "json_value (trimNL (jsonLine lib r))"
  unfolding jsonLine_object using json_line_values [OF assms]
  by (intro json_value_object) (auto simp: json_line_members_def)

lemma json_elems_join:
  assumes "vs \<noteq> []" "\<And>v. v \<in> set vs \<Longrightarrow> json_value v"
  shows "json_elems (join_with CHR '','' vs)"
  using assms
proof (induction vs rule: list_nonempty_induct)
  case (cons v vs)
  then show ?case using je_cons [of v "join_with CHR '','' vs"] by (cases vs) auto
qed (simp add: je_one)

lemma json_value_array:
  assumes "\<And>v. v \<in> set vs \<Longrightarrow> json_value v"
  shows "json_value (''['' @ join_with CHR '','' vs @ '']'')"
proof (cases "vs = []")
  case False
  then show ?thesis using jv_array [OF json_elems_join [OF False assms]] by simp
qed (use jv_array0 in simp)

definition plain_recs :: "Record list" where
  "plain_recs = [zeroRecord\<lparr>rMessage := ''a''\<rparr>, zeroRecord]"

lemma plain_recs_finite: "r \<in> set plain_recs \<Longrightarrow> f \<in> set (rFields r) \<Longrightarrow> finite_floats f"
  by (auto simp: plain_recs_def zeroRecord_def)

lemma canon_key:
  "list_all token_byte ''DD-API-KEY''" "canon_bytes True ''DD-API-KEY'' = ''Dd-Api-Key''"
  "list_all token_byte ''Content-Type''" "canon_bytes True ''Content-Type'' = ''Content-Type''"
  by code_simp+

text \<open>
  The Datadog body of a batch is a valid JSON array whose elements are the JSON objects of the
  records, in order; its content type and key header are set.
\<close>

lemma datadog_request:
  assumes "json_lib lib" "\<And>r f. r \<in> set recs \<Longrightarrow> f \<in> set (rFields r) \<Longrightarrow> finite_floats f"
    and "NewDatadogSink lib url key lvl = (h, build)"
  shows "\<exists>rq. make_request build h recs = rq \<and> json_value (hq_body rq)
    \<and> hq_body rq = ''['' @ join_with CHR '','' (map (\<lambda>r. json_object (json_line_members lib NewJSONEncoder r)) recs) @ '']''
    \<and> hq_URL rq = url \<and> hq_header rq = [''Content-Type'' \<mapsto> ''application/json'', ''Dd-Api-Key'' \<mapsto> key]"
proof -
  have hb: "h = WithHeader ''DD-API-KEY'' key (NewHTTPBatchSink url lvl)" "build = datadog_body lib"
    using assms(3) by (simp_all add: NewDatadogSink_def)
  have canon: "header_Set ''DD-API-KEY'' v m = m(''Dd-Api-Key'' \<mapsto> v)"
    "header_Set ''Content-Type'' v m = m(''Content-Type'' \<mapsto> v)" for v and m :: "string \<rightharpoonup> string"
    by (simp_all only: header_Set_def canon_key if_True)
  have "json_value (''['' @ join_with CHR '','' (map (\<lambda>r. trimNL (jsonLine lib r)) recs) @ '']'')"
    using assms(1,2) by (intro json_value_array) (auto intro: jsonLine_value)
  then show ?thesis
    unfolding hb by (simp add: make_request_def datadog_body_def WithHeader_def NewHTTPBatchSink_def canon jsonLine_object)
qed

theorem datadog_request_witness:
  "json_value (hq_body (make_request (datadog_body sample_lib) (WithHeader ''DD-API-KEY'' ''k'' (NewHTTPBatchSink ''u'' 0)) plain_recs))"
  using datadog_request [OF json_lib_sample _ NewDatadogSink_def, of plain_recs "''k''" "''u''" 0] plain_recs_finite by auto

text \<open>The Loki body is a JSON object when the labels need no escaping.\<close>

lemma json_string_plain: "list_all jsonPlain s \<Longrightarrow> json_string (DQ # s @ [DQ])"
  by (auto simp: json_string_def json_chars_plain)

lemma loki_labels_Cons:
  "loki_labels ((k, v) # ls) first = (if first then [] else '','') @ (DQ # k @ [DQ]) @ CHR '':'' # (DQ # v @ [DQ]) @ loki_labels ls False"
  by simp

lemma loki_labels_members:
  assumes "list_all (\<lambda>(k, v). list_all jsonPlain k \<and> list_all jsonPlain v) ls" "ls \<noteq> []"
  shows "json_members (loki_labels ls True) \<and> loki_labels ls False = CHR '','' # loki_labels ls True"
  using assms
proof (induction ls)
  case (Cons kv ls)
  obtain k v where kv: "kv = (k, v)" by fastforce
  have K: "json_string (DQ # k @ [DQ])" and V: "json_value (DQ # v @ [DQ])"
    using Cons.prems(1) kv by (auto intro: json_string_plain json_value_quoted)
  show ?case
  proof (cases "ls = []")
    case True
    then show ?thesis using jm_one [OF K V] by (simp add: kv)
  next
    case False
    then have "json_members (loki_labels ls True)" "loki_labels ls False = CHR '','' # loki_labels ls True"
      using Cons by auto
    then show ?thesis using jm_cons [OF K V, of "loki_labels ls True"] unfolding kv loki_labels_Cons by simp
  qed
qed simp

lemma json_string_lits: "json_string (DQ # ''streams'' @ [DQ])" "json_string (DQ # ''stream'' @ [DQ])" "json_string (DQ # ''values'' @ [DQ])"
  by (rule json_string_plain, simp add: jsonPlain_def)+

lemma loki_value_valid:
  assumes "json_lib lib" "\<And>f. f \<in> set (rFields r) \<Longrightarrow> finite_floats f"
  shows "json_value (loki_value lib r)"
proof -
  have "json_value (''['' @ join_with CHR '',''
      [DQ # itoa64 (sint (UnixNano (rTime r))) @ [DQ], json_encode_string (trimNL (jsonLine lib r))] @ '']'')"
    by (rule json_value_array) (auto simp: json_value_encode json_value_quoted jsonPlain_itoa64)
  then show ?thesis by (simp add: loki_value_def writeJSONString_eq)
qed

lemma loki_stream_valid:
  assumes "list_all (\<lambda>(k, v). list_all jsonPlain k \<and> list_all jsonPlain v) ls"
  shows "json_value (CHR ''{'' # loki_labels ls True @ ''}'')"
  using loki_labels_members [OF assms] jv_object [of "loki_labels ls True"] jv_object0 by (cases "ls = []") auto

text \<open>
  The Loki body is valid JSON for any records when the labels hold no quote, backslash or
  control byte, and each line is the JSON string of the record's object; but the labels are not
  escaped: a label value can close its string and add a label of its own.
\<close>

lemma loki_request:
  assumes "json_lib lib" "\<And>r f. r \<in> set recs \<Longrightarrow> f \<in> set (rFields r) \<Longrightarrow> finite_floats f"
    and "list_all (\<lambda>(k, v). list_all jsonPlain k \<and> list_all jsonPlain v) labels"
  shows "json_value (fst (loki_body lib labels recs))
    \<and> (\<forall>r. loki_value lib r = ''['' @ [DQ] @ itoa64 (sint (UnixNano (rTime r))) @ [DQ] @ '','' @
          json_encode_string (json_object (json_line_members lib NewJSONEncoder r)) @ '']'')
    \<and> (\<forall>k v x y. loki_body lib ((k, v @ [DQ] @ '','' @ [DQ] @ x @ [DQ] @ '':'' @ [DQ] @ y) # labels) recs
          = loki_body lib ((k, v) # (x, y) # labels) recs)"
proof (intro conjI allI)
  let ?st = "CHR ''{'' # loki_labels labels True @ ''}''"
  let ?vs = "''['' @ join_with CHR '','' (map (loki_value lib) recs) @ '']''"
  have "json_value ?vs" using assms(1,2) by (intro json_value_array) (auto intro: loki_value_valid)
  then have "json_members ((DQ # ''stream'' @ [DQ]) @ CHR '':'' # ?st @ CHR '','' # ((DQ # ''values'' @ [DQ]) @ CHR '':'' # ?vs))"
    by (intro jm_cons jm_one json_string_lits loki_stream_valid [OF assms(3)])
  from jv_array [OF je_one [OF jv_object [OF this]]]
  have "json_members ((DQ # ''streams'' @ [DQ]) @ CHR '':'' # CHR ''['' # (CHR ''{'' # ((DQ # ''stream'' @ [DQ]) @ CHR '':'' # ?st
      @ CHR '','' # ((DQ # ''values'' @ [DQ]) @ CHR '':'' # ?vs)) @ ''}'') @ '']'')"
    by (intro jm_one json_string_lits)
  from jv_object [OF this] show "json_value (fst (loki_body lib labels recs))" by (simp add: loki_body_def)
qed (simp_all add: loki_value_def writeJSONString_eq jsonLine_object loki_body_def)

theorem loki_request_witness:
  "json_value (fst (loki_body sample_lib [(''app'', ''web'')] plain_recs))"
  using loki_request [OF json_lib_sample, of plain_recs "[(''app'', ''web'')]"] plain_recs_finite by (simp add: jsonPlain_def)

text \<open>
  The Elasticsearch bulk body alternates, line by line, the action of the index and the record's
  JSON object, provided the index name holds no newline; so the records of a batch cannot shift
  the pairing of actions and sources.
\<close>

lemma es_lines:
  assumes "line_lib lib" "NL \<notin> set index"
  shows "split_on NL (fst (es_body lib index recs))
    = concat (map (\<lambda>r. [trimNL (es_meta index), json_object (json_line_members lib NewJSONEncoder r)]) recs) @ [[]]"
proof (induction recs)
  case (Cons r recs)
  let ?m = "trimNL (es_meta index)" and ?j = "json_object (json_line_members lib NewJSONEncoder r)"
  have m: "es_meta index = ?m @ [NL]" "NL \<notin> set ?m"
    using assms(2) trimNL_id [of "butlast (es_meta index)"] by (auto simp: es_meta_def trimNL_def)
  have "fst (es_body lib index (r # recs)) = ?m @ NL # ?j @ NL # fst (es_body lib index recs)"
    using m(1) by (simp add: es_body_def jsonLine_object)
  then show ?case using Cons m(2) NL_json_line [OF assms(1)] by (simp add: split_on_prefix)
qed (simp add: es_body_def)

theorem es_lines_witness:
  "length (split_on NL (fst (es_body sample_lib ''logs'' [zeroRecord, zeroRecord]))) = 5"
  using es_lines [OF line_lib_sample, of "''logs''" "[zeroRecord, zeroRecord]"] by simp

end
