(* ===== verification/Net_Sinks.thy ===== *)
theory Net_Sinks
  imports Sinks
begin

text \<open>
  \<open>sink_net.go\<close> and \<open>sink_syslog_unix.go\<close>: the sinks over a connection. The network and the syslog
  daemon are external: what a dial, a write and a close do to the world are parameters. The
  theorems: the error a caller sees, the dropped counter and what was written agree on every
  path; one re-dial is enough once the endpoint is back; the syslog severity is the band of the
  level.
\<close>

section \<open>The network sink\<close>

text \<open>
  The external code: \<open>Dial\<close> by network, address and optional TLS configuration, \<open>Write\<close> and \<open>Close\<close> of a
  connection, the choices of the buffer pool and of slice growth.
\<close>

record 'w net_env =
  nv_Dial :: "string \<Rightarrow> string \<Rightarrow> nat option \<Rightarrow> 'w \<Rightarrow> (goerr + nat) \<times> 'w"
  nv_Write :: "nat \<Rightarrow> bytes \<Rightarrow> 'w \<Rightarrow> goerr option \<times> 'w"
  nv_Close :: "nat \<Rightarrow> 'w \<Rightarrow> goerr option \<times> 'w"
  nv_pick :: "(bytes \<times> nat) list \<Rightarrow> nat option"
  nv_cap :: "bytes \<Rightarrow> nat \<Rightarrow> nat"

record NetSink =
  ns_network :: string
  ns_addr :: string
  ns_enc :: Encoder
  ns_minLvl :: Level
  ns_tlsCfg :: "nat option"
  ns_conn :: "nat option"
  ns_dropped :: u64

definition NewTCPSink :: "string \<Rightarrow> Encoder \<Rightarrow> Level \<Rightarrow> NetSink" where
  "NewTCPSink addr enc minLevel =
     \<lparr>ns_network = ''tcp'', ns_addr = addr, ns_enc = enc, ns_minLvl = minLevel, ns_tlsCfg = None, ns_conn = None, ns_dropped = 0\<rparr>"

definition NewUDPSink :: "string \<Rightarrow> Encoder \<Rightarrow> Level \<Rightarrow> NetSink" where
  "NewUDPSink addr enc minLevel =
     \<lparr>ns_network = ''udp'', ns_addr = addr, ns_enc = enc, ns_minLvl = minLevel, ns_tlsCfg = None, ns_conn = None, ns_dropped = 0\<rparr>"

definition NewTLSSink :: "string \<Rightarrow> nat option \<Rightarrow> Encoder \<Rightarrow> Level \<Rightarrow> NetSink" where
  "NewTLSSink addr cfg enc minLevel =
     \<lparr>ns_network = ''tcp'', ns_addr = addr, ns_enc = enc, ns_minLvl = minLevel, ns_tlsCfg = cfg, ns_conn = None, ns_dropped = 0\<rparr>"

definition dialLocked :: "'w net_env \<Rightarrow> NetSink \<Rightarrow> 'w \<Rightarrow> goerr option \<times> NetSink \<times> 'w" where
  "dialLocked nv s w =
     (case nv_Dial nv (ns_network s) (ns_addr s) (ns_tlsCfg s) w of
        (Inl err, w1) \<Rightarrow> (Some err, s, w1)
      | (Inr c, w1) \<Rightarrow> (None, s\<lparr>ns_conn := Some c\<rparr>, w1))"

definition drop_one :: "NetSink \<Rightarrow> NetSink" where
  "drop_one s = s\<lparr>ns_dropped := ns_dropped s + 1\<rparr>"

text \<open>
  The body of \<open>Emit\<close> under the lock, in two parts: the first write (with the re-dial its failure
  causes), preceded by the lazy dial.
\<close>

definition write_redial :: "'w net_env \<Rightarrow> bytes \<Rightarrow> NetSink \<Rightarrow> 'w \<Rightarrow> goerr option \<times> NetSink \<times> 'w" where
  "write_redial nv b s w =
     (let c = the (ns_conn s); (err, w1) = nv_Write nv c b w
      in if err = None then (None, s, w1)
         else (let (_, w2) = nv_Close nv c w1;
                   (err2, s2, w3) = dialLocked nv (s\<lparr>ns_conn := None\<rparr>) w2
               in if err2 \<noteq> None then (err2, drop_one s2, w3)
                  else (let (err3, w4) = nv_Write nv (the (ns_conn s2)) b w3
                        in if err3 \<noteq> None then (err3, drop_one s2, w4) else (None, s2, w4))))"

definition emit_locked :: "'w net_env \<Rightarrow> bytes \<Rightarrow> NetSink \<Rightarrow> 'w \<Rightarrow> goerr option \<times> NetSink \<times> 'w" where
  "emit_locked nv b s w =
     (if ns_conn s = None
      then (let (err, s1, w1) = dialLocked nv s w
            in if err \<noteq> None then (err, drop_one s1, w1) else write_redial nv b s1 w1)
      else write_redial nv b s w)"

record 'w net_sys =
  nt_s :: NetSink
  nt_bufs :: "(bytes \<times> nat) list"
  nt_w :: 'w

definition net_Emit :: "golib \<Rightarrow> 'w net_env \<Rightarrow> Record \<Rightarrow> 'w net_sys \<Rightarrow> goerr option \<times> 'w net_sys" where
  "net_Emit lib nv r h =
     (if rLevel r < ns_minLvl (nt_s h) then (None, h)
      else (let ((b0, c0), pool) = getBuffer (nv_pick nv (nt_bufs h)) (nt_bufs h);
                buf = Encode lib (ns_enc (nt_s h)) r b0;
                (err, s, w) = emit_locked nv buf (nt_s h) (nt_w h)
            in (err, \<lparr>nt_s = s, nt_bufs = putBuffer (buf, nv_cap nv buf c0) pool, nt_w = w\<rparr>)))"

definition net_Close :: "'w net_env \<Rightarrow> 'w net_sys \<Rightarrow> goerr option \<times> 'w net_sys" where
  "net_Close nv h =
     (case ns_conn (nt_s h) of
        Some c \<Rightarrow> (let (err, w) = nv_Close nv c (nt_w h)
                   in (err, h\<lparr>nt_s := (nt_s h)\<lparr>ns_conn := None\<rparr>, nt_w := w\<rparr>))
      | None \<Rightarrow> (None, h))"

section \<open>What an \<open>Emit\<close> does\<close>

lemma dialLocked_cases:
  obtains e w1 where "nv_Dial nv (ns_network s) (ns_addr s) (ns_tlsCfg s) w = (Inl e, w1)" "dialLocked nv s w = (Some e, s, w1)"
  | c w1 where "nv_Dial nv (ns_network s) (ns_addr s) (ns_tlsCfg s) w = (Inr c, w1)"
      "dialLocked nv s w = (None, s\<lparr>ns_conn := Some c\<rparr>, w1)"
proof (cases "nv_Dial nv (ns_network s) (ns_addr s) (ns_tlsCfg s) w")
  case (Pair res w1)
  then show thesis by (cases res) (auto simp: dialLocked_def intro: that)
qed

text \<open>
  The outcome of the locked section: the configuration is kept, the counter grows by one exactly
  on an error, and without an error the last call to the world was a complete write on the
  connection the sink keeps.
\<close>

definition sent_ok :: "'w net_env \<Rightarrow> bytes \<Rightarrow> NetSink \<Rightarrow> goerr option \<times> NetSink \<times> 'w \<Rightarrow> bool" where
  "sent_ok nv b s out =
     (case out of (err, s', w') \<Rightarrow>
        ns_dropped s' = ns_dropped s + (if err = None then 0 else 1) \<and>
        (ns_network s', ns_addr s', ns_enc s', ns_minLvl s', ns_tlsCfg s')
          = (ns_network s, ns_addr s, ns_enc s, ns_minLvl s, ns_tlsCfg s) \<and>
        (err = None \<longrightarrow> (\<exists>c w0. ns_conn s' = Some c \<and> nv_Write nv c b w0 = (None, w'))))"

lemma write_redial_ok:
  assumes "ns_conn s = Some c"
  shows "sent_ok nv b s (write_redial nv b s w)"
proof -
  obtain err w1 where W: "nv_Write nv c b w = (err, w1)" by fastforce
  obtain e2 w2 where C: "nv_Close nv c w1 = (e2, w2)" by fastforce
  show ?thesis
  proof (cases err)
    case None
    then show ?thesis using W assms by (auto simp: write_redial_def sent_ok_def)
  next
    case (Some e)
    show ?thesis
    proof (cases rule: dialLocked_cases [of nv "s\<lparr>ns_conn := None\<rparr>" w2])
      case (1 e3 w3)
      then show ?thesis using W C Some assms by (simp add: write_redial_def sent_ok_def drop_one_def)
    next
      case (2 d w3)
      obtain e4 w4 where "nv_Write nv d b w3 = (e4, w4)" by fastforce
      with 2 show ?thesis using W C Some assms by (auto simp: write_redial_def sent_ok_def drop_one_def)
    qed
  qed
qed

lemma emit_locked_ok: "sent_ok nv b s (emit_locked nv b s w)"
proof (cases "ns_conn s")
  case None
  show ?thesis
  proof (cases rule: dialLocked_cases [of nv s w])
    case (1 e w1)
    then show ?thesis using None by (simp add: emit_locked_def sent_ok_def drop_one_def)
  next
    case (2 c w1)
    have "sent_ok nv b (s\<lparr>ns_conn := Some c\<rparr>) (write_redial nv b (s\<lparr>ns_conn := Some c\<rparr>) w1)"
      by (rule write_redial_ok) simp
    then show ?thesis using None 2 by (simp add: emit_locked_def sent_ok_def split: prod.splits)
  qed
next
  case (Some c)
  then show ?thesis using write_redial_ok [OF Some] by (simp add: emit_locked_def)
qed

lemma net_Emit_inv: "bufpool_inv (nt_bufs h) \<Longrightarrow> bufpool_inv (nt_bufs (snd (net_Emit lib nv r h)))"
  by (auto simp: net_Emit_def Let_def split_beta intro!: inv_intros)

interpretation net: preserving "net_Emit lib nv" "\<lambda>h. bufpool_inv (nt_bufs h)" for lib nv
  by unfold_locales (rule net_Emit_inv)

lemma net_Emit_written:
  assumes "bufpool_inv (nt_bufs h)" "\<not> rLevel r < ns_minLvl (nt_s h)"
  shows "fst (net_Emit lib nv r h) = fst (emit_locked nv (Encode lib (ns_enc (nt_s h)) r []) (nt_s h) (nt_w h))"
    and "nt_s (snd (net_Emit lib nv r h)) = fst (snd (emit_locked nv (Encode lib (ns_enc (nt_s h)) r []) (nt_s h) (nt_w h)))"
    and "nt_w (snd (net_Emit lib nv r h)) = snd (snd (emit_locked nv (Encode lib (ns_enc (nt_s h)) r []) (nt_s h) (nt_w h)))"
  using assms getBuffer_empty [OF assms(1), of "nv_pick nv (nt_bufs h)"] by (simp_all add: net_Emit_def Let_def split_beta)

section \<open>Sequences of calls\<close>

datatype net_call = CallEmit Record | CallClose

text \<open>The result of each call of a sequence, and the final state.\<close>

fun net_run :: "golib \<Rightarrow> 'w net_env \<Rightarrow> net_call list \<Rightarrow> 'w net_sys \<Rightarrow> (net_call \<times> goerr option) list \<times> 'w net_sys" where
  "net_run lib nv [] h = ([], h)"
| "net_run lib nv (c # cs) h =
     (let (err, h1) = (case c of CallEmit r \<Rightarrow> net_Emit lib nv r h | CallClose \<Rightarrow> net_Close nv h);
          (out, h2) = net_run lib nv cs h1
      in ((c, err) # out, h2))"

definition emit_failed :: "net_call \<times> goerr option \<Rightarrow> bool" where
  "emit_failed ce = (case ce of (CallEmit r, Some e) \<Rightarrow> True | _ \<Rightarrow> False)"

lemma net_Emit_dropped:
  "ns_dropped (nt_s (snd (net_Emit lib nv r h))) = ns_dropped (nt_s h) + (if fst (net_Emit lib nv r h) = None then 0 else 1)"
proof (cases "rLevel r < ns_minLvl (nt_s h)")
  case False
  let ?buf = "Encode lib (ns_enc (nt_s h)) r (fst (fst (getBuffer (nv_pick nv (nt_bufs h)) (nt_bufs h))))"
  show ?thesis using False emit_locked_ok [of nv ?buf "nt_s h" "nt_w h"]
    by (simp add: net_Emit_def Let_def split_beta sent_ok_def)
qed (simp add: net_Emit_def)

lemma net_Close_dropped [simp]: "ns_dropped (nt_s (snd (net_Close nv h))) = ns_dropped (nt_s h)"
  by (simp add: net_Close_def split_beta split: option.split)

text \<open>
  Network losses are never silent: over any sequence of \<open>Emit\<close> and \<open>Close\<close> calls and whatever the
  network does, \<open>Dropped\<close> grows by exactly the number of \<open>Emit\<close>s that returned an error.
\<close>

lemma net_dropped_exact:
  "ns_dropped (nt_s (snd (net_run lib nv cs h)))
   = ns_dropped (nt_s h) + of_nat (length (filter emit_failed (fst (net_run lib nv cs h))))"
proof (induction cs arbitrary: h)
  case (Cons c cs)
  have "ns_dropped (nt_s (snd (case c of CallEmit r \<Rightarrow> net_Emit lib nv r h | CallClose \<Rightarrow> net_Close nv h)))
      = ns_dropped (nt_s h) + (if emit_failed (c, fst (case c of CallEmit r \<Rightarrow> net_Emit lib nv r h | CallClose \<Rightarrow> net_Close nv h)) then 1 else 0)"
    by (cases c) (auto simp: net_Emit_dropped emit_failed_def)
  with Cons show ?case by (simp add: Let_def split_beta)
qed simp

text \<open>
  C23: a successful \<open>Emit\<close> wrote the whole record: when it returns nil for a record at the sink's level,
  its last action was a complete write of exactly the record's encoding on the connection the sink
  now holds; and when the endpoint is back (dialling succeeds, and a write on a fresh connection
  succeeds), \<open>Emit\<close> succeeds whatever connection the sink was holding.
\<close>

theorem net_recovers:
  assumes "bufpool_inv (nt_bufs h)" "\<not> rLevel r < ns_minLvl (nt_s h)"
  shows "(fst (net_Emit lib nv r h) = None \<longrightarrow>
      (\<exists>c w0. ns_conn (nt_s (snd (net_Emit lib nv r h))) = Some c
        \<and> nv_Write nv c (Encode lib (ns_enc (nt_s h)) r []) w0 = (None, nt_w (snd (net_Emit lib nv r h)))))
    \<and> ((\<forall>w. \<exists>c w1 w2. nv_Dial nv (ns_network (nt_s h)) (ns_addr (nt_s h)) (ns_tlsCfg (nt_s h)) w = (Inr c, w1)
          \<and> nv_Write nv c (Encode lib (ns_enc (nt_s h)) r []) w1 = (None, w2))
      \<longrightarrow> fst (net_Emit lib nv r h) = None)"
proof (intro conjI impI)
  let ?b = "Encode lib (ns_enc (nt_s h)) r []"
  note E = net_Emit_written [OF assms, of lib nv]
  show "\<exists>c w0. ns_conn (nt_s (snd (net_Emit lib nv r h))) = Some c \<and> nv_Write nv c ?b w0 = (None, nt_w (snd (net_Emit lib nv r h)))"
    if "fst (net_Emit lib nv r h) = None"
    using emit_locked_ok [of nv ?b "nt_s h" "nt_w h"] that unfolding E by (simp add: sent_ok_def split_beta)
  assume up: "\<forall>w. \<exists>c w1 w2. nv_Dial nv (ns_network (nt_s h)) (ns_addr (nt_s h)) (ns_tlsCfg (nt_s h)) w = (Inr c, w1)
      \<and> nv_Write nv c ?b w1 = (None, w2)"
  have dial: "\<exists>c w1 w2. dialLocked nv (nt_s h\<lparr>ns_conn := x\<rparr>) w = (None, nt_s h\<lparr>ns_conn := Some c\<rparr>, w1) \<and> nv_Write nv c ?b w1 = (None, w2)" for x w
    using up [rule_format, of w] by (fastforce simp: dialLocked_def)
  show "fst (net_Emit lib nv r h) = None"
  proof (cases "ns_conn (nt_s h)")
    case None
    then have "nt_s h = nt_s h\<lparr>ns_conn := None\<rparr>" by simp
    with dial [of None "nt_w h"] show ?thesis unfolding E by (auto simp: emit_locked_def write_redial_def None)
  next
    case (Some c)
    obtain err w1 where W: "nv_Write nv c ?b (nt_w h) = (err, w1)" by fastforce
    obtain e2 w2 where C: "nv_Close nv c w1 = (e2, w2)" by fastforce
    show ?thesis using dial [of None w2] W C unfolding E by (auto simp: emit_locked_def write_redial_def Some)
  qed
qed


text \<open>A network whose first connection is dead: dialling numbers the connections from 1.\<close>

definition flaky :: "nat net_env" where
  "flaky = \<lparr>nv_Dial = (\<lambda>n a t w. (Inr (Suc w), Suc w)), nv_Write = (\<lambda>c b w. (if c = 0 then Some (GoErr ''broken pipe'') else None, w)),
     nv_Close = (\<lambda>c w. (None, w)), nv_pick = (\<lambda>p. None), nv_cap = (\<lambda>b c. c)\<rparr>"

definition flaky_sys :: "nat net_sys" where
  "flaky_sys = \<lparr>nt_s = (NewTCPSink ''h:1'' (EncJSON NewJSONEncoder) 0)\<lparr>ns_conn := Some 0\<rparr>, nt_bufs = [], nt_w = 0\<rparr>"

theorem net_recovers_witness: "fst (net_Emit sample_lib flaky zeroRecord flaky_sys) = None"
  by (rule net_recovers [THEN conjunct2, THEN mp])
    (simp_all add: flaky_sys_def bufpool_inv_def zeroRecord_def NewTCPSink_def flaky_def)

section \<open>The syslog sink\<close>

text \<open>The severities in the order of \<open>log/syslog\<close>: their numbers decrease with the urgency.\<close>

datatype syslog_severity = LOG_CRIT | LOG_ERR | LOG_WARNING | LOG_INFO | LOG_DEBUG

primrec syslog_number :: "syslog_severity \<Rightarrow> nat" where
  "syslog_number LOG_CRIT = 2"
| "syslog_number LOG_ERR = 3"
| "syslog_number LOG_WARNING = 4"
| "syslog_number LOG_INFO = 6"
| "syslog_number LOG_DEBUG = 7"

record 'w syslog_env =
  sv_Dial :: "string \<Rightarrow> string \<Rightarrow> string \<Rightarrow> 'w \<Rightarrow> (goerr + nat) \<times> 'w"
  sv_Log :: "nat \<Rightarrow> syslog_severity \<Rightarrow> string \<Rightarrow> 'w \<Rightarrow> goerr option \<times> 'w"
  sv_Close :: "nat \<Rightarrow> 'w \<Rightarrow> goerr option \<times> 'w"

record SyslogSink =
  sy_w :: nat
  sy_enc :: Encoder
  sy_minLvl :: Level

definition NewSyslogSink ::
  "'w syslog_env \<Rightarrow> string \<Rightarrow> string \<Rightarrow> string \<Rightarrow> Encoder \<Rightarrow> Level \<Rightarrow> 'w \<Rightarrow> (goerr + SyslogSink) \<times> 'w" where
  "NewSyslogSink sv network addr tag enc minLevel w =
     (case sv_Dial sv network addr tag w of
        (Inl err, w1) \<Rightarrow> (Inl err, w1)
      | (Inr c, w1) \<Rightarrow> (Inr \<lparr>sy_w = c, sy_enc = enc, sy_minLvl = minLevel\<rparr>, w1))"

definition syslog_route :: "Level \<Rightarrow> syslog_severity" where
  "syslog_route l =
     (if l < LevelDebug then LOG_DEBUG
      else if l < LevelInfo then LOG_DEBUG
      else if l < LevelWarn then LOG_INFO
      else if l < LevelError then LOG_WARNING
      else if l < LevelFatal then LOG_ERR
      else LOG_CRIT)"

text \<open>The pooled buffer is empty when \<open>Encode\<close> gets it, by the invariant of the pool.\<close>

definition Syslog_Emit :: "golib \<Rightarrow> 'w syslog_env \<Rightarrow> SyslogSink \<Rightarrow> Record \<Rightarrow> 'w \<Rightarrow> goerr option \<times> 'w" where
  "Syslog_Emit lib sv s r w =
     (if rLevel r < sy_minLvl s then (None, w)
      else (let msg = Encode lib (sy_enc s) r [] in sv_Log sv (sy_w s) (syslog_route (rLevel r)) msg w))"

definition Syslog_Close :: "'w syslog_env \<Rightarrow> SyslogSink \<Rightarrow> 'w \<Rightarrow> goerr option \<times> 'w" where
  "Syslog_Close sv s w = sv_Close sv (sy_w s) w"

text \<open>The severity the name of a band stands for.\<close>

definition band_severity :: "string \<rightharpoonup> syslog_severity" where
  "band_severity = [''UNSPECIFIED'' \<mapsto> LOG_DEBUG, ''TRACE'' \<mapsto> LOG_DEBUG, ''DEBUG'' \<mapsto> LOG_DEBUG, ''INFO'' \<mapsto> LOG_INFO,
     ''WARN'' \<mapsto> LOG_WARNING, ''ERROR'' \<mapsto> LOG_ERR, ''FATAL'' \<mapsto> LOG_CRIT]"

text \<open>
  Syslog routing agrees with the rest of the package: the severity a record is sent with is the
  one of the band its level prints as, for every level; it never decreases in urgency as the level
  grows; and a record at the sink's level reaches the daemon exactly once, with its encoding.
\<close>

lemma syslog_bands:
  "band_severity (Level_String l) = Some (syslog_route l)
   \<and> (l \<le> m \<longrightarrow> syslog_number (syslog_route m) \<le> syslog_number (syslog_route l))
   \<and> Syslog_Emit lib sv s r w =
       (if rLevel r < sy_minLvl s then (None, w)
        else sv_Log sv (sy_w s) (the (band_severity (Level_String (rLevel r)))) (Encode lib (sy_enc s) r []) w)"
proof -
  have band: "band_severity (Level_String l) = Some (syslog_route l)" for l
    by (simp add: band_severity_def Level_String_def syslog_route_def level_defs)
  then show ?thesis by (auto simp: Syslog_Emit_def syslog_route_def level_defs)
qed

theorem syslog_bands_witness:
  "(9 :: Level) \<le> 17 \<and> syslog_number (syslog_route 17) \<le> syslog_number (syslog_route 9)"
  by (intro conjI, simp, rule syslog_bands [THEN conjunct2, THEN conjunct1, THEN mp]) simp

end
