(* ===== verification/Bridges.thy ===== *)
theory Bridges
  imports Logger Net_Sinks "HOL-Library.AList"
begin

text \<open>
  The adapters under \<open>contrib/\<close>: loggers of other libraries backed by a \<open>Logger\<close> (\<open>logr\<close>, \<open>logrus\<close>, \<open>zap\<close>)
  and sinks that re-emit records through another library (\<open>zerolog\<close>, \<open>phuslu\<close>, \<open>otel\<close>, \<open>sentry\<close>). The
  libraries are parameters: what their calls do to an event and to the world. The theorems: how
  levels, names, bound values and field values cross each bridge.
\<close>

section \<open>\<open>contrib/logr\<close>\<close>

record 'h logr_sink =
  lr_l :: "'h Logger"
  lr_name :: string
  lr_kv :: "Field list"

definition logr_New :: "'h Logger \<Rightarrow> 'h logr_sink" where
  "logr_New l = \<lparr>lr_l = l, lr_name = [], lr_kv = []\<rparr>"

definition vToLevel :: "int \<Rightarrow> Level" where
  "vToLevel v = (if v \<le> 0 then LevelInfo else if v = 1 then LevelDebug else LevelTrace)"

definition logr_Enabled :: "'h logr_sink \<Rightarrow> int \<Rightarrow> 'h world \<Rightarrow> bool" where
  "logr_Enabled s level w = Enabled (lr_l s) (vToLevel level) w"

text \<open>The type assertion to \<open>string\<close> gives the empty string on any other type.\<close>

fun as_string :: "goval \<Rightarrow> string" where
  "as_string (VString s) = s"
| "as_string _ = []"

fun kvToFields :: "Field list \<Rightarrow> goval list \<Rightarrow> Field list" where
  "kvToFields base (k # v # kv) = kvToFields (base @ [FAny (as_string k) v]) kv"
| "kvToFields base _ = base"

definition name_field :: "string \<Rightarrow> Field list" where
  "name_field n = (if n \<noteq> [] then [FString ''logger'' n] else [])"

definition logr_Info :: "golib \<Rightarrow> log_in \<Rightarrow> 'h logr_sink \<Rightarrow> int \<Rightarrow> string \<Rightarrow> goval list \<Rightarrow> 'h world \<Rightarrow> 'h world" where
  "logr_Info lib i s level msg kv w =
     (let f = kvToFields (lr_kv s) kv; f = f @ name_field (lr_name s)
      in Logger_Log lib i (lr_l s) None (vToLevel level) msg f w)"

definition logr_Error :: "golib \<Rightarrow> log_in \<Rightarrow> 'h logr_sink \<Rightarrow> goerr option \<Rightarrow> string \<Rightarrow> goval list \<Rightarrow> 'h world \<Rightarrow> 'h world" where
  "logr_Error lib i s err msg kv w =
     (let f = kvToFields (lr_kv s) kv; f = f @ [FNamedErr ''error'' err]; f = f @ name_field (lr_name s)
      in Logger_Log lib i (lr_l s) None LevelError msg f w)"

definition logr_WithValues :: "goval list \<Rightarrow> 'h logr_sink \<Rightarrow> 'h logr_sink" where
  "logr_WithValues kv s = \<lparr>lr_l = lr_l s, lr_name = lr_name s, lr_kv = kvToFields (lr_kv s) kv\<rparr>"

definition logr_WithName :: "string \<Rightarrow> 'h logr_sink \<Rightarrow> 'h logr_sink" where
  "logr_WithName name s =
     \<lparr>lr_l = lr_l s, lr_name = (if lr_name s \<noteq> [] then lr_name s @ ''.'' @ name else name), lr_kv = lr_kv s\<rparr>"

section \<open>\<open>contrib/logrus\<close>\<close>

datatype logrus_level =
    LogrusPanic | LogrusFatal | LogrusError | LogrusWarn | LogrusInfo | LogrusDebug | LogrusTrace

text \<open>An entry; its data is a map, here in the order in which it is traversed.\<close>

record logrus_entry =
  le_Data :: "(string \<times> goval) list"
  le_Context :: "gctx option"
  le_Level :: logrus_level
  le_Message :: string

fun logrus_mapLevel :: "logrus_level \<Rightarrow> Level" where
  "logrus_mapLevel LogrusTrace = LevelTrace"
| "logrus_mapLevel LogrusDebug = LevelDebug"
| "logrus_mapLevel LogrusInfo = LevelInfo"
| "logrus_mapLevel LogrusWarn = LevelWarn"
| "logrus_mapLevel LogrusError = LevelError"
| "logrus_mapLevel _ = LevelFatal"

fun logrus_field :: "string \<Rightarrow> goval \<Rightarrow> Field" where
  "logrus_field k (VString x) = FString k x"
| "logrus_field k (VBool x) = FBool k x"
| "logrus_field k (VInt x) = FInt (IntTy True 64) k (sint x)"
| "logrus_field k (VInt64 x) = FInt (IntTy True 64) k (sint x)"
| "logrus_field k (VFloat64 x) = FFloat k x"
| "logrus_field k (VError x) = FNamedErr k (Some x)"
| "logrus_field k v = FAny k v"

text \<open>\<open>allLevels\<close> is \<open>logrus.AllLevels\<close>.\<close>

record 'h Hook =
  hk_L :: "'h Logger"
  hk_levels :: "logrus_level list"

definition NewHook :: "logrus_level list \<Rightarrow> 'h Logger \<Rightarrow> 'h Hook" where
  "NewHook allLevels l = \<lparr>hk_L = l, hk_levels = allLevels\<rparr>"

definition Hook_Levels :: "'h Hook \<Rightarrow> logrus_level list" where
  "Hook_Levels h = hk_levels h"

definition Fire :: "golib \<Rightarrow> log_in \<Rightarrow> 'h Hook \<Rightarrow> logrus_entry \<Rightarrow> 'h world \<Rightarrow> goerr option \<times> 'h world" where
  "Fire lib i h e w =
     (let fs = map (\<lambda>(k, v). logrus_field k v) (le_Data e)
      in case le_Context e of
           None \<Rightarrow> (None, Logger_Log lib i (hk_L h) None (logrus_mapLevel (le_Level e)) (le_Message e) fs w)
         | Some ctx \<Rightarrow> (None, Logger_Log lib i (hk_L h) (Some ctx) (logrus_mapLevel (le_Level e)) (le_Message e) fs w))"

text \<open>\<open>addHook\<close> and \<open>setOutput\<close> are the methods of the \<open>logrus\<close> logger; a writer is its \<open>Write\<close>.\<close>

definition discard_Write :: "bytes \<Rightarrow> nat \<times> goerr option" where
  "discard_Write p = (length p, None)"

definition Attach ::
  "('h Hook \<Rightarrow> 'd \<Rightarrow> 'd) \<Rightarrow> ((bytes \<Rightarrow> nat \<times> goerr option) \<Rightarrow> 'd \<Rightarrow> 'd) \<Rightarrow> logrus_level list \<Rightarrow> 'd \<Rightarrow> 'h Logger \<Rightarrow> 'd" where
  "Attach addHook setOutput allLevels dst l =
     (let dst = addHook (NewHook allLevels l) dst
      in setOutput discard_Write dst)"

section \<open>\<open>contrib/zap\<close>\<close>

text \<open>
  A \<open>zapcore.Level\<close> is an integer: \<open>Debug\<close> is -1, \<open>Info\<close> 0, \<open>Warn\<close> 1, \<open>Error\<close> 2, \<open>DPanic\<close> 3, \<open>Panic\<close> 4, \<open>Fatal\<close> 5. The
  fields of an entry are opaque; \<open>addTo\<close> is what adding them to a \<open>MapObjectEncoder\<close> leaves in its map,
  in the order of traversal.
\<close>

type_synonym zap_level = int

record 'h zap_core =
  zc_l :: "'h Logger"
  zc_lvl :: zap_level
  zc_with :: "Field list"

record zap_entry =
  ze_Level :: zap_level
  ze_Message :: string
  ze_LoggerName :: string

definition zap_NewCore :: "'h Logger \<Rightarrow> zap_level \<Rightarrow> 'h zap_core" where
  "zap_NewCore l enab = \<lparr>zc_l = l, zc_lvl = enab, zc_with = []\<rparr>"

definition zap_mapLevel :: "zap_level \<Rightarrow> Level" where
  "zap_mapLevel z =
     (if z < -1 then LevelTrace
      else if z < 0 then LevelDebug
      else if z < 1 then LevelInfo
      else if z < 2 then LevelWarn
      else if z < 4 then LevelError
      else LevelFatal)"

definition zap_Enabled :: "'h zap_core \<Rightarrow> zap_level \<Rightarrow> bool" where
  "zap_Enabled c l \<longleftrightarrow> l \<ge> zc_lvl c"

fun zap_field :: "string \<Rightarrow> goval \<Rightarrow> Field" where
  "zap_field k (VString x) = FString k x"
| "zap_field k (VBool x) = FBool k x"
| "zap_field k (VInt64 x) = FInt (IntTy True 64) k (sint x)"
| "zap_field k (VFloat64 x) = FFloat k x"
| "zap_field k v = FAny k v"

definition convert :: "('z list \<Rightarrow> (string \<times> goval) list) \<Rightarrow> 'z list \<Rightarrow> Field list" where
  "convert addTo fs = (if length fs = 0 then [] else map (\<lambda>(k, v). zap_field k v) (addTo fs))"

definition zap_With :: "('z list \<Rightarrow> (string \<times> goval) list) \<Rightarrow> 'z list \<Rightarrow> 'h zap_core \<Rightarrow> 'h zap_core" where
  "zap_With addTo fs c = \<lparr>zc_l = zc_l c, zc_lvl = zc_lvl c, zc_with = zc_with c @ convert addTo fs\<rparr>"

text \<open>\<open>Check\<close>: \<open>addCore\<close> is \<open>CheckedEntry.AddCore\<close>.\<close>

definition zap_Check :: "(zap_entry \<Rightarrow> 'h zap_core \<Rightarrow> 'ce \<Rightarrow> 'ce) \<Rightarrow> 'h zap_core \<Rightarrow> zap_entry \<Rightarrow> 'ce \<Rightarrow> 'ce" where
  "zap_Check addCore c e ce = (if zap_Enabled c (ze_Level e) then addCore e c ce else ce)"

definition zap_Write ::
  "golib \<Rightarrow> log_in \<Rightarrow> ('z list \<Rightarrow> (string \<times> goval) list) \<Rightarrow> 'h zap_core \<Rightarrow> zap_entry \<Rightarrow> 'z list \<Rightarrow> 'h world \<Rightarrow> goerr option \<times> 'h world" where
  "zap_Write lib i addTo c e fs w =
     (let fields1 = zc_with c @ convert addTo fs;
          fields2 = fields1 @ name_field (ze_LoggerName e)
      in (None, Logger_Log lib i (zc_l c) None (zap_mapLevel (ze_Level e)) (ze_Message e) fields2 w))"

definition zap_Sync :: "'h zap_core \<Rightarrow> 'h world \<Rightarrow> goerr option \<times> 'h world" where
  "zap_Sync c w = Logger_Sync (zc_l c) w"

section \<open>\<open>contrib/zerolog\<close> and \<open>contrib/phuslu\<close>\<close>

text \<open>
  Both sinks start an event at a level, add the fields one by one, add the event name, and send
  the event with its message. The operations of the library are the parameters.
\<close>

datatype zerolog_level = ZTrace | ZDebug | ZInfo | ZWarn | ZError | ZFatal

record ('l, 'e, 'w) event_api =
  ea_start :: "'l \<Rightarrow> 'w \<Rightarrow> 'e"              \<comment> \<open>\<open>WithLevel\<close>; \<open>Trace\<close>, \<open>Debug\<close>, \ldots\<close>
  ea_value :: "string \<Rightarrow> goval \<Rightarrow> 'e \<Rightarrow> 'e"  \<comment> \<open>\<open>Interface\<close>; \<open>Any\<close>\<close>
  ea_Str :: "string \<Rightarrow> string \<Rightarrow> 'e \<Rightarrow> 'e"
  ea_Msg :: "string \<Rightarrow> 'e \<Rightarrow> 'w \<Rightarrow> 'w"

definition zerolog_mapLevel :: "Level \<Rightarrow> zerolog_level" where
  "zerolog_mapLevel l =
     (if l < LevelDebug then ZTrace
      else if l < LevelInfo then ZDebug
      else if l < LevelWarn then ZInfo
      else if l < LevelError then ZWarn
      else if l < LevelFatal then ZError
      else ZFatal)"

record ('e, 'w) zerolog_sink =
  zs_zl :: "(zerolog_level, 'e, 'w) event_api"
  zs_minLvl :: Level

definition zerolog_New :: "(zerolog_level, 'e, 'w) event_api \<Rightarrow> Level \<Rightarrow> ('e, 'w) zerolog_sink" where
  "zerolog_New zl minLevel = \<lparr>zs_zl = zl, zs_minLvl = minLevel\<rparr>"

definition zerolog_Emit :: "('e, 'w) zerolog_sink \<Rightarrow> Record \<Rightarrow> 'w \<Rightarrow> goerr option \<times> 'w" where
  "zerolog_Emit s r w =
     (if rLevel r < zs_minLvl s then (None, w)
      else (let api = zs_zl s;
                ev = ea_start api (zerolog_mapLevel (rLevel r)) w;
                ev = foldl (\<lambda>ev f. ea_value api (fKey f) (Value f) ev) ev (rFields r);
                ev = (if rEventName r \<noteq> [] then ea_Str api ''event'' (rEventName r) ev else ev)
            in (None, ea_Msg api (rMessage r) ev w)))"

datatype phuslu_level = PTrace | PDebug | PInfo | PWarn | PError | PFatal

definition entryFor :: "Level \<Rightarrow> phuslu_level" where
  "entryFor l =
     (if l < LevelDebug then PTrace
      else if l < LevelInfo then PDebug
      else if l < LevelWarn then PInfo
      else if l < LevelError then PWarn
      else if l < LevelFatal then PError
      else PFatal)"

record ('e, 'w) phuslu_sink =
  ps_pl :: "(phuslu_level, 'e, 'w) event_api"
  ps_minLvl :: Level

definition phuslu_New :: "(phuslu_level, 'e, 'w) event_api \<Rightarrow> Level \<Rightarrow> ('e, 'w) phuslu_sink" where
  "phuslu_New pl minLevel = \<lparr>ps_pl = pl, ps_minLvl = minLevel\<rparr>"

definition phuslu_Emit :: "('e, 'w) phuslu_sink \<Rightarrow> Record \<Rightarrow> 'w \<Rightarrow> goerr option \<times> 'w" where
  "phuslu_Emit s r w =
     (if rLevel r < ps_minLvl s then (None, w)
      else (let api = ps_pl s;
                e = ea_start api (entryFor (rLevel r)) w;
                e = foldl (\<lambda>e f. ea_value api (fKey f) (Value f) e) e (rFields r);
                e = (if rEventName r \<noteq> [] then ea_Str api ''event'' (rEventName r) e else e)
            in (None, ea_Msg api (rMessage r) e w)))"

section \<open>\<open>contrib/otel\<close>\<close>

datatype otel_kv = OString string string | OBool string bool | OInt64 string u64 | OFloat64 string u64

record otel_record =
  or_Timestamp :: gtime
  or_Severity :: int
  or_SeverityText :: string
  or_Body :: string
  or_Attributes :: "otel_kv list"

definition otel_severity :: "Level \<Rightarrow> int" where
  "otel_severity l = l"

definition toKV :: "golib \<Rightarrow> Field \<Rightarrow> otel_kv" where
  "toKV lib f =
     (case Value f of
        VString v \<Rightarrow> OString (fKey f) v
      | VBool v \<Rightarrow> OBool (fKey f) v
      | VInt64 v \<Rightarrow> OInt64 (fKey f) v
      | VFloat64 v \<Rightarrow> OFloat64 (fKey f) v
      | v \<Rightarrow> OString (fKey f) (Sprint lib v))"

text \<open>The logger of the library is its \<open>Emit\<close>; \<open>provider\<close> is the \<open>Logger\<close> method of the global provider.\<close>

record 'w otel_sink =
  ok_lg :: "gctx \<Rightarrow> otel_record \<Rightarrow> 'w \<Rightarrow> 'w"
  ok_minLvl :: Level

definition otel_New :: "(string \<Rightarrow> gctx \<Rightarrow> otel_record \<Rightarrow> 'w \<Rightarrow> 'w) \<Rightarrow> string \<Rightarrow> Level \<Rightarrow> 'w otel_sink" where
  "otel_New provider name minLevel = \<lparr>ok_lg = provider name, ok_minLvl = minLevel\<rparr>"

definition otel_NewWithLogger :: "(gctx \<Rightarrow> otel_record \<Rightarrow> 'w \<Rightarrow> 'w) \<Rightarrow> Level \<Rightarrow> 'w otel_sink" where
  "otel_NewWithLogger lg minLevel = \<lparr>ok_lg = lg, ok_minLvl = minLevel\<rparr>"

definition otel_Emit :: "golib \<Rightarrow> 'w otel_sink \<Rightarrow> Record \<Rightarrow> 'w \<Rightarrow> goerr option \<times> 'w" where
  "otel_Emit lib s r w =
     (if rLevel r < ok_minLvl s then (None, w)
      else (let rec = \<lparr>or_Timestamp = rTime r, or_Severity = otel_severity (rLevel r),
                       or_SeverityText = Level_String (rLevel r), or_Body = rMessage r,
                       or_Attributes = map (toKV lib) (rFields r)\<rparr>;
                ctx = (case rCtx r of None \<Rightarrow> Background | Some c \<Rightarrow> c)
            in (None, ok_lg s ctx rec w)))"

text \<open>The extractor over the span context of the library: its validity and identifiers.\<close>

definition otel_TraceExtractor :: "(gctx \<Rightarrow> (string \<times> string) option) \<Rightarrow> TraceExtractor" where
  "otel_TraceExtractor spanContext ctx =
     (case spanContext ctx of None \<Rightarrow> ([], [], False) | Some (t, s) \<Rightarrow> (t, s, True))"

section \<open>\<open>contrib/sentry\<close>\<close>

datatype sentry_level = SInfo | SWarning | SError | SFatal

record sentry_event =
  se_Level :: sentry_level
  se_Message :: string
  se_Tags :: "(string \<rightharpoonup> string) option"
  se_Exception :: "(string \<times> string) list"
  se_Contexts :: "(string \<rightharpoonup> (string \<times> goval) list) option"

text \<open>A hub is its operations \<open>CaptureEvent\<close> and \<open>Flush\<close>; \<open>currentHub\<close> is what \<open>sentry.CurrentHub\<close> returns.\<close>

record 'w sentry_hub =
  sh_CaptureEvent :: "sentry_event \<Rightarrow> 'w \<Rightarrow> 'w"
  sh_Flush :: "int \<Rightarrow> 'w \<Rightarrow> 'w"

record 'w sentry_sink =
  sk_hub :: "'w sentry_hub"
  sk_minLvl :: Level

definition sentry_New :: "'w sentry_hub \<Rightarrow> Level \<Rightarrow> 'w sentry_sink" where
  "sentry_New currentHub minLevel =
     (let minLevel = (if minLevel < LevelWarn then LevelWarn else minLevel)
      in \<lparr>sk_hub = currentHub, sk_minLvl = minLevel\<rparr>)"

definition sentry_NewWithHub :: "'w sentry_hub \<Rightarrow> Level \<Rightarrow> 'w sentry_sink" where
  "sentry_NewWithHub h minLevel = \<lparr>sk_hub = h, sk_minLvl = minLevel\<rparr>"

definition sentry_mapLevel :: "Level \<Rightarrow> sentry_level" where
  "sentry_mapLevel l =
     (if l < LevelWarn then SInfo
      else if l < LevelError then SWarning
      else if l < LevelFatal then SError
      else SFatal)"

definition sentry_field ::
  "(string \<times> string) list \<times> (string \<times> goval) list \<Rightarrow> Field \<Rightarrow> (string \<times> string) list \<times> (string \<times> goval) list" where
  "sentry_field st f =
     (let (exs, m) = st
      in case Value f of
           VError e \<Rightarrow> (exs @ [(fKey f, err_text e)], m)
         | v \<Rightarrow> (exs, AList.update (fKey f) v m))"

text \<open>\<open>ev0\<close> is what \<open>NewEvent\<close> returns.\<close>

definition sentry_Emit :: "sentry_event \<Rightarrow> 'w sentry_sink \<Rightarrow> Record \<Rightarrow> 'w \<Rightarrow> goerr option \<times> 'w" where
  "sentry_Emit ev0 s r w =
     (if rLevel r < sk_minLvl s then (None, w)
      else (let ev = ev0\<lparr>se_Level := sentry_mapLevel (rLevel r), se_Message := rMessage r\<rparr>;
                tags = (case se_Tags ev of None \<Rightarrow> Map.empty | Some t \<Rightarrow> t);
                ev = ev\<lparr>se_Tags := Some tags\<rparr>;
                ev = (if rEventName r \<noteq> []
                      then ev\<lparr>se_Message := rEventName r, se_Tags := Some (tags(''event'' \<mapsto> rEventName r))\<rparr> else ev);
                (exs, m) = foldl sentry_field (se_Exception ev, []) (rFields r);
                ev = ev\<lparr>se_Exception := exs\<rparr>;
                ev = (if length m > 0
                      then (let cs = (case se_Contexts ev of None \<Rightarrow> Map.empty | Some c \<Rightarrow> c)
                            in ev\<lparr>se_Contexts := Some (cs(''fields'' \<mapsto> m))\<rparr>)
                      else ev)
            in (None, sh_CaptureEvent (sk_hub s) ev w)))"

definition sentry_Sync :: "'w sentry_sink \<Rightarrow> 'w \<Rightarrow> goerr option \<times> 'w" where
  "sentry_Sync s w = (None, sh_Flush (sk_hub s) 0 w)"

definition sentry_Close :: "'w sentry_sink \<Rightarrow> 'w \<Rightarrow> goerr option \<times> 'w" where
  "sentry_Close s w = (None, sh_Flush (sk_hub s) 0 w)"

text \<open>\<open>Sync\<close> and \<open>Close\<close> of the sinks for \<open>zerolog\<close>, \<open>phuslu\<close> and OpenTelemetry.\<close>

definition bridge_Sync :: "'s \<Rightarrow> 'w \<Rightarrow> goerr option \<times> 'w" where
  "bridge_Sync s w = (None, w)"

definition bridge_Close :: "'s \<Rightarrow> 'w \<Rightarrow> goerr option \<times> 'w" where
  "bridge_Close s w = (None, w)"

section \<open>Forwarding\<close>

text \<open>
  What the four outgoing sinks have in common: a record below the sink's level does nothing, any
  other is handed over once, whatever the library does with it, and no error comes back.
\<close>

locale forwarding_sink =
  fixes emit :: "Record \<Rightarrow> 'w \<Rightarrow> goerr option \<times> 'w" and minLvl :: Level and send :: "Record \<Rightarrow> 'w \<Rightarrow> 'w"
  assumes emit_below: "rLevel r < minLvl \<Longrightarrow> emit r w = (None, w)"
    and emit_above: "minLvl \<le> rLevel r \<Longrightarrow> emit r w = (None, send r w)"
begin

lemma emit_ok: "fst (emit r w) = None"
  by (cases "rLevel r < minLvl") (simp_all add: emit_below emit_above)

lemma emit_all: "fold (\<lambda>r w. snd (emit r w)) rs w = fold send (filter (\<lambda>r. minLvl \<le> rLevel r) rs) w"
  by (induction rs arbitrary: w) (simp_all add: emit_below emit_above not_le)

end

definition event_send :: "('l, 'e, 'w) event_api \<Rightarrow> (Level \<Rightarrow> 'l) \<Rightarrow> Record \<Rightarrow> 'w \<Rightarrow> 'w" where
  "event_send api m r w =
     ea_Msg api (rMessage r)
       ((if rEventName r = [] then \<lambda>e. e else ea_Str api ''event'' (rEventName r))
         (fold (\<lambda>f. ea_value api (fKey f) (Value f)) (rFields r) (ea_start api (m (rLevel r)) w))) w"

interpretation zerolog_out: forwarding_sink "zerolog_Emit (zerolog_New zl m)" m "event_send zl zerolog_mapLevel" for zl m
  by unfold_locales (simp_all add: zerolog_Emit_def zerolog_New_def event_send_def foldl_conv_fold not_less)

interpretation phuslu_out: forwarding_sink "phuslu_Emit (phuslu_New pl m)" m "event_send pl entryFor" for pl m
  by unfold_locales (simp_all add: phuslu_Emit_def phuslu_New_def event_send_def foldl_conv_fold not_less)

interpretation otel_out: forwarding_sink "otel_Emit lib (otel_NewWithLogger lg m)" m
    "\<lambda>r. lg (ctxOr (rCtx r)) \<lparr>or_Timestamp = rTime r, or_Severity = SeverityNumber (rLevel r),
       or_SeverityText = Level_String (rLevel r), or_Body = rMessage r, or_Attributes = map (toKV lib) (rFields r)\<rparr>" for lib lg m
  by unfold_locales
    (simp_all add: otel_Emit_def otel_NewWithLogger_def ctxOr_def otel_severity_def SeverityNumber_def not_less split: option.split)

section \<open>Levels\<close>

text \<open>
  What the receiving side may assume of an outgoing level map: it only depends on the band of the
  level and never makes a louder band quieter; and, where the other library has a level for
  every band, it keeps the bands apart.
\<close>

locale banded =
  fixes m :: "Level \<Rightarrow> 'l :: linorder"
  assumes of_band: "m l = m (band l)"
    and mono_band: "band l \<le> band l' \<Longrightarrow> m l \<le> m l'"
begin

lemma band_mono: "l \<le> l' \<Longrightarrow> band l \<le> band l'"
  by (simp add: band_def level_defs)

lemma louder_passes: "m t \<le> m l \<Longrightarrow> l \<le> l' \<Longrightarrow> m t \<le> m l'"
  using mono_band [OF band_mono, of l l'] by simp

lemma threshold_passes: "t \<le> l \<Longrightarrow> m t \<le> m l"
  by (rule mono_band [OF band_mono])

end

locale faithful_bands = banded +
  assumes strict_band: "band l < band l' \<Longrightarrow> m l < m l'"
begin

lemma threshold_exact: "m t \<le> m l \<longleftrightarrow> band t \<le> band l"
  using mono_band [of t l] strict_band [of l t] by force

lemma keeps_bands: "m l = m l' \<longleftrightarrow> band l = band l'"
  using threshold_exact [of l l'] threshold_exact [of l' l] by auto

end

text \<open>The severities of the libraries, by their numbers.\<close>

primrec zerolog_sev :: "zerolog_level \<Rightarrow> int" where
  "zerolog_sev ZTrace = -1" | "zerolog_sev ZDebug = 0" | "zerolog_sev ZInfo = 1"
| "zerolog_sev ZWarn = 2" | "zerolog_sev ZError = 3" | "zerolog_sev ZFatal = 4"

primrec phuslu_sev :: "phuslu_level \<Rightarrow> int" where
  "phuslu_sev PTrace = 1" | "phuslu_sev PDebug = 2" | "phuslu_sev PInfo = 3"
| "phuslu_sev PWarn = 4" | "phuslu_sev PError = 5" | "phuslu_sev PFatal = 6"

primrec sentry_sev :: "sentry_level \<Rightarrow> int" where
  "sentry_sev SInfo = 0" | "sentry_sev SWarning = 1" | "sentry_sev SError = 2" | "sentry_sev SFatal = 3"

instantiation zerolog_level :: linorder
begin

definition less_eq_zerolog_level :: "zerolog_level \<Rightarrow> zerolog_level \<Rightarrow> bool" where
  "less_eq_zerolog_level a b \<longleftrightarrow> zerolog_sev a \<le> zerolog_sev b"

definition less_zerolog_level :: "zerolog_level \<Rightarrow> zerolog_level \<Rightarrow> bool" where
  "less_zerolog_level a b \<longleftrightarrow> zerolog_sev a < zerolog_sev b"

instance
proof
  fix a b :: zerolog_level
  show "a \<le> b \<Longrightarrow> b \<le> a \<Longrightarrow> a = b" by (cases a; cases b) (simp_all add: less_eq_zerolog_level_def)
qed (auto simp: less_eq_zerolog_level_def less_zerolog_level_def)

end

lemmas zerolog_level_order = less_eq_zerolog_level_def less_zerolog_level_def

instantiation phuslu_level :: linorder
begin

definition less_eq_phuslu_level :: "phuslu_level \<Rightarrow> phuslu_level \<Rightarrow> bool" where
  "less_eq_phuslu_level a b \<longleftrightarrow> phuslu_sev a \<le> phuslu_sev b"

definition less_phuslu_level :: "phuslu_level \<Rightarrow> phuslu_level \<Rightarrow> bool" where
  "less_phuslu_level a b \<longleftrightarrow> phuslu_sev a < phuslu_sev b"

instance
proof
  fix a b :: phuslu_level
  show "a \<le> b \<Longrightarrow> b \<le> a \<Longrightarrow> a = b" by (cases a; cases b) (simp_all add: less_eq_phuslu_level_def)
qed (auto simp: less_eq_phuslu_level_def less_phuslu_level_def)

end

lemmas phuslu_level_order = less_eq_phuslu_level_def less_phuslu_level_def

instantiation sentry_level :: linorder
begin

definition less_eq_sentry_level :: "sentry_level \<Rightarrow> sentry_level \<Rightarrow> bool" where
  "less_eq_sentry_level a b \<longleftrightarrow> sentry_sev a \<le> sentry_sev b"

definition less_sentry_level :: "sentry_level \<Rightarrow> sentry_level \<Rightarrow> bool" where
  "less_sentry_level a b \<longleftrightarrow> sentry_sev a < sentry_sev b"

instance
proof
  fix a b :: sentry_level
  show "a \<le> b \<Longrightarrow> b \<le> a \<Longrightarrow> a = b" by (cases a; cases b) (simp_all add: less_eq_sentry_level_def)
qed (auto simp: less_eq_sentry_level_def less_sentry_level_def)

end

lemmas sentry_level_order = less_eq_sentry_level_def less_sentry_level_def

interpretation zerolog: faithful_bands zerolog_mapLevel
  by unfold_locales (auto simp: zerolog_mapLevel_def zerolog_level_order band_def level_defs split: if_splits)

interpretation phuslu: faithful_bands entryFor
  by unfold_locales (auto simp: entryFor_def phuslu_level_order band_def level_defs split: if_splits)

interpretation sentry: banded sentry_mapLevel
  by unfold_locales (auto simp: sentry_mapLevel_def sentry_level_order band_def level_defs split: if_splits)

text \<open>Syslog counts severities downwards.\<close>

interpretation syslog: banded "\<lambda>l. - int (syslog_number (syslog_route l))"
  by unfold_locales (auto simp: syslog_route_def band_def level_defs split: if_splits)

text \<open>
  Levels cross the bridges in order. Filtering in \<open>zerolog\<close> or \<open>phuslu\<close> at the image of a level keeps
  exactly the records of that level's band and louder; filtering in \<open>sentry\<close> or in the syslog daemon
  never loses a record at or above the threshold; the OpenTelemetry severity is the level
  itself; and the incoming maps of \<open>zap\<close>, \<open>slog\<close> and \<open>logr\<close> are monotone.
\<close>

lemma bridge_levels:
  "(zerolog_mapLevel t \<le> zerolog_mapLevel l \<longleftrightarrow> band t \<le> band l)
   \<and> (entryFor t \<le> entryFor l \<longleftrightarrow> band t \<le> band l)
   \<and> (t \<le> l \<longrightarrow> sentry_mapLevel t \<le> sentry_mapLevel l
        \<and> syslog_number (syslog_route l) \<le> syslog_number (syslog_route t))
   \<and> otel_severity l = SeverityNumber l
   \<and> (y \<le> z \<longrightarrow> zap_mapLevel y \<le> zap_mapLevel z \<and> vToLevel z \<le> vToLevel y)"
proof -
  have "syslog_number (syslog_route l) \<le> syslog_number (syslog_route t)" if "t \<le> l"
    using syslog.threshold_passes [OF that] by simp
  then show ?thesis
    using zerolog.threshold_exact phuslu.threshold_exact sentry.threshold_passes
    by (auto simp: otel_severity_def SeverityNumber_def zap_mapLevel_def vToLevel_def level_defs)
qed

theorem bridge_levels_witness:
  "(13 :: Level) \<le> 17 \<and> sentry_mapLevel 13 \<le> sentry_mapLevel 17"
  by (intro conjI, simp, rule bridge_levels [where t = 13 and l = 17 and y = 0 and z = 0, THEN conjunct2, THEN conjunct2, THEN conjunct1, THEN mp, THEN conjunct1]) simp

section \<open>Bound values and names\<close>

fun kv_pairs :: "goval list \<Rightarrow> Field list" where
  "kv_pairs (k # v # kv) = FAny (as_string k) v # kv_pairs kv"
| "kv_pairs _ = []"

lemma kvToFields_pairs: "kvToFields base kv = base @ kv_pairs kv"
  by (induction base kv rule: kvToFields.induct) auto

datatype logr_op = OpValues "goval list" | OpName string

fun logr_apply :: "logr_op \<Rightarrow> 'h logr_sink \<Rightarrow> 'h logr_sink" where
  "logr_apply (OpValues kv) s = logr_WithValues kv s"
| "logr_apply (OpName n) s = logr_WithName n s"

definition op_values :: "logr_op list \<Rightarrow> Field list" where
  "op_values ops = concat (map (\<lambda>x. case x of OpValues kv \<Rightarrow> kv_pairs kv | OpName n \<Rightarrow> []) ops)"

definition op_names :: "logr_op list \<Rightarrow> string list" where
  "op_names ops = concat (map (\<lambda>x. case x of OpValues kv \<Rightarrow> [] | OpName n \<Rightarrow> [n]) ops)"

lemma join_with_single_Cons: "ns \<noteq> [] \<Longrightarrow> join_with d (n # ns) = n @ d # join_with d ns"
  by (cases ns) auto

lemma join_nonempty: "ns \<noteq> [] \<Longrightarrow> [] \<notin> set ns \<Longrightarrow> join_with d ns \<noteq> []"
  by (cases ns) (auto simp: join_with_Cons)

lemma logr_derived:
  assumes "[] \<notin> set (op_names ops)"
  shows "fold logr_apply ops s =
    \<lparr>lr_l = lr_l s, lr_name = join_with CHR ''.'' ((if lr_name s = [] then [] else [lr_name s]) @ op_names ops),
     lr_kv = lr_kv s @ op_values ops\<rparr>"
  using assms
proof (induction ops arbitrary: s)
  case (Cons op ops)
  have IH: "[] \<notin> set (op_names ops)" using Cons.prems by (auto simp: op_names_def)
  show ?case
  proof (cases op)
    case (OpValues kv)
    then show ?thesis using Cons.IH [OF IH] by (simp add: logr_WithValues_def kvToFields_pairs op_names_def op_values_def)
  next
    case (OpName n)
    then have "n \<noteq> []" using Cons.prems by (auto simp: op_names_def)
    then show ?thesis using OpName Cons.IH [OF IH, of "logr_WithName n s"]
      by (simp add: logr_WithName_def op_names_def op_values_def join_with_Cons)
  qed
qed (simp add: op_names_def op_values_def)

text \<open>
  Derived \<open>logr\<close> loggers mean what \<open>logr\<close> promises: after any sequence of \<open>WithValues\<close> and \<open>WithName\<close>
  (with non-empty names), \<open>Info\<close> and \<open>Error\<close> log at the translated level with all values bound on
  the way, in order, then those of the call, the error, and the names joined by dots; the parent
  is not affected.
\<close>

theorem logr_nesting:
  assumes "[] \<notin> set (op_names ops)"
  shows "logr_Info lib i (fold logr_apply ops (logr_New l)) v msg kv w
      = log lib i l None (vToLevel v) msg (op_values ops @ kv_pairs kv @ name_field (join_with CHR ''.'' (op_names ops))) w
    \<and> logr_Error lib i (fold logr_apply ops (logr_New l)) err msg kv w
      = log lib i l None LevelError msg
          (op_values ops @ kv_pairs kv @ FNamedErr ''error'' err # name_field (join_with CHR ''.'' (op_names ops))) w"
  unfolding logr_derived [OF assms]
  by (simp add: logr_New_def logr_Info_def logr_Error_def kvToFields_pairs Logger_Log_def Let_def)

definition logr_ops :: "logr_op list" where
  "logr_ops = [OpName ''a'', OpValues [VString ''k'', VBool True, VNil], OpName ''b'']"

lemma logr_ops_eval:
  "op_names logr_ops = [''a'', ''b'']" "op_values logr_ops = [FAny ''k'' (VBool True)]"
  by (simp_all add: logr_ops_def op_names_def op_values_def)

theorem logr_nesting_witness:
  "\<forall>lib i (l :: unit Logger) w. logr_Info lib i (fold logr_apply logr_ops (logr_New l)) 0 ''m'' [] w
     = log lib i l None LevelInfo ''m'' [FAny ''k'' (VBool True), FString ''logger'' ''a.b''] w"
proof (intro allI)
  fix lib i w and l :: "unit Logger"
  have "[] \<notin> set (op_names logr_ops)" by (simp add: logr_ops_eval)
  from logr_nesting [OF this, of lib i l 0 "''m''" "[]" w None]
  show "logr_Info lib i (fold logr_apply logr_ops (logr_New l)) 0 ''m'' [] w
     = log lib i l None LevelInfo ''m'' [FAny ''k'' (VBool True), FString ''logger'' ''a.b''] w"
    by (simp add: logr_ops_eval name_field_def vToLevel_def)
qed

text \<open>A derived \<open>zap\<close> core logs what was bound on the way, then the fields of the call.\<close>

lemma zap_With_all:
  "fold (zap_With addTo) fss c = \<lparr>zc_l = zc_l c, zc_lvl = zc_lvl c, zc_with = zc_with c @ concat (map (convert addTo) fss)\<rparr>"
  by (induction fss arbitrary: c) (simp_all add: zap_With_def)

lemma zap_nesting:
  "zap_Write lib i addTo (fold (zap_With addTo) fss (zap_NewCore l lvl)) e fs w
   = (None, log lib i l None (zap_mapLevel (ze_Level e)) (ze_Message e)
        (concat (map (convert addTo) (fss @ [fs])) @ name_field (ze_LoggerName e)) w)"
  by (simp add: zap_With_all zap_Write_def zap_NewCore_def Logger_Log_def Let_def)

section \<open>Values\<close>

lemma FInt_int64_Value: "Value (FInt (IntTy True 64) k (sint x)) = VInt64 x"
  by (simp add: FInt_def wrapT_def mkField_def Value_def)

text \<open>
  Field values survive the incoming bridges: a value that arrives as a \<open>zap\<close> or \<open>logrus\<close> field is
  the value a processor or sink reads from the resulting field, with the same key; only the
  width of an \<open>int\<close> of \<open>logrus\<close> is forgotten.
\<close>

lemma bridge_values:
  "Value (zap_field k v) = v \<and> fKey (zap_field k v) = k \<and> fKey (logrus_field k v) = k
   \<and> Value (logrus_field k v) = (case v of VInt x \<Rightarrow> VInt64 x | _ \<Rightarrow> v)"
  by (cases v) (simp_all add: FInt_int64_Value errAny_def)

text \<open>
  Outgoing, the OpenTelemetry attributes keep the key and the exact value of string, boolean,
  signed integer and float fields; but the event name is not part of the exported record.
\<close>

definition otel_typed :: "Field \<Rightarrow> bool" where
  "otel_typed f \<longleftrightarrow> fknd f \<in> {kindString, kindInt64, kindFloat64, kindBool}"

lemma toKV_exact:
  assumes "otel_typed f" "otel_typed g" "toKV lib f = toKV lib g"
  shows "fKey f = fKey g \<and> Value f = Value g"
  using assms by (auto simp: otel_typed_def toKV_def Value_def)

lemma otel_event_lost: "otel_Emit lib s (r\<lparr>rEventName := n\<rparr>) w = otel_Emit lib s r w"
  by (simp add: otel_Emit_def)

text \<open>
  A Sentry event has the error fields as exceptions, in order, and the other fields as a context,
  where the last field of a key wins.
\<close>

definition is_error :: "Field \<Rightarrow> bool" where
  "is_error f = (case Value f of VError e \<Rightarrow> True | _ \<Rightarrow> False)"

lemma sentry_fields:
  "fst (foldl sentry_field (exs, m) fs)
     = exs @ concat (map (\<lambda>f. case Value f of VError e \<Rightarrow> [(fKey f, err_text e)] | _ \<Rightarrow> []) fs)"
  "map_of (snd (foldl sentry_field (exs, m) fs))
     = map_of m ++ map_of (rev (map (\<lambda>f. (fKey f, Value f)) (filter (\<lambda>f. \<not> is_error f) fs)))"
proof (induction fs arbitrary: exs m)
  case (Cons f fs)
  {
    case 1
    then show ?case using Cons(1) by (cases "Value f") (simp_all add: sentry_field_def)
  next
    case 2
    then show ?case using Cons(2)
      by (cases "Value f") (simp_all add: sentry_field_def is_error_def update_conv' map_add_assoc map_add_def fun_eq_iff split: option.split)
  }
qed simp_all

text \<open>
  What Sentry is told of a record: the event name replaces the message and becomes a tag, the error
  fields are appended to the exceptions, and the other fields, if any, are a context.
\<close>

definition sentry_report :: "sentry_event \<Rightarrow> Record \<Rightarrow> sentry_event" where
  "sentry_report ev0 r =
     (let errors = concat (map (\<lambda>f. case Value f of VError e \<Rightarrow> [(fKey f, err_text e)] | _ \<Rightarrow> []) (rFields r));
          others = snd (foldl sentry_field ([], []) (rFields r));
          tags = (case se_Tags ev0 of None \<Rightarrow> Map.empty | Some t \<Rightarrow> t);
          ctxs = (case se_Contexts ev0 of None \<Rightarrow> Map.empty | Some c \<Rightarrow> c)
      in \<lparr>se_Level = sentry_mapLevel (rLevel r),
          se_Message = (if rEventName r = [] then rMessage r else rEventName r),
          se_Tags = Some (if rEventName r = [] then tags else tags(''event'' \<mapsto> rEventName r)),
          se_Exception = se_Exception ev0 @ errors,
          se_Contexts = (if list_all is_error (rFields r) then se_Contexts ev0 else Some (ctxs(''fields'' \<mapsto> others)))\<rparr>)"

lemma sentry_context_exs: "snd (foldl sentry_field (exs, m) fs) = snd (foldl sentry_field (exs', m) fs)"
proof (induction fs arbitrary: exs exs' m)
  case (Cons f fs)
  then show ?case by (cases "Value f") (simp_all add: sentry_field_def)
qed simp

lemma sentry_context_empty: "snd (foldl sentry_field (exs, m) fs) = [] \<longleftrightarrow> m = [] \<and> list_all is_error fs"
proof (induction fs arbitrary: exs m)
  case (Cons f fs)
  have "AList.update k v m \<noteq> []" for k v by (cases m) auto
  then show ?case using Cons.IH by (cases "Value f") (simp_all add: sentry_field_def is_error_def)
qed simp

lemma sentry_Emit_report:
  "sentry_Emit ev0 s r w =
     (if rLevel r < sk_minLvl s then (None, w) else (None, sh_CaptureEvent (sk_hub s) (sentry_report ev0 r) w))"
  using sentry_context_exs [of "se_Exception ev0" "[]" "rFields r" "[]"]
    sentry_context_empty [of "[]" "[]" "rFields r"]
  by (cases ev0) (simp add: sentry_Emit_def sentry_report_def sentry_fields(1) Let_def split_beta)

interpretation sentry_out: forwarding_sink "sentry_Emit ev0 (sentry_New hub m)" "max LevelWarn m"
    "\<lambda>r. sh_CaptureEvent hub (sentry_report ev0 r)" for ev0 hub m
  by unfold_locales (auto simp: sentry_Emit_report sentry_New_def Let_def)

section \<open>Forwarded sequences\<close>

text \<open>
  The outgoing bridges deliver every record of the sink's level and louder exactly once, in order
  and whole: over any sequence of records, \<open>zerolog\<close> and \<open>phuslu\<close> get one event per record with its
  level, all its fields, its event name and its message; Sentry gets one report per record, at
  WARN or louder even when a lower level is configured; OpenTelemetry gets a record whose severity
  is the level.
\<close>

lemma bridges_forward:
  "fold (\<lambda>r w. snd (zerolog_Emit (zerolog_New zl m) r w)) rs w
      = fold (event_send zl zerolog_mapLevel) (filter (\<lambda>r. m \<le> rLevel r) rs) w
   \<and> fold (\<lambda>r w. snd (phuslu_Emit (phuslu_New pl m) r w)) rs w
      = fold (event_send pl entryFor) (filter (\<lambda>r. m \<le> rLevel r) rs) w
   \<and> fold (\<lambda>r w. snd (sentry_Emit ev0 (sentry_New hub m) r w)) rs w
      = fold (\<lambda>r. sh_CaptureEvent hub (sentry_report ev0 r)) (filter (\<lambda>r. max LevelWarn m \<le> rLevel r) rs) w
   \<and> fold (\<lambda>r w. snd (otel_Emit lib (otel_NewWithLogger lg m) r w)) rs w
      = fold (\<lambda>r. lg (ctxOr (rCtx r)) \<lparr>or_Timestamp = rTime r, or_Severity = SeverityNumber (rLevel r),
          or_SeverityText = Level_String (rLevel r), or_Body = rMessage r, or_Attributes = map (toKV lib) (rFields r)\<rparr>)
          (filter (\<lambda>r. m \<le> rLevel r) rs) w"
  by (intro conjI zerolog_out.emit_all phuslu_out.emit_all sentry_out.emit_all otel_out.emit_all)

end
