(* ===== verification/FC_Concurrent.thy ===== *)
theory FC_Concurrent
  imports Fingers_Crossed
begin

text \<open>
  Goroutines that log through one debug-on-error sink (\<open>FingersCrossed.Emit\<close>). The decision, the
  drain and the push are one critical section of the scope's buffer; the calls of the wrapped
  sink come after it, one by one, and interleave with those of the other goroutines. The
  theorems: by the order of the critical sections, the sink receives what each call owes it (a
  specification by the records of the scope, without buffers), every goroutine's part in order;
  only the order across goroutines is free.
\<close>

section \<open>The system\<close>

text \<open>
  \<open>fx_todo\<close> holds what each goroutine still has to hand to the wrapped sink in its current call;
  \<open>fx_out\<close> is what the sink received and from whom; the history \<open>fx_calls\<close> lists the calls in the
  order of their critical sections. A goroutine may also open a new scope (\<open>FCScope\<close>); a context
  carries a pointer to a buffer, so a record's buffer is an allocated one.
\<close>

record fc_sys =
  fx_st :: fc_store
  fx_todo :: "Record option list list"
  fx_out :: "(nat \<times> Record option) list"
  fx_calls :: "(nat \<times> Record) list"

definition fx_start :: "fc_store \<Rightarrow> nat \<Rightarrow> fc_sys" where
  "fx_start st n = \<lparr>fx_st = st, fx_todo = replicate n [], fx_out = [], fx_calls = []\<rparr>"

inductive fx_step :: "FingersCrossed \<Rightarrow> fc_sys \<Rightarrow> fc_sys \<Rightarrow> bool" for f where
  fx_scope: "FCScope ctx (fx_st s) = (ctx', st) \<Longrightarrow> fx_step f s (s\<lparr>fx_st := st\<rparr>)"
| fx_decide: "i < length (fx_todo s) \<Longrightarrow> fx_todo s ! i = [] \<Longrightarrow> bufFor f r < length (fx_st s) \<Longrightarrow>
     fc_Emit f r (fx_st s) = (x, st) \<Longrightarrow>
     fx_step f s (s\<lparr>fx_st := st, fx_todo := (fx_todo s)[i := fo_records r x], fx_calls := fx_calls s @ [(i, r)]\<rparr>)"
| fx_emit: "i < length (fx_todo s) \<Longrightarrow> fx_todo s ! i = x # xs \<Longrightarrow>
     fx_step f s (s\<lparr>fx_todo := (fx_todo s)[i := xs], fx_out := fx_out s @ [(i, x)]\<rparr>)"

section \<open>What a call owes the sink\<close>

text \<open>
  The specification speaks of records only, not of buffers: what a call has to hand over is a
  function of the records logged earlier in its scope. A scope is open once a record at the
  activation level was logged in it; the record that opens it brings copies of the last \<open>n\<close>
  records that were held back.
\<close>

definition fc_passes :: "FingersCrossed \<Rightarrow> Record \<Rightarrow> bool" where
  "fc_passes f r \<longleftrightarrow> fc_PassThrough f \<noteq> 0 \<and> fc_PassThrough f \<le> rLevel r"

definition fc_open :: "FingersCrossed \<Rightarrow> Record list \<Rightarrow> bool" where
  "fc_open f past \<longleftrightarrow> (\<exists>q \<in> set past. fc_act f \<le> rLevel q)"

definition fc_held :: "FingersCrossed \<Rightarrow> nat \<Rightarrow> Record list \<Rightarrow> Record list" where
  "fc_held f n past = last_n n (map Clone (filter (\<lambda>q. \<not> fc_passes f q) past))"

definition fc_due :: "FingersCrossed \<Rightarrow> nat \<Rightarrow> Record list \<Rightarrow> Record \<Rightarrow> Record list" where
  "fc_due f n past r =
     (if fc_open f past then [r]
      else if fc_act f \<le> rLevel r then fc_held f n past @ [r]
      else if fc_passes f r then [r] else [])"

text \<open>
  The capacity of a scope: the initial buffers have the capacities asked for, those opened
  later 256. \<open>fc_due_of caps cs k\<close> is what the \<open>k\<close>th call owes, by the calls before it.
\<close>

definition fc_capacity :: "int list \<Rightarrow> nat \<Rightarrow> nat" where
  "fc_capacity caps a = (if a < length caps \<and> 1 \<le> caps ! a then nat (caps ! a) else 256)"

definition in_scope :: "FingersCrossed \<Rightarrow> nat \<Rightarrow> (nat \<times> Record) list \<Rightarrow> Record list" where
  "in_scope f a cs = filter (\<lambda>q. bufFor f q = a) (map snd cs)"

definition fc_due_of :: "FingersCrossed \<Rightarrow> int list \<Rightarrow> (nat \<times> Record) list \<Rightarrow> nat \<Rightarrow> Record list" where
  "fc_due_of f caps cs k =
     (let r = snd (cs ! k); a = bufFor f r in fc_due f (fc_capacity caps a) (in_scope f a (take k cs)) r)"

definition fc_blocks :: "FingersCrossed \<Rightarrow> int list \<Rightarrow> (nat \<times> Record) list \<Rightarrow> (nat \<times> Record option list) list" where
  "fc_blocks f caps cs = map (\<lambda>k. (fst (cs ! k), map Some (fc_due_of f caps cs k))) [0..<length cs]"

definition sent_by :: "nat \<Rightarrow> (nat \<times> Record option list) list \<Rightarrow> Record option list" where
  "sent_by i bs = concat (map snd (filter (\<lambda>b. fst b = i) bs))"

lemma fc_blocks_snoc:
  "fc_blocks f caps (cs @ [(i, r)]) = fc_blocks f caps cs
     @ [(i, map Some (fc_due f (fc_capacity caps (bufFor f r)) (in_scope f (bufFor f r) cs) r))]"
  by (auto simp: fc_blocks_def fc_due_of_def nth_append Let_def intro!: map_cong)

lemma fc_blocks_fst: "map fst (fc_blocks f caps cs) = map fst cs"
  by (rule nth_equalityI) (simp_all add: fc_blocks_def)

text \<open>The scope's abstract state after the records logged in it, and one call on it.\<close>

definition fc_hist :: "FingersCrossed \<Rightarrow> nat \<Rightarrow> Record list \<Rightarrow> scope_spec" where
  "fc_hist f n past = \<lparr>sc_trail = (if fc_open f past then [] else fc_held f n past), sc_active = fc_open f past\<rparr>"

lemma scope_emit_hist: "scope_emit f n r (fc_hist f n past) = (fc_due f n past r, fc_hist f n (past @ [r]))"
  by (auto simp: scope_emit_def fc_hist_def fc_due_def fc_open_def fc_held_def fc_passes_def last_n_last_n)

section \<open>The invariant\<close>

definition fx_inv :: "FingersCrossed \<Rightarrow> int list \<Rightarrow> nat \<Rightarrow> fc_sys \<Rightarrow> bool" where
  "fx_inv f caps n s \<longleftrightarrow>
     length (fx_todo s) = n \<and> length caps \<le> length (fx_st s) \<and>
     (\<forall>a < length (fx_st s). scope_rep (fx_st s ! a) (fc_hist f (fc_capacity caps a) (in_scope f a (fx_calls s)))
        \<and> fb_cap (fx_st s ! a) = fc_capacity caps a) \<and>
     (\<forall>i < n. map snd (filter (\<lambda>x. fst x = i) (fx_out s)) @ fx_todo s ! i = sent_by i (fc_blocks f caps (fx_calls s))) \<and>
     (\<forall>x \<in> set (fx_out s). fst x < n) \<and> (\<forall>x \<in> set (fx_calls s). fst x < n \<and> bufFor f (snd x) < length (fx_st s))"

lemma fresh_scope: "scope_rep (newFCBuffer c) (fc_hist f n [])"
  using fc_rep_new by (simp add: scope_rep_def fc_hist_def fc_open_def fc_held_def last_n_def newFCBuffer_def Let_def)

lemma newFCBuffer_cap: "fb_cap (newFCBuffer c) = (if 1 \<le> c then nat c else 256)"
  by (simp add: newFCBuffer_def Let_def)

lemma fx_inv_start: "fx_inv f caps n (fx_start (map newFCBuffer caps) n)"
  by (simp add: fx_inv_def fx_start_def in_scope_def fresh_scope newFCBuffer_cap fc_capacity_def fc_blocks_def sent_by_def)

text \<open>The critical section keeps every scope in step with its history.\<close>

lemma fc_Emit_hist:
  assumes "\<forall>a < length st. scope_rep (st ! a) (fc_hist f (fc_capacity caps a) (in_scope f a cs)) \<and> fb_cap (st ! a) = fc_capacity caps a"
    and "bufFor f r < length st"
  shows "fo_records r (fst (fc_Emit f r st))
      = map Some (fc_due f (fc_capacity caps (bufFor f r)) (in_scope f (bufFor f r) cs) r)"
    and "\<forall>a < length st. scope_rep (snd (fc_Emit f r st) ! a) (fc_hist f (fc_capacity caps a) (in_scope f a (cs @ [(i, r)])))
      \<and> fb_cap (snd (fc_Emit f r st) ! a) = fc_capacity caps a"
proof -
  let ?a = "bufFor f r"
  have rep: "scope_rep (st ! ?a) (fc_hist f (fc_capacity caps ?a) (in_scope f ?a cs))" "fb_cap (st ! ?a) = fc_capacity caps ?a"
    using assms by auto
  note one = fc_Emit_refines [OF assms(2) rep(1), unfolded rep(2) scope_emit_hist]
  show "fo_records r (fst (fc_Emit f r st)) = map Some (fc_due f (fc_capacity caps ?a) (in_scope f ?a cs) r)"
    using one(1) by simp
  show "\<forall>a < length st. scope_rep (snd (fc_Emit f r st) ! a) (fc_hist f (fc_capacity caps a) (in_scope f a (cs @ [(i, r)])))
      \<and> fb_cap (snd (fc_Emit f r st) ! a) = fc_capacity caps a"
  proof (intro allI impI)
    fix a assume "a < length st"
    then show "scope_rep (snd (fc_Emit f r st) ! a) (fc_hist f (fc_capacity caps a) (in_scope f a (cs @ [(i, r)])))
      \<and> fb_cap (snd (fc_Emit f r st) ! a) = fc_capacity caps a"
      using one(2,3) assms(1) by (cases "a = ?a") (simp_all add: in_scope_def fc_Emit_frame)
  qed
qed

lemma in_scope_new:
  "\<forall>x \<in> set cs. bufFor f (snd x) < n \<Longrightarrow> in_scope f n cs = []"
  by (auto simp: in_scope_def filter_empty_conv)

lemma fx_inv_step:
  assumes "fx_step f s s'" "fx_inv f caps n s"
  shows "fx_inv f caps n s'"
  using assms
proof (induction rule: fx_step.induct)
  case (fx_scope ctx s ctx' st)
  then have st: "st = fx_st s @ [newFCBuffer 256]" by (simp add: FCScope_def)
  have "in_scope f (length (fx_st s)) (fx_calls s) = []"
    using fx_scope by (intro in_scope_new) (simp add: fx_inv_def)
  then show ?case
    using fx_scope(2) by (auto simp: fx_inv_def st nth_append less_Suc_eq fresh_scope newFCBuffer_cap fc_capacity_def)
next
  case (fx_decide i s r x st)
  have st: "x = fst (fc_Emit f r (fx_st s))" "st = snd (fc_Emit f r (fx_st s))" using fx_decide(4) by simp_all
  have "\<forall>a < length (fx_st s). scope_rep (fx_st s ! a) (fc_hist f (fc_capacity caps a) (in_scope f a (fx_calls s)))
      \<and> fb_cap (fx_st s ! a) = fc_capacity caps a"
    using fx_decide(5) by (simp add: fx_inv_def)
  note one = fc_Emit_hist [OF this fx_decide(3)]
  show ?case
    using fx_decide(1,2,3,5) one(1) one(2) [of i]
    by (auto simp: fx_inv_def st fc_blocks_snoc sent_by_def nth_list_update fc_Emit_frame)
next
  case (fx_emit i s x xs)
  then show ?case by (auto simp: fx_inv_def nth_list_update)
qed

interpretation fc_system: invariant_system "\<lambda>s. s = fx_start (map newFCBuffer caps) n" "fx_step f" "fx_inv f caps n"
  for f caps n
  by unfold_locales (simp add: fx_inv_start, blast intro: fx_inv_step)

text \<open>Counting by goroutine.\<close>

lemma mset_by_index:
  fixes n :: nat
  assumes "\<forall>x \<in> set xs. fst x < n"
  shows "mset (map snd xs) = (\<Sum>i<n. mset (map snd (filter (\<lambda>x. fst x = i) xs)))"
  using assms
proof (induction xs)
  case (Cons x xs)
  have "(\<Sum>i<n. mset (map snd (filter (\<lambda>y. fst y = i) (x # xs))))
      = (\<Sum>i<n. (if i = fst x then {#snd x#} else {#}) + mset (map snd (filter (\<lambda>y. fst y = i) xs)))"
    by (rule sum.cong) auto
  also have "\<dots> = {#snd x#} + mset (map snd xs)"
    using Cons by (simp add: sum.distrib sum.delta [of "{..<n}" "fst x" "\<lambda>_. {#snd x#}"])
  finally show ?case by simp
qed simp

lemma concat_by_index:
  assumes "\<forall>b \<in> set bs. fst b < n"
  shows "mset (concat (map snd bs)) = (\<Sum>i<n. mset (sent_by i bs))"
  using assms
proof (induction bs)
  case (Cons b bs)
  have "(\<Sum>i<n. mset (sent_by i (b # bs))) = (\<Sum>i<n. (if i = fst b then mset (snd b) else {#}) + mset (sent_by i bs))"
    by (rule sum.cong) (auto simp: sent_by_def)
  also have "\<dots> = mset (snd b) + mset (concat (map snd bs))"
    using Cons by (simp add: sum.distrib sum.delta [of "{..<n}" "fst b" "\<lambda>_. mset (snd b)"])
  finally show ?case by simp
qed (simp add: sent_by_def)

section \<open>Properties\<close>

text \<open>
  C6: Debug-on-error under concurrency, against a specification by the records alone. For every
  interleaving of any number of goroutines, starting from fresh buffers and opening scopes as
  they go: each goroutine hands the sink, in order, what its calls owe it, by the order of the
  critical sections: a record of an open scope or of the pass-through level itself; for
  the record that opens the scope, copies of the last records of that scope held back before it,
  as many as the buffer's capacity, oldest first, then the record; for any other nothing. When
  no call is under way, the sink has received all of that, each record once, and nothing else.
\<close>

theorem fc_concurrent:
  assumes "(fx_step f)\<^sup>*\<^sup>* (fx_start (map newFCBuffer caps) n) s"
  shows "(\<forall>i < n. map snd (filter (\<lambda>x. fst x = i) (fx_out s)) @ fx_todo s ! i = sent_by i (fc_blocks f caps (fx_calls s)))
    \<and> ((\<forall>i < n. fx_todo s ! i = []) \<longrightarrow>
        mset (map snd (fx_out s)) = mset (concat (map (\<lambda>k. map Some (fc_due_of f caps (fx_calls s) k)) [0..<length (fx_calls s)])))"
proof (intro conjI impI)
  let ?bs = "fc_blocks f caps (fx_calls s)"
  have inv: "fx_inv f caps n s" by (rule fc_system.reach_inv [OF refl assms])
  then show own: "\<forall>i < n. map snd (filter (\<lambda>x. fst x = i) (fx_out s)) @ fx_todo s ! i = sent_by i ?bs"
    by (simp add: fx_inv_def)
  assume idle: "\<forall>i < n. fx_todo s ! i = []"
  have "fst ` set ?bs = fst ` set (fx_calls s)"
    using fc_blocks_fst [of f caps "fx_calls s"] by (metis list.set_map)
  moreover have "\<forall>x \<in> fst ` set (fx_calls s). x < n" using inv by (simp add: fx_inv_def)
  ultimately have "\<forall>b \<in> set ?bs. fst b < n" by (metis imageI)
  then have "mset (concat (map snd ?bs)) = (\<Sum>i<n. mset (sent_by i ?bs))" by (rule concat_by_index)
  also have "\<dots> = (\<Sum>i<n. mset (map snd (filter (\<lambda>x. fst x = i) (fx_out s))))"
    using own idle by (intro sum.cong) (metis append_Nil2 lessThan_iff)+
  also have "\<dots> = mset (map snd (fx_out s))"
    using inv mset_by_index [of "fx_out s" n] by (simp add: fx_inv_def)
  finally show "mset (map snd (fx_out s))
      = mset (concat (map (\<lambda>k. map Some (fc_due_of f caps (fx_calls s) k)) [0..<length (fx_calls s)]))"
    by (simp add: fc_blocks_def comp_def)
qed

text \<open>
  Two goroutines share a scope: the first buffers a record and then activates the scope; before it
  hands over the trail, the second logs straight through.
\<close>

definition fx_buf :: "nat \<Rightarrow> bool \<Rightarrow> fcBuffer" where
  "fx_buf n act = \<lparr>fb_ring = [Some (Clone (fc_rec 5 ''a''))], fb_start = 0, fb_count = n, fb_activated = act, fb_cap = 1\<rparr>"

definition fx_race :: "fcBuffer \<Rightarrow> Record option list list \<Rightarrow> (nat \<times> Record option) list \<Rightarrow> nat \<Rightarrow> fc_sys" where
  "fx_race b todo out k = \<lparr>fx_st = [b], fx_todo = todo, fx_out = out,
     fx_calls = take k [(0, fc_rec 5 ''a''), (0, fc_rec 17 ''boom''), (1, fc_rec 5 ''late'')]\<rparr>"

abbreviation fx_trail :: "Record option list" where
  "fx_trail \<equiv> [Some (Clone (fc_rec 5 ''a'')), Some (fc_rec 17 ''boom'')]"

definition fx_overtaken :: fc_sys where
  "fx_overtaken = fx_race (fx_buf 0 True) [[], []]
     [(1, Some (fc_rec 5 ''late'')), (0, Some (Clone (fc_rec 5 ''a''))), (0, Some (fc_rec 17 ''boom''))] 3"

lemma fx_overtaken_reach: "(fx_step fc_sample)\<^sup>*\<^sup>* (fx_start [newFCBuffer 1] 2) fx_overtaken"
proof -
  let ?b = "fx_buf 0 True" and ?late = "Some (fc_rec 5 ''late'')"
  note defs = fx_start_def fx_race_def fx_buf_def fc_Emit_def fo_records_def newFCBuffer_def fc_push_def fc_drain_def Let_def
  have "fx_step fc_sample (fx_start [newFCBuffer 1] 2) (fx_race (fx_buf 1 False) [[], []] [] 1)"
    using fx_decide [of 0 "fx_start [newFCBuffer 1] 2" fc_sample "fc_rec 5 ''a''"] by (simp add: defs numeral_2_eq_2)
  moreover have "fx_step fc_sample (fx_race (fx_buf 1 False) [[], []] [] 1) (fx_race ?b [fx_trail, []] [] 2)"
    using fx_decide [of 0 "fx_race (fx_buf 1 False) [[], []] [] 1" fc_sample "fc_rec 17 ''boom''"] by (simp add: defs numeral_2_eq_2)
  moreover have "fx_step fc_sample (fx_race ?b [fx_trail, []] [] 2) (fx_race ?b [fx_trail, [?late]] [] 3)"
    using fx_decide [of 1 "fx_race ?b [fx_trail, []] [] 2" fc_sample "fc_rec 5 ''late''"] by (simp add: defs numeral_2_eq_2 numeral_3_eq_3)
  moreover have "fx_step fc_sample (fx_race ?b [fx_trail, [?late]] [] 3) (fx_race ?b [fx_trail, []] [(1, ?late)] 3)"
    using fx_emit [of 1 "fx_race ?b [fx_trail, [?late]] [] 3" ?late "[]" fc_sample] by (simp add: fx_race_def)
  moreover have "fx_step fc_sample (fx_race ?b [fx_trail, []] [(1, ?late)] 3)
      (fx_race ?b [tl fx_trail, []] [(1, ?late), (0, hd fx_trail)] 3)"
    using fx_emit [of 0 "fx_race ?b [fx_trail, []] [(1, ?late)] 3" "hd fx_trail" "tl fx_trail" fc_sample] by (simp add: fx_race_def)
  moreover have "fx_step fc_sample (fx_race ?b [tl fx_trail, []] [(1, ?late), (0, hd fx_trail)] 3) fx_overtaken"
    using fx_emit [of 0 "fx_race ?b [tl fx_trail, []] [(1, ?late), (0, hd fx_trail)] 3" "fx_trail ! 1" "[]" fc_sample]
    by (simp add: fx_race_def fx_overtaken_def)
  ultimately show ?thesis by (meson rtranclp.rtrancl_into_rtrancl rtranclp.rtrancl_refl)
qed

text \<open>The late record reached the sink before the trail it follows: across goroutines the order is free.\<close>

theorem fc_concurrent_witness:
  "map (\<lambda>x. rMessage (the (snd x))) (fx_out fx_overtaken) = [''late'', ''a'', ''boom'']
   \<and> map (fc_due_of fc_sample [1] (fx_calls fx_overtaken)) [0..<3] = [[], [Clone (fc_rec 5 ''a''), fc_rec 17 ''boom''], [fc_rec 5 ''late'']]
   \<and> map snd (filter (\<lambda>x. fst x = 0) (fx_out fx_overtaken)) = sent_by 0 (fc_blocks fc_sample [1] (fx_calls fx_overtaken))
   \<and> mset (map snd (fx_out fx_overtaken))
     = mset (concat (map (\<lambda>k. map Some (fc_due_of fc_sample [1] (fx_calls fx_overtaken) k)) [0..<3]))"
proof -
  have todo: "fx_todo fx_overtaken ! i = []" if "i < 2" for i
    using that by (auto simp: fx_overtaken_def fx_race_def less_2_cases_iff)
  have reach: "(fx_step fc_sample)\<^sup>*\<^sup>* (fx_start (map newFCBuffer [1]) 2) fx_overtaken"
    using fx_overtaken_reach by simp
  have calls: "length (fx_calls fx_overtaken) = 3" by (simp add: fx_overtaken_def fx_race_def)
  note main = fc_concurrent [OF reach]
  show ?thesis
  proof (intro conjI)
    show "map (\<lambda>x. rMessage (the (snd x))) (fx_out fx_overtaken) = [''late'', ''a'', ''boom'']"
      by (simp add: fx_overtaken_def fx_race_def)
    show "map (fc_due_of fc_sample [1] (fx_calls fx_overtaken)) [0..<3]
        = [[], [Clone (fc_rec 5 ''a''), fc_rec 17 ''boom''], [fc_rec 5 ''late'']]"
      by (simp add: fx_overtaken_def fx_race_def fc_due_of_def fc_due_def fc_open_def fc_held_def fc_passes_def
          in_scope_def fc_capacity_def last_n_def upt_rec numeral_2_eq_2 numeral_3_eq_3)
    show "map snd (filter (\<lambda>x. fst x = 0) (fx_out fx_overtaken)) = sent_by 0 (fc_blocks fc_sample [1] (fx_calls fx_overtaken))"
      using main [THEN conjunct1, rule_format, of 0] todo [of 0] by simp
    show "mset (map snd (fx_out fx_overtaken))
        = mset (concat (map (\<lambda>k. map Some (fc_due_of fc_sample [1] (fx_calls fx_overtaken) k)) [0..<3]))"
      using main [THEN conjunct2] todo calls by simp
  qed
qed

end
