(* ===== verification/Secrecy.thy ===== *)
theory Secrecy
  imports Logger Slog_Handler
begin

text \<open>
  What redaction promises at the level of the whole logger: the values of denied fields do not
  influence anything a call does. The demonstration program \<open>example/main.go\<close>, which logs a password
  through such a logger, is an instance.
\<close>

section \<open>Noninterference\<close>

text \<open>Two lists of fields that differ at most in what the redactor conceals.\<close>

definition mask :: "RedactProcessor \<Rightarrow> Field list \<Rightarrow> Field list" where
  "mask p fs = map (\<lambda>f. if fKey f \<in> Deny p then FString (fKey f) [] else f) fs"

lemma mask_append [simp]: "mask p (fs @ gs) = mask p fs @ mask p gs"
  by (simp add: mask_def)

lemma mask_same:
  assumes "mask p fs = mask p gs"
  shows "map (\<lambda>f. if fKey f \<in> Deny p then FString (fKey f) c else f) fs
    = map (\<lambda>f. if fKey f \<in> Deny p then FString (fKey f) c else f) gs"
proof -
  let ?re = "\<lambda>f. if fKey f \<in> Deny p then FString (fKey f) c else f"
  have "?re f = ?re (if fKey f \<in> Deny p then FString (fKey f) [] else f)" for f by simp
  then have re: "map ?re hs = map ?re (mask p hs)" for hs by (simp add: mask_def)
  show ?thesis unfolding re [of fs] re [of gs] assms ..
qed

lemma Redact_Process_mask:
  assumes "mask p (rFields r) = mask p fs"
  shows "Redact_Process p (r\<lparr>rFields := fs\<rparr>) = Redact_Process p r"
proof -
  have "rFields (Redact_Process p (r\<lparr>rFields := fs\<rparr>)) = rFields (Redact_Process p r)"
    unfolding Redact_Process_fields using mask_same [OF assms] by simp
  then show ?thesis by (simp add: Redact_Process_def Let_def)
qed

text \<open>Samplers look at the level only, so they may stand before the redactor.\<close>

fun is_sampler :: "Processor \<Rightarrow> bool" where
  "is_sampler (PSample s) = True"
| "is_sampler _ = False"

definition redacts :: "RedactProcessor \<Rightarrow> Processor list \<Rightarrow> bool" where
  "redacts p ps \<longleftrightarrow> (\<exists>ps1 ps2. ps = ps1 @ PRedact p # ps2 \<and> list_all is_sampler ps1)"

lemma redactsI: "list_all is_sampler ps1 \<Longrightarrow> redacts p (ps1 @ PRedact p # ps2)"
  by (auto simp: redacts_def)

lemma stages_blind:
  assumes "list_all is_sampler ps1" "mask p (rFields r) = mask p fs"
    and "run_stages (\<lambda>i. Process lib (clock i) ctx) k (ps1 @ PRedact p # ps2) r = (qs, r1, e)"
    and "run_stages (\<lambda>i. Process lib (clock i) ctx) k (ps1 @ PRedact p # ps2) (r\<lparr>rFields := fs\<rparr>) = (qs', r2, e')"
  shows "qs' = qs \<and> e' = e \<and> (e = None \<longrightarrow> r2 = r1) \<and> reset r2 = reset r1 \<and> rPooled r2 = rPooled r1"
  using assms
proof (induction ps1 arbitrary: k qs qs')
  case Nil
  then show ?case by (simp add: Redact_Process_mask)
next
  case (Cons q ps1)
  then obtain s where q: "q = PSample s" by (cases q) auto
  obtain s' x where s: "Sample_Process r s = (s', x)" by fastforce
  have "Sample_Process (r\<lparr>rFields := fs\<rparr>) s = Sample_Process r s" by (simp add: Sample_Process_def)
  with Cons s q show ?case
    by (cases x) (auto simp: reset_def split: prod.splits)
qed

lemma pipeline_blind:
  assumes "redacts p (wd_procs w ! lg_processors l)" "mask p (rFields r) = mask p fs"
  shows "pipeline_dispatch lib i l ctx level (r\<lparr>rFields := fs\<rparr>) w = pipeline_dispatch lib i l ctx level r w"
proof -
  let ?run = "runPipeline lib (li_clock i) ctx (wd_procs w ! lg_processors l)"
  obtain qs r1 e where a: "?run r = (qs, r1, e)" by (metis prod_cases3)
  obtain qs' r2 e' where b: "?run (r\<lparr>rFields := fs\<rparr>) = (qs', r2, e')" by (metis prod_cases3)
  obtain ps1 ps2 where ps: "wd_procs w ! lg_processors l = ps1 @ PRedact p # ps2" "list_all is_sampler ps1"
    using assms(1) by (auto simp: redacts_def)
  have "qs' = qs \<and> e' = e \<and> (e = None \<longrightarrow> r2 = r1) \<and> reset r2 = reset r1 \<and> rPooled r2 = rPooled r1"
    by (rule stages_blind [OF ps(2) assms(2) a [unfolded runPipeline_def ps(1)] b [unfolded runPipeline_def ps(1)]])
  then show ?thesis
    by (cases e) (simp_all add: pipeline_dispatch_def a b release_def update_metrics_def Let_def split: option.split)
qed

lemma blind_fields:
  assumes "redacts p (wd_procs w ! lg_processors l)" "mask p fs = mask p fs'"
  shows "pipeline_dispatch lib i l ctx level (r\<lparr>rFields := gs @ fs\<rparr>) w
    = pipeline_dispatch lib i l ctx level (r\<lparr>rFields := gs @ fs'\<rparr>) w"
  using pipeline_blind [OF assms(1), of "r\<lparr>rFields := gs @ fs'\<rparr>" "gs @ fs" lib i ctx level] assms(2) by simp

lemma calls_blind:
  assumes "redacts p (wd_procs w ! lg_processors l)" "mask p fs = mask p fs'"
  shows "log lib i l ctx level msg fs w = log lib i l ctx level msg fs' w
    \<and> eventAt lib i l ctx level name fs w = eventAt lib i l ctx level name fs' w
    \<and> logAt lib i l ctx t level msg fs w = logAt lib i l ctx t level msg fs' w"
proof -
  have blind: "pipeline_dispatch lib i l c level (r\<lparr>rFields := gs @ fs\<rparr>) (w\<lparr>wd_pool := q\<rparr>)
      = pipeline_dispatch lib i l c level (r\<lparr>rFields := gs @ fs'\<rparr>) (w\<lparr>wd_pool := q\<rparr>)" for c r gs q
    using assms by (intro blind_fields) simp_all
  have pc: "pipeline_dispatch lib i l c level (r\<lparr>rFields := gs @ fs, rPC := x\<rparr>) (w\<lparr>wd_pool := q\<rparr>)
      = pipeline_dispatch lib i l c level (r\<lparr>rFields := gs @ fs', rPC := x\<rparr>) (w\<lparr>wd_pool := q\<rparr>)" for c r gs q x
  proof -
    have "r\<lparr>rFields := a, rPC := x\<rparr> = r\<lparr>rPC := x, rFields := a\<rparr>" for a by (cases r) simp
    note comm = this
    show ?thesis unfolding comm by (rule blind)
  qed
  show ?thesis
    using blind pc by (simp add: log_def eventAt_def logAt_def Let_def split: prod.split)
qed

text \<open>
  C4: Redaction is noninterference. With a redactor in the pipeline (behind at most samplers), two
  calls whose fields differ only in the values of denied keys have the same effect on everything:
  the transport and all that lies behind it, the state of the processors, the metrics and the
  record pool; for messages, named events and the \<open>slog\<close> path alike.
\<close>

theorem redaction_noninterference:
  assumes "redacts p (wd_procs w ! lg_processors l)" "mask p fs = mask p fs'"
  shows "log lib i l ctx level msg fs w = log lib i l ctx level msg fs' w
    \<and> eventAt lib i l ctx level name fs w = eventAt lib i l ctx level name fs' w
    \<and> logAt lib i l ctx t level msg fs w = logAt lib i l ctx t level msg fs' w"
  using assms by (rule calls_blind)

definition secret_world :: "Record list world" where
  "secret_world = \<lparr>wd_levels = (\<lambda>_. 0), wd_procs = [[PSample (NewSampleProcessor 1 1), PRedact (NewRedactProcessor [''pin''])]],
     wd_metrics = [], wd_pool = [], wd_h = []\<rparr>"

definition secret_logger :: "Record list Logger" where
  "secret_logger = \<lparr>lg_leveler = staticLevel LevelTrace, lg_processors = 0,
     lg_transport = \<lparr>tr_Dispatch = (\<lambda>lv r rs. rs @ [r]), tr_Dropped = (\<lambda>rs. 0), tr_Sync = Pair None, tr_Close = Pair None\<rparr>,
     lg_with = [], lg_addCaller = False, lg_callerSkip = 0, lg_metrics = None\<rparr>"

theorem redaction_noninterference_witness:
  "\<forall>lib i. log lib i secret_logger None 9 ''m'' [FString ''pin'' ''1234''] secret_world
     = log lib i secret_logger None 9 ''m'' [FString ''pin'' ''0000''] secret_world"
proof (intro allI)
  fix lib i
  have "redacts (NewRedactProcessor [''pin'']) (wd_procs secret_world ! lg_processors secret_logger)"
    using redactsI [of "[PSample (NewSampleProcessor 1 1)]"] by (simp add: secret_world_def secret_logger_def)
  moreover have "mask (NewRedactProcessor [''pin'']) [FString ''pin'' ''1234''] = mask (NewRedactProcessor [''pin'']) [FString ''pin'' ''0000'']"
    by (simp add: mask_def NewRedactProcessor_def)
  ultimately show "log lib i secret_logger None 9 ''m'' [FString ''pin'' ''1234''] secret_world
     = log lib i secret_logger None 9 ''m'' [FString ''pin'' ''0000''] secret_world"
    using redaction_noninterference by blast
qed

section \<open>The example program\<close>

text \<open>
  \<open>example/main.go\<close>. The inputs are those of its five logging calls and the process id; \<open>mk\<close> builds the
  channel transport (capacity 1024, \<open>DropNewest\<close>) on a sink, and \<open>a\<close> is the address of the level. The
  password is an argument; the program has it as a literal.
\<close>

definition slog_Info :: "golib \<Rightarrow> log_in \<Rightarrow> 'h slogHandler \<Rightarrow> string \<Rightarrow> sattr list \<Rightarrow> 'h world \<Rightarrow> 'h world" where
  "slog_Info lib i h msg as w =
     (if slog_Enabled h 0 w
      then snd (slog_Handle lib i h (Some Background) \<lparr>sr_Time = li_now i, sr_Level = 0, sr_Message = msg, sr_Attrs = as\<rparr> w)
      else w)"

definition example_logger ::
  "golib \<Rightarrow> 'w env \<Rightarrow> (Sink \<Rightarrow> 'w heap Transport) \<Rightarrow> nat \<Rightarrow> 'w heap world \<Rightarrow> 'w heap Logger \<times> 'w heap world" where
  "example_logger lib ev mk a w =
     (let console = NewWriterSink 1 (EncConsole (NewConsoleEncoder\<lparr>Color := True\<rparr>)) LevelDebug;
          jsonSink = NewWriterSink 2 (EncJSON NewJSONEncoder) LevelInfo;
          fan = NewFanout [console, jsonSink];
          (lvl, levels) = NewLevelVar a LevelDebug (wd_levels w)
      in New lib ev
           [WithLeveler lvl,
            WithProcessors [PRedact (NewRedactProcessor [''password'', ''token'']), PSample (NewSampleProcessor 3 100)],
            WithTransport (mk fan),
            WithCaller 0] (w\<lparr>wd_levels := levels\<rparr>))"

definition example_main ::
  "golib \<Rightarrow> 'w env \<Rightarrow> (Sink \<Rightarrow> 'w heap Transport) \<Rightarrow> nat \<Rightarrow> (nat \<Rightarrow> log_in) \<Rightarrow> int \<Rightarrow> string \<Rightarrow> 'w heap world \<Rightarrow> 'w heap world" where
  "example_main lib ev mk a i pid password w0 =
     (let (l, w) = example_logger lib ev mk a w0;
          w = Logger_Info lib (i 0) l ''service starting'' [FString ''svc'' ''demo'', FInt (IntTy True 64) ''pid'' pid] w;
          w = Logger_Debug lib (i 1) l ''config loaded'' [FBool ''cache'' True] w;
          w = Logger_Info lib (i 2) l ''user login'' [FString ''user'' ''ada'', FString ''password'' password] w;
          sl = Handler l;
          w = slog_Info lib (i 3) sl ''via slog'' [SAttr ''order_id'' (SVInt64 991), SAttr ''amount'' (SVFloat64 0x4045400000000000)] w;
          w = Logger_Error lib (i 4) l ''boom'' [FErr (Some (GoErr ''permission denied''))] w
      in snd (Logger_Close l w))"

lemma example_masked:
  "mask (NewRedactProcessor [''password'', ''token'']) [FString ''user'' ''ada'', FString ''password'' s]
   = mask (NewRedactProcessor [''password'', ''token'']) [FString ''user'' ''ada'', FString ''password'' s']"
  by (simp add: mask_def NewRedactProcessor_def)

text \<open>The redactor stays at the head of the pipeline.\<close>

definition headed :: "RedactProcessor \<Rightarrow> 'h Logger \<Rightarrow> 'h world \<Rightarrow> bool" where
  "headed p l w \<longleftrightarrow> lg_processors l < length (wd_procs w) \<and> (\<exists>ps. wd_procs w ! lg_processors l = PRedact p # ps)"

lemma headed_redacts: "headed p l w \<Longrightarrow> redacts p (wd_procs w ! lg_processors l)"
  using redactsI [of "[]" p] by (auto simp: headed_def)

lemma headed_dispatch:
  assumes "headed p l w"
  shows "headed p l (pipeline_dispatch lib i l ctx level r (w\<lparr>wd_pool := q\<rparr>))"
proof -
  obtain ps where ps: "wd_procs w ! lg_processors l = PRedact p # ps" "lg_processors l < length (wd_procs w)"
    using assms by (auto simp: headed_def)
  obtain qs r1 e where run: "run_stages (\<lambda>j. Process lib (li_clock i j) ctx) 1 ps (Redact_Process p r) = (qs, r1, e)" by (metis prod_cases3)
  have "runPipeline lib (li_clock i) ctx (PRedact p # ps) r = (PRedact p # qs, r1, e)"
    using run by (simp add: runPipeline_def)
  then show ?thesis using ps
    by (cases e) (simp_all add: headed_def pipeline_dispatch_def update_metrics_def Let_def split: option.split)
qed

lemma headed_log: "headed p l w \<Longrightarrow> headed p l (log lib i l ctx level msg fs w)"
  by (simp add: log_def Let_def headed_dispatch split: prod.split)

text \<open>
  The example program keeps its secret: whatever the transport and the sinks do, its run with one
  password ends in the same state, down to every byte handed to a writer, as its run with any
  other.
\<close>

lemma example_secret: "example_main lib ev mk a i pid s w = example_main lib ev mk a i pid s' w"
proof -
  let ?p = "NewRedactProcessor [''password'', ''token'']"
  obtain l w1 where l: "example_logger lib ev mk a w = (l, w1)" by fastforce
  have "headed ?p l w1" using l by (auto simp: example_logger_def New_def headed_def NewLevelVar_def Let_def)
  then have "headed ?p l (Logger_Debug lib (i 1) l ''config loaded'' [FBool ''cache'' True]
      (Logger_Info lib (i 0) l ''service starting'' [FString ''svc'' ''demo'', FInt (IntTy True 64) ''pid'' pid] w1))"
    unfolding Logger_Info_def Logger_Debug_def by (intro headed_log)
  from calls_blind [OF headed_redacts [OF this] example_masked, of lib "i 2" "Some Background" LevelInfo "''user login''" s s']
  show ?thesis by (simp add: example_main_def l Logger_Info_def Let_def)
qed

end
