(* ===== verification/Slices.thy ===== *)
theory Slices
  imports Logger
begin

text \<open>
  Field slices in memory. Elsewhere in the development the fields of a record, a logger or a context
  are values; in the code they are slices of arrays that \<open>append\<close> extends in place, that the pool
  hands from one record to the next and that redaction overwrites. Here the arrays are a store,
  the record and logger operations work on slices, and the theorems show that sharing is
  unobservable: the operations on memory implement those on values, and no slice that a
  logger, a context, a caller or a clone holds ever changes. This theory has the slices, the records
  and the processors; \<open>Slice_Logger\<close> has the logger, \<open>Slice_Sharing\<close> the goroutines.
\<close>

section \<open>Slices\<close>

text \<open>
  An address is an index of the store; an array keeps its capacity. Every slice of the code starts
  at the beginning of its array; the nil slice has none.
\<close>

type_synonym fmem = "Field list list"

record slice =
  sl_arr :: "nat option"
  sl_len :: nat

definition nil_slice :: slice where
  "nil_slice = \<lparr>sl_arr = None, sl_len = 0\<rparr>"

definition zeroField :: Field where
  "zeroField = mkField [] kindAny 0 [] VNil"

definition sl_cap :: "fmem \<Rightarrow> slice \<Rightarrow> nat" where
  "sl_cap m s = (case sl_arr s of None \<Rightarrow> 0 | Some a \<Rightarrow> length (m ! a))"

definition sl_read :: "fmem \<Rightarrow> slice \<Rightarrow> Field list" where
  "sl_read m s = (case sl_arr s of None \<Rightarrow> [] | Some a \<Rightarrow> take (sl_len s) (m ! a))"

definition sl_trunc :: "slice \<Rightarrow> slice" where
  "sl_trunc s = s\<lparr>sl_len := 0\<rparr>"

definition sl_modify :: "(Field list \<Rightarrow> Field list) \<Rightarrow> slice \<Rightarrow> fmem \<Rightarrow> fmem" where
  "sl_modify g s m = (case sl_arr s of None \<Rightarrow> m | Some a \<Rightarrow> m[a := g (m ! a)])"

definition sl_make :: "nat \<Rightarrow> fmem \<Rightarrow> slice \<times> fmem" where
  "sl_make n m = (\<lparr>sl_arr = Some (length m), sl_len = 0\<rparr>, m @ [replicate n zeroField])"

text \<open>
  \<open>append\<close> writes behind the slice while the capacity lasts, even where another slice of the array
  reads, and copies to a new array otherwise. \<open>grow\<close> is the growth rule of the runtime, from the old
  capacity and the length needed; whatever it answers, the new array is long enough.
\<close>

definition sl_append :: "(nat \<Rightarrow> nat \<Rightarrow> nat) \<Rightarrow> slice \<Rightarrow> Field list \<Rightarrow> fmem \<Rightarrow> slice \<times> fmem" where
  "sl_append grow s xs m =
     (let n = sl_len s + length xs
      in if n \<le> sl_cap m s
         then (s\<lparr>sl_len := n\<rparr>, sl_modify (\<lambda>arr. take (sl_len s) arr @ xs @ drop n arr) s m)
         else (\<lparr>sl_arr = Some (length m), sl_len = n\<rparr>,
               m @ [sl_read m s @ xs @ replicate (grow (sl_cap m s) n - n) zeroField]))"

definition sl_ok :: "fmem \<Rightarrow> slice \<Rightarrow> bool" where
  "sl_ok m s = (case sl_arr s of None \<Rightarrow> sl_len s = 0 | Some a \<Rightarrow> a < length m \<and> sl_len s \<le> length (m ! a))"

definition apart :: "slice \<Rightarrow> slice \<Rightarrow> bool" where
  "apart s t \<longleftrightarrow> sl_arr s = None \<or> sl_arr s \<noteq> sl_arr t"

lemmas slice_defs = sl_cap_def sl_read_def sl_trunc_def sl_modify_def sl_ok_def

text \<open>
  What the owner of the slice \<open>s\<close> may do to memory, ending with \<open>s'\<close>: write its own array, allocate,
  and move to a new array.
\<close>

definition own_step :: "slice \<Rightarrow> fmem \<Rightarrow> slice \<Rightarrow> fmem \<Rightarrow> bool" where
  "own_step s m s' m' \<longleftrightarrow>
     length m \<le> length m' \<and> (\<forall>b < length m. sl_arr s \<noteq> Some b \<longrightarrow> m' ! b = m ! b) \<and>
     (\<forall>b < length m. length (m' ! b) = length (m ! b)) \<and>
     (sl_arr s' = sl_arr s \<or> (\<exists>b. length m \<le> b \<and> sl_arr s' = Some b)) \<and> sl_ok m' s'"

lemma own_step_refl: "sl_ok m s \<Longrightarrow> own_step s m s m"
  by (simp add: own_step_def)

lemma own_step_trans [trans]: "own_step s m s1 m1 \<Longrightarrow> own_step s1 m1 s2 m2 \<Longrightarrow> own_step s m s2 m2"
proof -
  assume 1: "own_step s m s1 m1" and 2: "own_step s1 m1 s2 m2"
  have len: "length m \<le> length m1" "length m1 \<le> length m2" using 1 2 by (simp_all add: own_step_def)
  have "sl_arr s1 \<noteq> Some b" if "b < length m" "sl_arr s \<noteq> Some b" for b
    using 1 that by (auto simp: own_step_def)
  then have "m2 ! b = m ! b" if "b < length m" "sl_arr s \<noteq> Some b" for b
    using 1 2 len that by (simp add: own_step_def)
  moreover have "length (m2 ! b) = length (m ! b)" if "b < length m" for b
    using 1 2 len that by (simp add: own_step_def)
  moreover have "sl_arr s2 = sl_arr s \<or> (\<exists>b. length m \<le> b \<and> sl_arr s2 = Some b)"
    using 1 2 len unfolding own_step_def by (metis le_trans)
  ultimately show ?thesis using 2 len by (simp add: own_step_def)
qed

lemma own_step_ok: "own_step s m s' m' \<Longrightarrow> sl_ok m' s'"
  by (simp add: own_step_def)

text \<open>A slice of another array survives, with its contents, and stays apart.\<close>

lemma own_step_frame:
  assumes "own_step s m s' m'" "sl_ok m t" "apart t s"
  shows "sl_ok m' t" "sl_read m' t = sl_read m t" "apart t s'"
proof -
  have "sl_ok m' t \<and> sl_read m' t = sl_read m t \<and> apart t s'"
  proof (cases "sl_arr t")
    case None
    then show ?thesis using assms(2) by (simp add: sl_ok_def sl_read_def apart_def)
  next
    case (Some b)
    then have b: "b < length m" "sl_len t \<le> length (m ! b)" "sl_arr s \<noteq> Some b"
      using assms(2,3) by (auto simp: sl_ok_def apart_def)
    then have "m' ! b = m ! b" "b < length m'" using assms(1) by (auto simp: own_step_def)
    moreover have "apart t s'" using assms(1) b(1,3) Some by (auto simp: own_step_def apart_def)
    ultimately show ?thesis using Some b by (simp add: sl_ok_def sl_read_def)
  qed
  then show "sl_ok m' t" "sl_read m' t = sl_read m t" "apart t s'" by simp_all
qed

section \<open>Operations of the owner\<close>

lemma sl_ok_nil [simp]: "sl_ok m nil_slice" and sl_read_nil [simp]: "sl_read m nil_slice = []"
  by (simp_all add: nil_slice_def sl_ok_def sl_read_def)

lemma apart_nil [simp]: "apart nil_slice s" "apart s nil_slice"
  by (auto simp: apart_def nil_slice_def)

lemma sl_read_length: "sl_ok m s \<Longrightarrow> length (sl_read m s) = sl_len s"
  by (auto simp: sl_ok_def sl_read_def split: option.splits)

lemma sl_append_own: "sl_ok m s \<Longrightarrow> sl_append grow s xs m = (s', m') \<Longrightarrow> own_step s m s' m'"
  by (cases "sl_arr s") (auto simp: sl_append_def own_step_def slice_defs Let_def nth_append nth_list_update split: if_splits)

lemma sl_append_read: "sl_ok m s \<Longrightarrow> sl_append grow s xs m = (s', m') \<Longrightarrow> sl_read m' s' = sl_read m s @ xs"
  by (cases "sl_arr s") (auto simp: sl_append_def slice_defs Let_def split: if_splits)

lemma sl_trunc_own: "sl_ok m s \<Longrightarrow> own_step s m (sl_trunc s) m" and sl_trunc_read [simp]: "sl_read m (sl_trunc s) = []"
  by (auto simp: own_step_def slice_defs split: option.splits)

lemma sl_modify_own:
  "sl_ok m s \<Longrightarrow> (\<And>arr. length (g arr) = length arr) \<Longrightarrow> own_step s m s (sl_modify g s m)"
  by (auto simp: own_step_def slice_defs nth_list_update split: option.splits)

lemma sl_make_facts:
  "sl_make n m = (s, m') \<Longrightarrow> sl_ok m' s \<and> sl_read m' s = [] \<and> own_step nil_slice m s m'
     \<and> (\<forall>t. sl_ok m t \<longrightarrow> apart t s)"
  by (auto simp: sl_make_def own_step_def slice_defs nil_slice_def nth_append apart_def split: option.splits)

section \<open>Records in memory\<close>

record mRecord =
  mTime :: gtime
  mLevel :: Level
  mMessage :: string
  mPC :: u64
  mEventName :: string
  mFields :: slice
  mCtx :: "gctx option"
  mPooled :: bool

definition rec_of :: "fmem \<Rightarrow> mRecord \<Rightarrow> Record" where
  "rec_of m r = \<lparr>rTime = mTime r, rLevel = mLevel r, rMessage = mMessage r, rPC = mPC r, rEventName = mEventName r,
     rFields = sl_read m (mFields r), rCtx = mCtx r, rPooled = mPooled r\<rparr>"

definition zero_m :: mRecord where
  "zero_m = \<lparr>mTime = 0, mLevel = 0, mMessage = [], mPC = 0, mEventName = [], mFields = nil_slice, mCtx = None, mPooled = False\<rparr>"

definition newRecord_m :: "nat option \<Rightarrow> mRecord list \<Rightarrow> mRecord \<times> mRecord list" where
  "newRecord_m pick pool =
     (let (r, pool') = (case pick of
          None \<Rightarrow> (zero_m, pool)
        | Some i \<Rightarrow> if i < length pool then (pool ! i, take i pool @ drop (Suc i) pool)
                    else (zero_m, pool))
      in (r\<lparr>mPooled := True\<rparr>, pool'))"

definition reset_m :: "mRecord \<Rightarrow> mRecord" where
  "reset_m r = r\<lparr>mTime := 0, mLevel := 0, mMessage := [], mEventName := [], mPC := 0,
     mFields := sl_trunc (mFields r), mCtx := None\<rparr>"

definition release_m :: "mRecord \<Rightarrow> mRecord list \<Rightarrow> mRecord list" where
  "release_m r pool = (if \<not> mPooled r then pool else pool @ [reset_m r])"

definition Clone_m :: "(nat \<Rightarrow> nat \<Rightarrow> nat) \<Rightarrow> mRecord \<Rightarrow> fmem \<Rightarrow> mRecord \<times> fmem" where
  "Clone_m grow r m =
     (let c = zero_m\<lparr>mTime := mTime r, mLevel := mLevel r, mMessage := mMessage r,
            mEventName := mEventName r, mPC := mPC r, mCtx := mCtx r\<rparr>;
          (s, m) = sl_make (sl_len (mFields r)) m;
          (s, m) = sl_append grow s (sl_read m (mFields r)) m
      in (c\<lparr>mFields := s\<rparr>, m))"

definition append_fields :: "(nat \<Rightarrow> nat \<Rightarrow> nat) \<Rightarrow> Field list \<Rightarrow> mRecord \<times> fmem \<Rightarrow> mRecord \<times> fmem" where
  "append_fields grow xs rm = (case rm of (r, m) \<Rightarrow> (case sl_append grow (mFields r) xs m of (s, m) \<Rightarrow> (r\<lparr>mFields := s\<rparr>, m)))"

definition AddField_m :: "(nat \<Rightarrow> nat \<Rightarrow> nat) \<Rightarrow> Field \<Rightarrow> mRecord \<times> fmem \<Rightarrow> mRecord \<times> fmem" where
  "AddField_m grow f rm = append_fields grow [f] rm"

lemma rec_of_simps [simp]:
  "rFields (rec_of m r) = sl_read m (mFields r)" "rLevel (rec_of m r) = mLevel r" "rMessage (rec_of m r) = mMessage r"
  "rCtx (rec_of m r) = mCtx r" "rPooled (rec_of m r) = mPooled r"
  by (simp_all add: rec_of_def)

text \<open>An operation of the record's owner that implements \<open>f\<close> on values.\<close>

definition implements :: "mRecord \<Rightarrow> fmem \<Rightarrow> mRecord \<Rightarrow> fmem \<Rightarrow> (Record \<Rightarrow> Record) \<Rightarrow> bool" where
  "implements r m r' m' f \<longleftrightarrow> rec_of m' r' = f (rec_of m r) \<and> own_step (mFields r) m (mFields r') m'"

lemma append_fields_implements:
  assumes "sl_ok m (mFields r)" "append_fields grow xs (r, m) = (r', m')"
  shows "implements r m r' m' (\<lambda>v. v\<lparr>rFields := rFields v @ xs\<rparr>)"
proof -
  obtain s where s: "sl_append grow (mFields r) xs m = (s, m')" "r' = r\<lparr>mFields := s\<rparr>"
    using assms(2) by (auto simp: append_fields_def split: prod.splits)
  show ?thesis using sl_append_own [OF assms(1) s(1)] sl_append_read [OF assms(1) s(1)] s(2)
    by (simp add: implements_def rec_of_def)
qed

lemma implements_trans:
  "implements r m r1 m1 f \<Longrightarrow> implements r1 m1 r2 m2 g \<Longrightarrow> implements r m r2 m2 (g \<circ> f)"
  unfolding implements_def using own_step_trans by auto

lemma implements_refl: "sl_ok m (mFields r) \<Longrightarrow> implements r m r m (\<lambda>v. v)"
  by (simp add: implements_def own_step_refl)

lemma implements_ok: "implements r m r' m' f \<Longrightarrow> sl_ok m' (mFields r')"
  unfolding implements_def by (blast intro: own_step_ok)

section \<open>Processors in memory\<close>

definition Redact_m :: "RedactProcessor \<Rightarrow> mRecord \<Rightarrow> fmem \<Rightarrow> mRecord \<times> fmem" where
  "Redact_m p r m =
     (let c = (if Censor p = [] then REDACTED else Censor p)
      in (r, fold (\<lambda>i. sl_modify (redact_at p c i) (mFields r)) [0..<sl_len (mFields r)] m))"

text \<open>\<open>dst\<close> starts as the empty prefix of the array the loop reads.\<close>

definition path_m :: "(nat \<Rightarrow> nat \<Rightarrow> nat) \<Rightarrow> golib \<Rightarrow> PathRedactor \<Rightarrow> slice \<Rightarrow> nat \<Rightarrow> slice \<times> fmem \<Rightarrow> slice \<times> fmem" where
  "path_m grow lib pr s i st =
     (case st of (dst, m) \<Rightarrow>
        (let f = sl_read m s ! i
         in if \<not> pr_matches pr (fKey f) then sl_append grow dst [f] m
            else (case pr_strategy pr of
                    Drop \<Rightarrow> (dst, m)
                  | Hash \<Rightarrow> sl_append grow dst [FString (fKey f) (hashValue lib f)] m
                  | Mask \<Rightarrow> sl_append grow dst [FString (fKey f) (pr_censor pr)] m)))"

definition Path_m :: "(nat \<Rightarrow> nat \<Rightarrow> nat) \<Rightarrow> golib \<Rightarrow> PathRedactor \<Rightarrow> mRecord \<Rightarrow> fmem \<Rightarrow> mRecord \<times> fmem" where
  "Path_m grow lib pr r m =
     (let dst = sl_trunc (mFields r);
          (dst, m) = fold (path_m grow lib pr (mFields r)) [0..<sl_len (mFields r)] (dst, m)
      in (r\<lparr>mFields := dst\<rparr>, m))"

definition Dedup_m ::
  "(nat \<Rightarrow> nat \<Rightarrow> nat) \<Rightarrow> gtime \<Rightarrow> mRecord \<Rightarrow> fmem \<Rightarrow> DedupProcessor \<Rightarrow> DedupProcessor \<times> mRecord \<times> fmem \<times> perr option" where
  "Dedup_m grow now r m d =
     (let key = Level_String (mLevel r) @ [CHR 0x00] @ mMessage r;
          (last, suppressed) = (case dd_seen d key of None \<Rightarrow> (0, 0) | Some st \<Rightarrow> st)
      in if last \<noteq> 0 \<and> time_Sub now last < dd_Window d
         then (d\<lparr>dd_seen := (dd_seen d)(key \<mapsto> (last, suppressed + 1))\<rparr>, r, m, Some ErrDrop)
         else (let n = suppressed;
                   d = d\<lparr>dd_seen := (dd_seen d)(key \<mapsto> (now, 0))\<rparr>;
                   (r, m) = (if 0 < n
                        then append_fields grow [FInt (IntTy False 64) ''deduped_count'' (uint n)] (r, m)
                        else (r, m))
               in (d, r, m, None)))"

fun enrich_trace_m ::
  "(nat \<Rightarrow> nat \<Rightarrow> nat) \<Rightarrow> string \<Rightarrow> string \<Rightarrow> gctx \<Rightarrow> TraceExtractor list \<Rightarrow> mRecord \<times> fmem \<Rightarrow> mRecord \<times> fmem" where
  "enrich_trace_m grow tk sk c [] rm = rm"
| "enrich_trace_m grow tk sk c (ex # exs) rm =
     (case ex c of (tid, sid, ok) \<Rightarrow>
        if ok then
          (let rm = (if tid \<noteq> [] then append_fields grow [FString tk tid] rm else rm)
           in if sid \<noteq> [] then append_fields grow [FString sk sid] rm else rm)
        else enrich_trace_m grow tk sk c exs rm)"

text \<open>A context with the slice it holds under \<open>ctxFieldsKey\<close>; in the pipeline the context is never nil.\<close>

type_synonym mctx = "gctx \<times> slice"

definition Enrich_m :: "(nat \<Rightarrow> nat \<Rightarrow> nat) \<Rightarrow> mctx \<Rightarrow> EnrichProcessor \<Rightarrow> mRecord \<Rightarrow> fmem \<Rightarrow> mRecord \<times> fmem" where
  "Enrich_m grow ctx e r m =
     (case ctx of (c, bound) \<Rightarrow>
        (let rm = (if 0 < sl_len bound then append_fields grow (sl_read m bound) (r, m) else (r, m));
             tk = (if ep_TraceKey e = [] then ''trace_id'' else ep_TraceKey e);
             sk = (if ep_SpanKey e = [] then ''span_id'' else ep_SpanKey e)
         in enrich_trace_m grow tk sk c (ep_Extractors e) rm))"

text \<open>
  A \<open>ProcessorFunc\<close> that keeps to the rule of the interface, ``mutate r in place'': what it makes of the
  record it writes into the record.
\<close>

definition Func_m ::
  "(nat \<Rightarrow> nat \<Rightarrow> nat) \<Rightarrow> (gctx \<Rightarrow> Record \<Rightarrow> Record \<times> perr option) \<Rightarrow> gctx \<Rightarrow> mRecord \<Rightarrow> fmem \<Rightarrow> mRecord \<times> fmem \<times> perr option" where
  "Func_m grow f c r m =
     (let (v, e) = f c (rec_of m r);
          (s, m) = sl_append grow (sl_trunc (mFields r)) (rFields v) m
      in (\<lparr>mTime = rTime v, mLevel = rLevel v, mMessage = rMessage v, mPC = rPC v, mEventName = rEventName v,
           mFields = s, mCtx = rCtx v, mPooled = rPooled v\<rparr>, m, e))"

fun Process_m ::
  "(nat \<Rightarrow> nat \<Rightarrow> nat) \<Rightarrow> golib \<Rightarrow> gtime \<Rightarrow> mctx \<Rightarrow> Processor \<Rightarrow> mRecord \<Rightarrow> fmem \<Rightarrow> Processor \<times> mRecord \<times> fmem \<times> perr option" where
  "Process_m grow lib now ctx (ProcessorFunc f) r m = (let (r, m, e) = Func_m grow f (fst ctx) r m in (ProcessorFunc f, r, m, e))"
| "Process_m grow lib now ctx (PRedact p) r m = (let (r, m) = Redact_m p r m in (PRedact p, r, m, None))"
| "Process_m grow lib now ctx (PSample p) r m = (let (p, e) = Sample_Process (rec_of m r) p in (PSample p, r, m, e))"
| "Process_m grow lib now ctx (PPath p) r m = (let (r, m) = Path_m grow lib p r m in (PPath p, r, m, None))"
| "Process_m grow lib now ctx (PDedup d) r m = (let (d, r, m, e) = Dedup_m grow now r m d in (PDedup d, r, m, e))"
| "Process_m grow lib now ctx (PEnrich e) r m = (let (r, m) = Enrich_m grow ctx e r m in (PEnrich e, r, m, None))"

fun run_stages_m ::
  "(nat \<Rightarrow> 'p \<Rightarrow> mRecord \<Rightarrow> fmem \<Rightarrow> 'p \<times> mRecord \<times> fmem \<times> perr option) \<Rightarrow> nat \<Rightarrow> 'p list \<Rightarrow> mRecord \<Rightarrow> fmem
     \<Rightarrow> 'p list \<times> mRecord \<times> fmem \<times> perr option" where
  "run_stages_m process i [] r m = ([], r, m, None)"
| "run_stages_m process i (p # ps) r m =
     (case process i p r m of
        (p', r', m', Some e) \<Rightarrow> (p' # ps, r', m', Some e)
      | (p', r', m', None) \<Rightarrow>
          (case run_stages_m process (i + 1) ps r' m' of (ps', r'', m'', e) \<Rightarrow> (p' # ps', r'', m'', e)))"

section \<open>The processors implement those on values\<close>

lemma fold_modify:
  "(\<And>a. sl_arr s = Some a \<Longrightarrow> a < length m) \<Longrightarrow> fold (\<lambda>i. sl_modify (g i) s) ks m = sl_modify (fold g ks) s m"
  by (induction ks arbitrary: m) (auto simp: sl_modify_def split: option.splits)

lemma sl_ok_addr: "sl_ok m s \<Longrightarrow> sl_arr s = Some a \<Longrightarrow> a < length m"
  by (simp add: sl_ok_def)

lemma redact_at_length [simp]: "length (redact_at p c i fs) = length fs"
  by (simp add: redact_at_def)

lemma fold_redact_length [simp]: "length (fold (redact_at p c) ks fs) = length fs"
  by (induction ks arbitrary: fs) simp_all

lemma fold_redact_take:
  "n \<le> length fs \<Longrightarrow> take n (fold (redact_at p c) [0..<n] fs) = fold (redact_at p c) [0..<n] (take n fs)"
  by (simp add: fold_redact_at)

lemma Redact_m_implements:
  assumes "sl_ok m (mFields r)" "Redact_m p r m = (r', m')"
  shows "implements r m r' m' (Redact_Process p)"
proof -
  let ?s = "mFields r" and ?c = "if Censor p = [] then REDACTED else Censor p"
  have m': "r' = r" "m' = sl_modify (fold (redact_at p ?c) [0..<sl_len ?s]) ?s m"
    using assms(2) fold_modify [of ?s m, OF sl_ok_addr [OF assms(1)]] by (auto simp: Redact_m_def Let_def)
  have "sl_read m' ?s = fold (redact_at p ?c) [0..<sl_len ?s] (sl_read m ?s)"
    using assms(1) m'(2) by (auto simp: slice_defs fold_redact_take split: option.splits)
  then have "rec_of m' r = Redact_Process p (rec_of m r)"
    using sl_read_length [OF assms(1)] by (simp add: Redact_Process_def rec_of_def)
  moreover have "own_step ?s m ?s m'" unfolding m' by (rule sl_modify_own [OF assms(1)]) simp
  ultimately show ?thesis using m' by (simp add: implements_def)
qed

text \<open>The loop of the path redactor only ever writes where it has already read.\<close>

lemma path_m_step:
  assumes "sl_arr s = Some a" "a < length m" "j \<le> i" "i < sl_len s" "sl_len s \<le> length (m ! a)"
    "path_step lib pr i (take (sl_len s) (m ! a), j) = (arr', j')"
  shows "path_m grow lib pr s i (s\<lparr>sl_len := j\<rparr>, m) = (s\<lparr>sl_len := j'\<rparr>, m[a := arr' @ drop (sl_len s) (m ! a)])
    \<and> j' \<le> Suc i \<and> length arr' = sl_len s"
proof -
  have upd: "take j (m ! a) @ f # drop (Suc j) (m ! a) = (take (sl_len s) (m ! a))[j := f] @ drop (sl_len s) (m ! a)" for f
  proof -
    have "take j (m ! a) @ f # drop (Suc j) (m ! a) = (m ! a)[j := f]"
      using assms(3-5) by (simp add: upd_conv_take_nth_drop)
    also have "\<dots> = (take (sl_len s) (m ! a) @ drop (sl_len s) (m ! a))[j := f]" by simp
    also have "\<dots> = (take (sl_len s) (m ! a))[j := f] @ drop (sl_len s) (m ! a)"
      using assms(3-5) by (simp only: list_update_append) simp
    finally show ?thesis .
  qed
  have app: "sl_append grow (s\<lparr>sl_len := j\<rparr>) [f] m
      = (s\<lparr>sl_len := Suc j\<rparr>, m[a := (take (sl_len s) (m ! a))[j := f] @ drop (sl_len s) (m ! a)])" for f
    using assms(1-5) upd [of f] by (simp add: sl_append_def sl_cap_def sl_modify_def)
  have "sl_read m s ! i = take (sl_len s) (m ! a) ! i" using assms(1) by (simp add: sl_read_def)
  moreover have "m[a := take (sl_len s) (m ! a) @ drop (sl_len s) (m ! a)] = m" by simp
  ultimately show ?thesis using assms(3-6)
    by (auto simp: path_m_def path_step_def Let_def app split: if_splits RedactStrategy.splits)
qed

lemma path_m_loop:
  assumes "sl_arr s = Some a" "a < length m" "sl_len s \<le> length (m ! a)" "n \<le> sl_len s"
    "fold (path_step lib pr) [0..<n] (take (sl_len s) (m ! a), 0) = (arr, j)"
  shows "fold (path_m grow lib pr s) [0..<n] (sl_trunc s, m) = (s\<lparr>sl_len := j\<rparr>, m[a := arr @ drop (sl_len s) (m ! a)])
    \<and> j \<le> n \<and> length arr = sl_len s"
  using assms(4,5)
proof (induction n arbitrary: arr j)
  case 0
  then show ?case using assms by (auto simp: sl_trunc_def)
next
  case (Suc n)
  obtain arr1 j1 where 1: "fold (path_step lib pr) [0..<n] (take (sl_len s) (m ! a), 0) = (arr1, j1)" by fastforce
  let ?m = "m[a := arr1 @ drop (sl_len s) (m ! a)]"
  have IH: "fold (path_m grow lib pr s) [0..<n] (sl_trunc s, m) = (s\<lparr>sl_len := j1\<rparr>, ?m)" "j1 \<le> n" "length arr1 = sl_len s"
    using Suc.IH [OF _ 1] Suc.prems(1) by auto
  have "path_step lib pr n (take (sl_len s) (?m ! a), j1) = (arr, j)"
    using Suc.prems(2) 1 IH(3) assms(2) by simp
  from path_m_step [OF assms(1) _ IH(2) _ _ this, of grow] show ?case
    using IH assms(2,3) Suc.prems(1) by simp
qed

lemma Path_m_implements:
  assumes "sl_ok m (mFields r)" "Path_m grow lib pr r m = (r', m')"
  shows "implements r m r' m' (Path_Process lib pr)"
proof (cases "sl_arr (mFields r)")
  case None
  then show ?thesis using assms
    by (auto simp: implements_def Path_m_def Path_Process_def rec_of_def own_step_def slice_defs)
next
  case (Some a)
  let ?s = "mFields r"
  have a: "a < length m" "sl_len ?s \<le> length (m ! a)" using assms(1) Some by (simp_all add: sl_ok_def)
  obtain arr j where f: "fold (path_step lib pr) [0..<sl_len ?s] (take (sl_len ?s) (m ! a), 0) = (arr, j)" by fastforce
  note loop = path_m_loop [OF Some a order_refl f, of grow]
  have r': "r' = r\<lparr>mFields := ?s\<lparr>sl_len := j\<rparr>\<rparr>" "m' = m[a := arr @ drop (sl_len ?s) (m ! a)]"
    using assms(2) loop by (simp_all add: Path_m_def)
  have "rec_of m' r' = Path_Process lib pr (rec_of m r)"
    using Some a f loop r' by (simp add: Path_Process_def rec_of_def sl_read_def)
  moreover have "own_step ?s m (mFields r') m'"
    using Some a loop r' by (auto simp: own_step_def sl_ok_def nth_list_update)
  ultimately show ?thesis by (simp add: implements_def)
qed

lemma Dedup_m_implements:
  assumes "sl_ok m (mFields r)" "Dedup_m grow now r m d = (d', r', m', e)"
  shows "Dedup_Process now (rec_of m r) d = (d', rec_of m' r', e) \<and> own_step (mFields r) m (mFields r') m'"
proof -
  obtain last n where st: "(case dd_seen d (dedup_key (rec_of m r)) of None \<Rightarrow> (0, 0) | Some st \<Rightarrow> st) = (last, n)" by fastforce
  let ?f = "[FInt (IntTy False 64) ''deduped_count'' (uint n)]"
  obtain r1 m1 where app: "append_fields grow ?f (r, m) = (r1, m1)" by fastforce
  note 1 = append_fields_implements [OF assms(1) app]
  show ?thesis
    using assms(2) st app 1 own_step_refl [OF assms(1)]
    by (auto simp: Dedup_m_def Dedup_Process_def dedup_key_def Let_def implements_def split: if_splits)
qed

lemma enrich_trace_m_implements:
  assumes "sl_ok m (mFields r)" "enrich_trace_m grow tk sk c exs (r, m) = (r', m')"
  shows "implements r m r' m' (\<lambda>v. v\<lparr>rFields := enrich_trace tk sk c exs (rFields v)\<rparr>)"
  using assms
proof (induction exs)
  case Nil
  then show ?case using implements_refl by (simp add: implements_def)
next
  case (Cons ex exs)
  obtain tid sid ok where ex: "ex c = (tid, sid, ok)" by (metis prod_cases3)
  show ?case
  proof (cases ok)
    case False
    then show ?thesis using Cons ex by simp
  next
    case True
    obtain r1 m1 where 1: "(if tid \<noteq> [] then append_fields grow [FString tk tid] (r, m) else (r, m)) = (r1, m1)" by fastforce
    have i1: "implements r m r1 m1 (\<lambda>v. v\<lparr>rFields := (if tid \<noteq> [] then rFields v @ [FString tk tid] else rFields v)\<rparr>)"
      using 1 append_fields_implements [OF Cons.prems(1)] implements_refl [OF Cons.prems(1)]
      by (cases "tid = []") (auto simp: implements_def)
    have i2: "implements r1 m1 r' m' (\<lambda>v. v\<lparr>rFields := (if sid \<noteq> [] then rFields v @ [FString sk sid] else rFields v)\<rparr>)"
      using Cons.prems(2) ex True 1 append_fields_implements [OF implements_ok [OF i1]] implements_refl [OF implements_ok [OF i1]]
      by (cases "sid = []") (auto simp: implements_def)
    show ?thesis using implements_trans [OF i1 i2] ex True by (simp add: implements_def Let_def)
  qed
qed

definition mctx_ok :: "fmem \<Rightarrow> slice \<Rightarrow> mctx \<Rightarrow> bool" where
  "mctx_ok m s ctx \<longleftrightarrow> sl_ok m (snd ctx) \<and> apart (snd ctx) s \<and> sl_read m (snd ctx) = bound_fields (fst ctx)"

lemma mctx_ok_frame: "own_step s m s' m' \<Longrightarrow> mctx_ok m s ctx \<Longrightarrow> mctx_ok m' s' ctx"
  using own_step_frame by (simp add: mctx_ok_def)

lemma Enrich_m_implements:
  assumes "sl_ok m (mFields r)" "mctx_ok m (mFields r) ctx" "Enrich_m grow ctx e r m = (r', m')"
  shows "implements r m r' m' (Enrich_Process (Some (fst ctx)) e)"
proof -
  obtain c b where ctx: "ctx = (c, b)" by fastforce
  obtain r1 m1 where 1: "(if 0 < sl_len b then append_fields grow (sl_read m b) (r, m) else (r, m)) = (r1, m1)" by fastforce
  have b: "sl_read m b = bound_fields c" "sl_ok m b" using assms(2) ctx by (simp_all add: mctx_ok_def)
  have "bound_fields c = []" if "\<not> 0 < sl_len b" using b sl_read_length [of m b] that by simp
  then have i1: "implements r m r1 m1 (\<lambda>v. v\<lparr>rFields := rFields v @ bound_fields c\<rparr>)"
    using 1 b append_fields_implements [OF assms(1)] implements_refl [OF assms(1)]
    by (cases "0 < sl_len b") (auto simp: implements_def)
  have "enrich_trace_m grow (if ep_TraceKey e = [] then ''trace_id'' else ep_TraceKey e)
      (if ep_SpanKey e = [] then ''span_id'' else ep_SpanKey e) c (ep_Extractors e) (r1, m1) = (r', m')"
    using assms(3) ctx 1 by (simp add: Enrich_m_def Let_def)
  from implements_trans [OF i1 enrich_trace_m_implements [OF implements_ok [OF i1] this]]
  show ?thesis using ctx by (simp add: implements_def Enrich_Process_def Let_def)
qed

lemma Func_m_implements:
  assumes "sl_ok m (mFields r)" "Func_m grow f c r m = (r', m', e)"
  shows "f c (rec_of m r) = (rec_of m' r', e) \<and> own_step (mFields r) m (mFields r') m'"
proof -
  obtain v where v: "f c (rec_of m r) = (v, e)" using assms(2) by (auto simp: Func_m_def split: prod.splits)
  obtain s m1 where s: "sl_append grow (sl_trunc (mFields r)) (rFields v) m = (s, m1)" by fastforce
  note t = sl_trunc_own [OF assms(1)]
  have m': "m' = m1" "mFields r' = s" using assms(2) v s by (auto simp: Func_m_def)
  have "own_step (mFields r) m s m1"
    using own_step_trans [OF t sl_append_own [OF own_step_ok [OF t] s]] .
  moreover have "rec_of m' r' = v"
    using assms(2) v s sl_append_read [OF own_step_ok [OF t] s] by (auto simp: Func_m_def rec_of_def)
  ultimately show ?thesis using v m' by simp
qed

text \<open>
  A stage in memory: it does to the record what its counterpart does to the value, as an owner of
  the record's slice. What it needs of the memory beyond that, the owner does not disturb.
\<close>

locale memory_stage =
  fixes pm :: "nat \<Rightarrow> 'p \<Rightarrow> mRecord \<Rightarrow> fmem \<Rightarrow> 'p \<times> mRecord \<times> fmem \<times> perr option"
    and pv :: "nat \<Rightarrow> 'p \<Rightarrow> Record \<Rightarrow> 'p \<times> Record \<times> perr option"
    and need :: "fmem \<Rightarrow> slice \<Rightarrow> bool"
  assumes need_frame: "own_step s m s' m' \<Longrightarrow> need m s \<Longrightarrow> need m' s'"
    and stage: "sl_ok m (mFields r) \<Longrightarrow> need m (mFields r) \<Longrightarrow> pm i p r m = (p', r', m', e) \<Longrightarrow>
      pv i p (rec_of m r) = (p', rec_of m' r', e) \<and> own_step (mFields r) m (mFields r') m'"
begin

lemma stages:
  assumes "sl_ok m (mFields r)" "need m (mFields r)" "run_stages_m pm i ps r m = (ps', r', m', e)"
  shows "run_stages pv i ps (rec_of m r) = (ps', rec_of m' r', e) \<and> own_step (mFields r) m (mFields r') m'"
  using assms
proof (induction ps arbitrary: i r m ps')
  case Nil
  then show ?case using own_step_refl by simp
next
  case (Cons p ps)
  obtain p1 r1 m1 e1 where 1: "pm i p r m = (p1, r1, m1, e1)" by (metis prod_cases4)
  note st = stage [OF Cons.prems(1,2) 1]
  show ?case
  proof (cases e1)
    case None
    obtain ps2 where 2: "run_stages_m pm (Suc i) ps r1 m1 = (ps2, r', m', e)" "ps' = p1 # ps2"
      using Cons.prems(3) 1 None by (auto split: prod.splits)
    have "sl_ok m1 (mFields r1)" "need m1 (mFields r1)" using st own_step_ok need_frame Cons.prems(2) by blast+
    from Cons.IH [OF this 2(1)] show ?thesis using st None 2(2) own_step_trans by auto
  next
    case (Some x)
    then show ?thesis using st Cons.prems(3) 1 by auto
  qed
qed

end

lemma Process_m_implements:
  assumes "sl_ok m (mFields r)" "mctx_ok m (mFields r) ctx" "Process_m grow lib now ctx p r m = (p', r', m', e)"
  shows "Process lib now (fst ctx) p (rec_of m r) = (p', rec_of m' r', e) \<and> own_step (mFields r) m (mFields r') m'"
proof (cases p)
  case (ProcessorFunc f)
  then show ?thesis using assms(3) Func_m_implements [OF assms(1), of grow f "fst ctx"] by (auto split: prod.splits)
next
  case (PRedact q)
  then show ?thesis using assms(3) Redact_m_implements [OF assms(1), of q] by (auto simp: implements_def split: prod.splits)
next
  case (PSample q)
  then show ?thesis using assms(3) own_step_refl [OF assms(1)] by (auto split: prod.splits)
next
  case (PPath q)
  then show ?thesis using assms(3) Path_m_implements [OF assms(1), of grow lib q] by (auto simp: implements_def split: prod.splits)
next
  case (PDedup d)
  then show ?thesis using assms(3) Dedup_m_implements [OF assms(1), of grow now d] by (auto split: prod.splits)
next
  case (PEnrich q)
  then show ?thesis using assms(3) Enrich_m_implements [OF assms(1,2), of grow q] by (auto simp: implements_def split: prod.splits)
qed

interpretation in_memory: memory_stage "\<lambda>i. Process_m grow lib (clock i) ctx" "\<lambda>i. Process lib (clock i) (fst ctx)"
    "\<lambda>m s. mctx_ok m s ctx" for grow lib clock ctx
  by unfold_locales (auto intro: mctx_ok_frame dest: Process_m_implements)

end
