(* ===== verification/Slice_Logger.thy ===== *)
theory Slice_Logger
  imports Slices
begin

text \<open>
  The logger over field slices in memory: \<open>With\<close>, \<open>ContextWith\<close> and the three emission paths, with the record
  pool. The theorem: whole programs behave as on values, and no slice they hold ever changes.
\<close>

section \<open>The logger in memory\<close>

text \<open>
  A logger with the slice of its bound fields; its other parts are as before. The world's own pool is
  not used: the pooled records are \<open>mw_pool\<close>.
\<close>

type_synonym 'h mLogger = "'h Logger \<times> slice"

record 'h mworld =
  mw_w :: "'h world"
  mw_pool :: "mRecord list"
  mw_mem :: fmem

definition mctxOr :: "mctx option \<Rightarrow> mctx" where
  "mctxOr c = (case c of None \<Rightarrow> (Background, nil_slice) | Some x \<Rightarrow> x)"

text \<open>\<open>append(append(make([]Field, 0, len(a)+len(b)), a...), b...)\<close>, as in \<open>With\<close> and \<open>ContextWith\<close>.\<close>

definition join_m :: "(nat \<Rightarrow> nat \<Rightarrow> nat) \<Rightarrow> slice \<Rightarrow> slice \<Rightarrow> fmem \<Rightarrow> slice \<times> fmem" where
  "join_m grow a b m =
     (let (s, m) = sl_make (sl_len a + sl_len b) m;
          (s, m) = sl_append grow s (sl_read m a) m
      in sl_append grow s (sl_read m b) m)"

definition With_m :: "(nat \<Rightarrow> nat \<Rightarrow> nat) \<Rightarrow> 'h mLogger \<Rightarrow> slice \<Rightarrow> fmem \<Rightarrow> 'h mLogger \<times> fmem" where
  "With_m grow lw fs m = (case lw of (l, ws) \<Rightarrow> (let (s, m) = join_m grow ws fs m in ((l, s), m)))"

definition ContextWith_m :: "(nat \<Rightarrow> nat \<Rightarrow> nat) \<Rightarrow> mctx \<Rightarrow> slice \<Rightarrow> fmem \<Rightarrow> mctx \<times> fmem" where
  "ContextWith_m grow ctx fs m =
     (case ctx of (c, prev) \<Rightarrow>
        (let (merged, m) = join_m grow prev fs m
         in ((WithValue c ctxFieldsKey (CVfields (sl_read m merged)), merged), m)))"

definition pipeline_dispatch_m ::
  "(nat \<Rightarrow> nat \<Rightarrow> nat) \<Rightarrow> golib \<Rightarrow> log_in \<Rightarrow> 'h Logger \<Rightarrow> mctx \<Rightarrow> Level \<Rightarrow> mRecord \<Rightarrow> 'h mworld \<Rightarrow> 'h mworld" where
  "pipeline_dispatch_m grow lib i l ctx level r mw =
     (let w = mw_w mw;
          (ps, r1, m1, err) = run_stages_m (\<lambda>j. Process_m grow lib (li_clock i j) ctx) 0 (wd_procs w ! lg_processors l) r (mw_mem mw);
          w1 = w\<lparr>wd_procs := (wd_procs w)[lg_processors l := ps]\<rparr>
      in case err of
           Some e \<Rightarrow> \<lparr>mw_w = update_metrics l incDropped w1, mw_pool = release_m r1 (mw_pool mw), mw_mem = m1\<rparr>
         | None \<Rightarrow>
             (let w2 = update_metrics l (incEmitted level) w1;
                  w3 = w2\<lparr>wd_h := tr_Dispatch (lg_transport l) (wd_levels w2) (rec_of m1 r1) (wd_h w2)\<rparr>
              in \<lparr>mw_w = w3, mw_pool = release_m r1 (mw_pool mw), mw_mem = m1\<rparr>))"

text \<open>The two appends with which each emission path fills its record.\<close>

definition fill_m :: "(nat \<Rightarrow> nat \<Rightarrow> nat) \<Rightarrow> slice \<Rightarrow> slice \<Rightarrow> mRecord \<times> fmem \<Rightarrow> mRecord \<times> fmem" where
  "fill_m grow ws fs rm =
     (case rm of (r, m) \<Rightarrow>
        (let (r, m) = (if 0 < sl_len ws then append_fields grow (sl_read m ws) (r, m) else (r, m))
         in append_fields grow (sl_read m fs) (r, m)))"

definition log_m ::
  "(nat \<Rightarrow> nat \<Rightarrow> nat) \<Rightarrow> golib \<Rightarrow> log_in \<Rightarrow> 'h mLogger \<Rightarrow> mctx option \<Rightarrow> Level \<Rightarrow> string \<Rightarrow> slice \<Rightarrow> 'h mworld \<Rightarrow> 'h mworld" where
  "log_m grow lib i lw ctx0 level msg fs mw =
     (case lw of (l, ws) \<Rightarrow>
        if level < Leveler_Level (wd_levels (mw_w mw)) (lg_leveler l) then mw
        else (let ctx = mctxOr ctx0;
                  (r, pool) = newRecord_m (li_pick i) (mw_pool mw);
                  r = r\<lparr>mTime := li_now i, mLevel := level, mMessage := msg, mCtx := Some (fst ctx)\<rparr>;
                  (r, m) = fill_m grow ws fs (r, mw_mem mw);
                  r = (if lg_addCaller l then r\<lparr>mPC := li_callers i (3 + lg_callerSkip l)\<rparr> else r)
              in pipeline_dispatch_m grow lib i l ctx level r (mw\<lparr>mw_pool := pool, mw_mem := m\<rparr>)))"

definition eventAt_m ::
  "(nat \<Rightarrow> nat \<Rightarrow> nat) \<Rightarrow> golib \<Rightarrow> log_in \<Rightarrow> 'h mLogger \<Rightarrow> mctx option \<Rightarrow> Level \<Rightarrow> string \<Rightarrow> slice \<Rightarrow> 'h mworld \<Rightarrow> 'h mworld" where
  "eventAt_m grow lib i lw ctx0 level name fs mw =
     (case lw of (l, ws) \<Rightarrow>
        if level < Leveler_Level (wd_levels (mw_w mw)) (lg_leveler l) then mw
        else (let ctx = mctxOr ctx0;
                  (r, pool) = newRecord_m (li_pick i) (mw_pool mw);
                  r = r\<lparr>mTime := li_now i, mLevel := level, mEventName := name, mCtx := Some (fst ctx)\<rparr>;
                  (r, m) = fill_m grow ws fs (r, mw_mem mw)
              in pipeline_dispatch_m grow lib i l ctx level r (mw\<lparr>mw_pool := pool, mw_mem := m\<rparr>)))"

definition logAt_m ::
  "(nat \<Rightarrow> nat \<Rightarrow> nat) \<Rightarrow> golib \<Rightarrow> log_in \<Rightarrow> 'h mLogger \<Rightarrow> mctx option \<Rightarrow> gtime \<Rightarrow> Level \<Rightarrow> string \<Rightarrow> slice \<Rightarrow> 'h mworld \<Rightarrow> 'h mworld" where
  "logAt_m grow lib i lw ctx0 t level msg fs mw =
     (case lw of (l, ws) \<Rightarrow>
        if level < Leveler_Level (wd_levels (mw_w mw)) (lg_leveler l) then mw
        else (let ctx = mctxOr ctx0;
                  (r, pool) = newRecord_m (li_pick i) (mw_pool mw);
                  r = r\<lparr>mTime := t, mLevel := level, mMessage := msg, mCtx := Some (fst ctx)\<rparr>;
                  (r, m) = fill_m grow ws fs (r, mw_mem mw)
              in pipeline_dispatch_m grow lib i l ctx level r (mw\<lparr>mw_pool := pool, mw_mem := m\<rparr>)))"

section \<open>Owners\<close>

text \<open>
  \<open>live\<close> are the slices that loggers, contexts, callers and clones hold. The arrays of the pooled
  records are nobody else's.
\<close>

definition mem_inv :: "slice list \<Rightarrow> mRecord list \<Rightarrow> fmem \<Rightarrow> bool" where
  "mem_inv live pool m \<longleftrightarrow>
     list_all (sl_ok m) live \<and> list_all (\<lambda>r. sl_ok m (mFields r)) pool \<and>
     sorted_wrt apart (map mFields pool) \<and> list_all (\<lambda>r. list_all (\<lambda>t. apart t (mFields r)) live) pool"

definition owns :: "slice \<Rightarrow> slice list \<Rightarrow> mRecord list \<Rightarrow> fmem \<Rightarrow> bool" where
  "owns s live pool m \<longleftrightarrow> sl_ok m s \<and> list_all (\<lambda>t. apart t s) (live @ map mFields pool)"

lemma apart_sym: "apart s t \<Longrightarrow> apart t s"
  by (auto simp: apart_def)

lemma owner_frame:
  assumes "mem_inv live pool m" "owns s live pool m" "own_step s m s' m'"
  shows "mem_inv live pool m'" "owns s' live pool m'" "t \<in> set live \<Longrightarrow> sl_read m' t = sl_read m t"
    "map (rec_of m') pool = map (rec_of m) pool"
proof -
  have other: "sl_ok m t \<and> apart t s" if "t \<in> set (live @ map mFields pool)" for t
    using assms(1,2) that by (auto simp: mem_inv_def owns_def list_all_iff)
  note frame = own_step_frame [OF assms(3)]
  show "mem_inv live pool m'" using assms(1) other frame(1) by (auto simp: mem_inv_def list_all_iff)
  show "owns s' live pool m'" using other frame(3) own_step_ok [OF assms(3)] by (auto simp: owns_def list_all_iff)
  show "sl_read m' t = sl_read m t" if "t \<in> set live" using other frame(2) that by simp
  show "map (rec_of m') pool = map (rec_of m) pool" using other frame(2) by (simp add: rec_of_def)
qed

lemma newRecord_m_owns:
  assumes "mem_inv live pool m" "newRecord_m pick pool = (r, pool')"
  shows "mem_inv live pool' m" "owns (mFields r) live pool' m"
    "newRecord pick (map (rec_of m) pool) = (rec_of m r, map (rec_of m) pool')"
proof -
  have zero: "rec_of m zero_m = zeroRecord" by (simp add: rec_of_def zero_m_def zeroRecord_def)
  have "mem_inv live pool' m \<and> owns (mFields r) live pool' m \<and> newRecord pick (map (rec_of m) pool) = (rec_of m r, map (rec_of m) pool')"
  proof (cases "\<exists>i < length pool. pick = Some i")
    case True
    then obtain i where i: "pick = Some i" "i < length pool" by blast
    define p1 p2 where "p1 = take i pool" and "p2 = drop (Suc i) pool"
    have pool: "pool = p1 @ pool ! i # p2" using i(2) by (simp add: p1_def p2_def id_take_nth_drop [symmetric])
    have r: "r = (pool ! i)\<lparr>mPooled := True\<rparr>" "pool' = p1 @ p2" using assms(2) i by (auto simp: newRecord_m_def p1_def p2_def)
    have "mem_inv live (p1 @ pool ! i # p2) m" using assms(1) pool by simp
    then have "mem_inv live pool' m" "owns (mFields r) live pool' m"
      using r by (auto simp: mem_inv_def owns_def list_all_iff sorted_wrt_append intro: apart_sym)
    moreover have "newRecord pick (map (rec_of m) pool) = (rec_of m r, map (rec_of m) pool')"
      using i r by (simp add: newRecord_def rec_of_def p1_def p2_def take_map drop_map)
    ultimately show ?thesis by simp
  next
    case False
    then have "r = zero_m\<lparr>mPooled := True\<rparr>" "pool' = pool" using assms(2) by (auto simp: newRecord_m_def split: option.splits if_splits)
    moreover have "newRecord pick (map (rec_of m) pool) = (zeroRecord\<lparr>rPooled := True\<rparr>, map (rec_of m) pool)"
      using False by (auto simp: newRecord_def split: option.splits)
    moreover have "mFields (zero_m\<lparr>mPooled := True\<rparr>) = nil_slice" by (simp add: zero_m_def)
    ultimately show ?thesis
      using assms(1) zero by (auto simp: owns_def list_all_iff apart_def nil_slice_def rec_of_def zero_m_def zeroRecord_def sl_ok_def sl_read_def)
  qed
  then show "mem_inv live pool' m" "owns (mFields r) live pool' m"
    "newRecord pick (map (rec_of m) pool) = (rec_of m r, map (rec_of m) pool')" by blast+
qed

lemma release_m_inv:
  assumes "mem_inv live pool m" "owns (mFields r) live pool m"
  shows "mem_inv live (release_m r pool) m" "map (rec_of m) (release_m r pool) = release (rec_of m r) (map (rec_of m) pool)"
proof -
  have "sl_ok m (sl_trunc (mFields r))" "apart t (sl_trunc (mFields r)) = apart t (mFields r)" for t
    using assms(2) own_step_ok [OF sl_trunc_own] by (auto simp: owns_def apart_def sl_trunc_def)
  then show "mem_inv live (release_m r pool) m"
    using assms by (auto simp: release_m_def reset_m_def mem_inv_def owns_def list_all_iff sorted_wrt_append)
  show "map (rec_of m) (release_m r pool) = release (rec_of m r) (map (rec_of m) pool)"
    by (simp add: release_m_def release_def reset_m_def reset_def rec_of_def)
qed

section \<open>The logger implements the one on values\<close>

definition world_of :: "'h mworld \<Rightarrow> 'h world" where
  "world_of mw = (mw_w mw)\<lparr>wd_pool := map (rec_of (mw_mem mw)) (mw_pool mw)\<rparr>"

definition logger_of :: "fmem \<Rightarrow> 'h mLogger \<Rightarrow> 'h Logger" where
  "logger_of m lw = (fst lw)\<lparr>lg_with := sl_read m (snd lw)\<rparr>"

definition refined :: "slice list \<Rightarrow> 'h mworld \<Rightarrow> 'h mworld \<Rightarrow> 'h world \<Rightarrow> bool" where
  "refined live mw mw' w \<longleftrightarrow> world_of mw' = w \<and> mem_inv live (mw_pool mw') (mw_mem mw') \<and>
     (\<forall>t \<in> set live. sl_read (mw_mem mw') t = sl_read (mw_mem mw) t)"

lemma pipeline_dispatch_with:
  "pipeline_dispatch lib i (l\<lparr>lg_with := x\<rparr>) ctx level r w = pipeline_dispatch lib i l ctx level r w"
  by (simp add: pipeline_dispatch_def update_metrics_def Let_def split: prod.split option.split)

lemma update_metrics_pool [simp]:
  "update_metrics l f (w\<lparr>wd_pool := q\<rparr>) = (update_metrics l f w)\<lparr>wd_pool := q\<rparr>"
  by (simp add: update_metrics_def split: option.split)

lemma pipeline_dispatch_m_refines:
  assumes "mem_inv live (mw_pool mw) (mw_mem mw)" "owns (mFields r) live (mw_pool mw) (mw_mem mw)"
    "mctx_ok (mw_mem mw) (mFields r) ctx"
  shows "refined live mw (pipeline_dispatch_m grow lib i l ctx level r mw)
    (pipeline_dispatch lib i l (fst ctx) level (rec_of (mw_mem mw) r) (world_of mw))"
proof -
  let ?m = "mw_mem mw" and ?ps = "wd_procs (mw_w mw) ! lg_processors l"
  have ok: "sl_ok ?m (mFields r)" using assms(2) by (simp add: owns_def)
  obtain ps r1 m1 e where run: "run_stages_m (\<lambda>j. Process_m grow lib (li_clock i j) ctx) 0 ?ps r ?m = (ps, r1, m1, e)"
    by (metis prod_cases4)
  note st = in_memory.stages [OF ok assms(3) run]
  have step: "own_step (mFields r) ?m (mFields r1) m1" using st by blast
  note fr = owner_frame [OF assms(1,2) step]
  note rel = release_m_inv [OF fr(1,2)]
  have "runPipeline lib (li_clock i) (fst ctx) ?ps (rec_of ?m r) = (ps, rec_of m1 r1, e)"
    using st by (simp add: runPipeline_def)
  then show ?thesis
    using run rel fr(3,4)
    by (cases e) (simp_all add: refined_def pipeline_dispatch_def pipeline_dispatch_m_def world_of_def Let_def update_metrics_def split: option.split)
qed

text \<open>Filling the record: the slices of the logger and of the caller are only read.\<close>

lemma fill_record:
  assumes "mem_inv live pool m" "owns (mFields r) live pool m" "ws \<in> set live" "fs \<in> set live"
    "fill_m grow ws fs (r, m) = (r2, m2)"
  shows "implements r m r2 m2 (\<lambda>v. v\<lparr>rFields := rFields v @ sl_read m ws @ sl_read m fs\<rparr>)"
proof -
  obtain r1 m1 where 1: "(if 0 < sl_len ws then append_fields grow (sl_read m ws) (r, m) else (r, m)) = (r1, m1)" by fastforce
  then have 2: "append_fields grow (sl_read m1 fs) (r1, m1) = (r2, m2)" using assms(5) by (simp add: fill_m_def)
  have ok: "sl_ok m (mFields r)" "sl_ok m ws" using assms(1-3) by (auto simp: owns_def mem_inv_def list_all_iff)
  have i1: "implements r m r1 m1 (\<lambda>v. v\<lparr>rFields := rFields v @ sl_read m ws\<rparr>)"
    using 1 append_fields_implements [OF ok(1)] implements_refl [OF ok(1)] sl_read_length [OF ok(2)]
    by (cases "0 < sl_len ws") (auto simp: implements_def)
  then have "sl_read m1 fs = sl_read m fs"
    using owner_frame(3) [OF assms(1,2) _ assms(4)] unfolding implements_def by blast
  with implements_trans [OF i1 append_fields_implements [OF implements_ok [OF i1] 2]]
  show ?thesis by (simp add: implements_def)
qed

definition ctx_live :: "slice list \<Rightarrow> fmem \<Rightarrow> mctx \<Rightarrow> bool" where
  "ctx_live live m ctx \<longleftrightarrow> (snd ctx = nil_slice \<or> snd ctx \<in> set live) \<and> sl_read m (snd ctx) = bound_fields (fst ctx)"

lemma ctx_live_Background [simp]: "ctx_live live m (Background, nil_slice)"
  by (simp add: ctx_live_def bound_fields_def)

lemma ctx_live_ok: "mem_inv live pool m \<Longrightarrow> owns s live pool m \<Longrightarrow> ctx_live live m ctx \<Longrightarrow> mctx_ok m s ctx"
  by (auto simp: ctx_live_def mctx_ok_def mem_inv_def owns_def list_all_iff)

text \<open>
  The common part of the three emission paths: from the pool to the release, when \<open>r\<close> and \<open>r3\<close> differ
  from the pooled record and from the filled one in their headers only.
\<close>

lemma emission_m:
  assumes inv: "mem_inv live (mw_pool mw) (mw_mem mw)" and live: "ws \<in> set live" "fs \<in> set live"
    and ctx: "ctx_live live (mw_mem mw) ctx"
    and new: "newRecord_m (li_pick i) (mw_pool mw) = (r0, pool)" and hdr: "mFields r = mFields r0"
    and fill: "fill_m grow ws fs (r, mw_mem mw) = (r2, m2)" and hdr2: "mFields r3 = mFields r2"
  shows "refined live mw (pipeline_dispatch_m grow lib i l ctx level r3 (mw\<lparr>mw_pool := pool, mw_mem := m2\<rparr>))
      (pipeline_dispatch lib i l (fst ctx) level (rec_of m2 r3) ((world_of mw)\<lparr>wd_pool := map (rec_of (mw_mem mw)) pool\<rparr>))"
    and "rec_of m2 r2 = (rec_of (mw_mem mw) r)\<lparr>rFields := sl_read (mw_mem mw) (mFields r) @ sl_read (mw_mem mw) ws @ sl_read (mw_mem mw) fs\<rparr>"
proof -
  let ?m = "mw_mem mw"
  note own = newRecord_m_owns [OF inv new, folded hdr]
  have im: "implements r ?m r2 m2 (\<lambda>v. v\<lparr>rFields := rFields v @ sl_read ?m ws @ sl_read ?m fs\<rparr>)"
    by (rule fill_record [OF own(1,2) live fill])
  then show "rec_of m2 r2 = (rec_of ?m r)\<lparr>rFields := sl_read ?m (mFields r) @ sl_read ?m ws @ sl_read ?m fs\<rparr>"
    by (simp add: implements_def)
  have st: "own_step (mFields r) ?m (mFields r3) m2" using im hdr2 by (simp add: implements_def)
  note fr = owner_frame [OF own(1,2) st]
  have "mctx_ok m2 (mFields r3) ctx" using mctx_ok_frame [OF st ctx_live_ok [OF own(1,2) ctx]] .
  then have "refined live (mw\<lparr>mw_pool := pool, mw_mem := m2\<rparr>) (pipeline_dispatch_m grow lib i l ctx level r3 (mw\<lparr>mw_pool := pool, mw_mem := m2\<rparr>))
      (pipeline_dispatch lib i l (fst ctx) level (rec_of m2 r3) (world_of (mw\<lparr>mw_pool := pool, mw_mem := m2\<rparr>)))"
    using pipeline_dispatch_m_refines [of live "mw\<lparr>mw_pool := pool, mw_mem := m2\<rparr>" r3 ctx grow lib i l level] fr(1,2) by simp
  then show "refined live mw (pipeline_dispatch_m grow lib i l ctx level r3 (mw\<lparr>mw_pool := pool, mw_mem := m2\<rparr>))
      (pipeline_dispatch lib i l (fst ctx) level (rec_of m2 r3) ((world_of mw)\<lparr>wd_pool := map (rec_of ?m) pool\<rparr>))"
    using fr(3,4) by (simp add: refined_def world_of_def)
qed

lemma refined_refl: "mem_inv live (mw_pool mw) (mw_mem mw) \<Longrightarrow> refined live mw mw (world_of mw)"
  by (simp add: refined_def)

lemma emission_path:
  assumes "mem_inv live (mw_pool mw) (mw_mem mw)" "ws \<in> set live" "fs \<in> set live" "ctx_live live (mw_mem mw) ctx"
    and hdr: "\<And>r. mFields (hdr r) = mFields r" "\<And>m r. rec_of m (hdr r) = hv (rec_of m r)"
    and fin: "\<And>r. mFields (fin r) = mFields r" "\<And>m r. rec_of m (fin r) = fv (rec_of m r)"
  shows "refined live mw
      (let (r, pool) = newRecord_m (li_pick i) (mw_pool mw);
           (r, m) = fill_m grow ws fs (hdr r, mw_mem mw)
       in pipeline_dispatch_m grow lib i l ctx level (fin r) (mw\<lparr>mw_pool := pool, mw_mem := m\<rparr>))
      (let (v, pool) = newRecord (li_pick i) (wd_pool (world_of mw));
           v = hv v;
           v = (if 0 < length (sl_read (mw_mem mw) ws) then v\<lparr>rFields := rFields v @ sl_read (mw_mem mw) ws\<rparr> else v);
           v = v\<lparr>rFields := rFields v @ sl_read (mw_mem mw) fs\<rparr>
       in pipeline_dispatch lib i l (fst ctx) level (fv v) ((world_of mw)\<lparr>wd_pool := pool\<rparr>))"
proof -
  let ?m = "mw_mem mw"
  obtain r0 pool where new: "newRecord_m (li_pick i) (mw_pool mw) = (r0, pool)" by fastforce
  obtain r2 m2 where fill: "fill_m grow ws fs (hdr r0, ?m) = (r2, m2)" by fastforce
  note em = emission_m [OF assms(1-4) new hdr(1) fill fin(1)]
  have "wd_pool (world_of mw) = map (rec_of ?m) (mw_pool mw)" by (simp add: world_of_def)
  then have newv: "newRecord (li_pick i) (wd_pool (world_of mw)) = (rec_of ?m r0, map (rec_of ?m) pool)"
    using newRecord_m_owns(3) [OF assms(1) new] by simp
  have v: "rec_of m2 r2 = (let v = hv (rec_of ?m r0);
      v = (if 0 < length (sl_read ?m ws) then v\<lparr>rFields := rFields v @ sl_read ?m ws\<rparr> else v)
    in v\<lparr>rFields := rFields v @ sl_read ?m fs\<rparr>)"
    using em(2) rec_of_simps(1) [of ?m "hdr r0"] by (simp add: hdr(2) hdr(1) Let_def)
  show ?thesis using em(1) [of lib l level] by (simp add: new fill newv fin(2) v Let_def)
qed

lemma world_of_levels [simp]: "wd_levels (world_of mw) = wd_levels (mw_w mw)"
  by (simp add: world_of_def)

lemma mctxOr_fst [simp]: "fst (mctxOr ctx) = ctxOr (map_option fst ctx)"
  by (cases ctx) (simp_all add: mctxOr_def ctxOr_def)

text \<open>The three emission paths, by what they put in the header.\<close>

datatype emission = ByLog string | ByEvent string | ByLogAt gtime string

fun emit_m ::
  "(nat \<Rightarrow> nat \<Rightarrow> nat) \<Rightarrow> golib \<Rightarrow> log_in \<Rightarrow> 'h mLogger \<Rightarrow> mctx option \<Rightarrow> Level \<Rightarrow> emission \<Rightarrow> slice \<Rightarrow> 'h mworld \<Rightarrow> 'h mworld" where
  "emit_m grow lib i lw ctx level (ByLog msg) fs mw = log_m grow lib i lw ctx level msg fs mw"
| "emit_m grow lib i lw ctx level (ByEvent name) fs mw = eventAt_m grow lib i lw ctx level name fs mw"
| "emit_m grow lib i lw ctx level (ByLogAt t msg) fs mw = logAt_m grow lib i lw ctx t level msg fs mw"

fun emit_v ::
  "golib \<Rightarrow> log_in \<Rightarrow> 'h Logger \<Rightarrow> gctx option \<Rightarrow> Level \<Rightarrow> emission \<Rightarrow> Field list \<Rightarrow> 'h world \<Rightarrow> 'h world" where
  "emit_v lib i l ctx level (ByLog msg) fs w = log lib i l ctx level msg fs w"
| "emit_v lib i l ctx level (ByEvent name) fs w = eventAt lib i l ctx level name fs w"
| "emit_v lib i l ctx level (ByLogAt t msg) fs w = logAt lib i l ctx t level msg fs w"

fun hdr_m :: "log_in \<Rightarrow> Level \<Rightarrow> gctx \<Rightarrow> emission \<Rightarrow> mRecord \<Rightarrow> mRecord" where
  "hdr_m i level c (ByLog msg) r = r\<lparr>mTime := li_now i, mLevel := level, mMessage := msg, mCtx := Some c\<rparr>"
| "hdr_m i level c (ByEvent name) r = r\<lparr>mTime := li_now i, mLevel := level, mEventName := name, mCtx := Some c\<rparr>"
| "hdr_m i level c (ByLogAt t msg) r = r\<lparr>mTime := t, mLevel := level, mMessage := msg, mCtx := Some c\<rparr>"

fun hdr_v :: "log_in \<Rightarrow> Level \<Rightarrow> gctx \<Rightarrow> emission \<Rightarrow> Record \<Rightarrow> Record" where
  "hdr_v i level c (ByLog msg) r = r\<lparr>rTime := li_now i, rLevel := level, rMessage := msg, rCtx := Some c\<rparr>"
| "hdr_v i level c (ByEvent name) r = r\<lparr>rTime := li_now i, rLevel := level, rEventName := name, rCtx := Some c\<rparr>"
| "hdr_v i level c (ByLogAt t msg) r = r\<lparr>rTime := t, rLevel := level, rMessage := msg, rCtx := Some c\<rparr>"

definition calls_pc :: "emission \<Rightarrow> 'h Logger \<Rightarrow> bool" where
  "calls_pc e l = (case e of ByLog msg \<Rightarrow> lg_addCaller l | _ \<Rightarrow> False)"

lemma emit_m_path:
  "emit_m grow lib i (l, ws) ctx level e fs mw =
     (if level < Leveler_Level (wd_levels (mw_w mw)) (lg_leveler l) then mw
      else (let (r, pool) = newRecord_m (li_pick i) (mw_pool mw);
                (r, m) = fill_m grow ws fs (hdr_m i level (ctxOr (map_option fst ctx)) e r, mw_mem mw)
            in pipeline_dispatch_m grow lib i l (mctxOr ctx) level
                 (if calls_pc e l then r\<lparr>mPC := li_callers i (3 + lg_callerSkip l)\<rparr> else r) (mw\<lparr>mw_pool := pool, mw_mem := m\<rparr>)))"
  by (cases e) (simp_all add: log_m_def eventAt_m_def logAt_m_def calls_pc_def Let_def)

lemma emit_v_path:
  "emit_v lib i (l\<lparr>lg_with := ws\<rparr>) ctx level e fs w =
     (if level < Leveler_Level (wd_levels w) (lg_leveler l) then w
      else (let (v, pool) = newRecord (li_pick i) (wd_pool w);
                v = hdr_v i level (ctxOr ctx) e v;
                v = (if 0 < length ws then v\<lparr>rFields := rFields v @ ws\<rparr> else v);
                v = v\<lparr>rFields := rFields v @ fs\<rparr>
            in pipeline_dispatch lib i l (ctxOr ctx) level
                 (if calls_pc e l then v\<lparr>rPC := li_callers i (3 + lg_callerSkip l)\<rparr> else v) (w\<lparr>wd_pool := pool\<rparr>)))"
  by (cases e) (simp_all add: log_def eventAt_def logAt_def calls_pc_def pipeline_dispatch_with Let_def split: prod.split)

lemma emit_m_refines:
  assumes "mem_inv live (mw_pool mw) (mw_mem mw)" "snd lw \<in> set live" "fs \<in> set live"
    "ctx_live live (mw_mem mw) (mctxOr ctx)"
  shows "refined live mw (emit_m grow lib i lw ctx level e fs mw)
    (emit_v lib i (logger_of (mw_mem mw) lw) (map_option fst ctx) level e (sl_read (mw_mem mw) fs) (world_of mw))"
proof -
  obtain l ws where lw: "lw = (l, ws)" by fastforce
  let ?c = "ctxOr (map_option fst ctx)"
  have hdr: "mFields (hdr_m i level ?c e r) = mFields r" "rec_of m (hdr_m i level ?c e r) = hdr_v i level ?c e (rec_of m r)" for m r
    by (cases e; simp add: rec_of_def)+
  have ws: "ws \<in> set live" using assms(2) lw by simp
  show ?thesis
    using refined_refl [OF assms(1)]
      emission_path [OF assms(1) ws assms(3,4) hdr,
        of "\<lambda>r. if calls_pc e l then r\<lparr>mPC := li_callers i (3 + lg_callerSkip l)\<rparr> else r"
           "\<lambda>v. if calls_pc e l then v\<lparr>rPC := li_callers i (3 + lg_callerSkip l)\<rparr> else v" i grow lib l level]
    by (simp add: lw logger_of_def emit_m_path emit_v_path rec_of_def)
qed

section \<open>Programs\<close>

text \<open>
  A program builds argument slices, derives loggers and contexts and logs; the values it has are
  named by their index. \<open>run_m\<close> executes it in memory, \<open>run_v\<close> on values.
\<close>

datatype prog_op =
    OpArgs "Field list"
  | OpWith nat nat
  | OpContextWith nat nat
  | OpEmit emission log_in nat "nat option" Level nat

record 'h msession =
  ms_loggers :: "'h mLogger list"
  ms_ctxs :: "mctx list"
  ms_args :: "slice list"
  ms_world :: "'h mworld"

record 'h vsession =
  vs_loggers :: "'h Logger list"
  vs_ctxs :: "gctx list"
  vs_args :: "Field list list"
  vs_world :: "'h world"

definition live_of :: "'h msession \<Rightarrow> slice list" where
  "live_of st = map snd (ms_loggers st) @ map snd (ms_ctxs st) @ ms_args st"

abbreviation mem_of :: "'h msession \<Rightarrow> fmem" where
  "mem_of st \<equiv> mw_mem (ms_world st)"

definition set_mem :: "fmem \<Rightarrow> 'h msession \<Rightarrow> 'h msession" where
  "set_mem m st = st\<lparr>ms_world := (ms_world st)\<lparr>mw_mem := m\<rparr>\<rparr>"

fun step_m :: "(nat \<Rightarrow> nat \<Rightarrow> nat) \<Rightarrow> golib \<Rightarrow> prog_op \<Rightarrow> 'h msession \<Rightarrow> 'h msession" where
  "step_m grow lib (OpArgs xs) st =
     (set_mem (mem_of st @ [xs]) st)\<lparr>ms_args := ms_args st @ [\<lparr>sl_arr = Some (length (mem_of st)), sl_len = length xs\<rparr>]\<rparr>"
| "step_m grow lib (OpWith k j) st =
     (if k < length (ms_loggers st) \<and> j < length (ms_args st)
      then (let (lw, m) = With_m grow (ms_loggers st ! k) (ms_args st ! j) (mem_of st)
            in (set_mem m st)\<lparr>ms_loggers := ms_loggers st @ [lw]\<rparr>)
      else st)"
| "step_m grow lib (OpContextWith k j) st =
     (if k < length (ms_ctxs st) \<and> j < length (ms_args st)
      then (let (c, m) = ContextWith_m grow (ms_ctxs st ! k) (ms_args st ! j) (mem_of st)
            in (set_mem m st)\<lparr>ms_ctxs := ms_ctxs st @ [c]\<rparr>)
      else st)"
| "step_m grow lib (OpEmit e i k c level j) st =
     (if k < length (ms_loggers st) \<and> j < length (ms_args st) \<and> (\<forall>n \<in> set_option c. n < length (ms_ctxs st))
      then st\<lparr>ms_world := emit_m grow lib i (ms_loggers st ! k) (map_option (nth (ms_ctxs st)) c) level e (ms_args st ! j) (ms_world st)\<rparr>
      else st)"

fun step_v :: "golib \<Rightarrow> prog_op \<Rightarrow> 'h vsession \<Rightarrow> 'h vsession" where
  "step_v lib (OpArgs xs) st = st\<lparr>vs_args := vs_args st @ [xs]\<rparr>"
| "step_v lib (OpWith k j) st =
     (if k < length (vs_loggers st) \<and> j < length (vs_args st)
      then st\<lparr>vs_loggers := vs_loggers st @ [With (vs_loggers st ! k) (vs_args st ! j)]\<rparr> else st)"
| "step_v lib (OpContextWith k j) st =
     (if k < length (vs_ctxs st) \<and> j < length (vs_args st)
      then st\<lparr>vs_ctxs := vs_ctxs st @ [ContextWith (vs_ctxs st ! k) (vs_args st ! j)]\<rparr> else st)"
| "step_v lib (OpEmit e i k c level j) st =
     (if k < length (vs_loggers st) \<and> j < length (vs_args st) \<and> (\<forall>n \<in> set_option c. n < length (vs_ctxs st))
      then st\<lparr>vs_world := emit_v lib i (vs_loggers st ! k) (map_option (nth (vs_ctxs st)) c) level e (vs_args st ! j) (vs_world st)\<rparr>
      else st)"

definition run_m :: "(nat \<Rightarrow> nat \<Rightarrow> nat) \<Rightarrow> golib \<Rightarrow> prog_op list \<Rightarrow> 'h msession \<Rightarrow> 'h msession" where
  "run_m grow lib ops st = fold (step_m grow lib) ops st"

definition run_v :: "golib \<Rightarrow> prog_op list \<Rightarrow> 'h vsession \<Rightarrow> 'h vsession" where
  "run_v lib ops st = fold (step_v lib) ops st"

definition session_of :: "'h msession \<Rightarrow> 'h vsession" where
  "session_of st = \<lparr>vs_loggers = map (logger_of (mem_of st)) (ms_loggers st), vs_ctxs = map fst (ms_ctxs st),
     vs_args = map (sl_read (mem_of st)) (ms_args st), vs_world = world_of (ms_world st)\<rparr>"

definition session_inv :: "'h msession \<Rightarrow> bool" where
  "session_inv st \<longleftrightarrow> mem_inv (live_of st) (mw_pool (ms_world st)) (mem_of st) \<and>
     list_all (ctx_live (live_of st) (mem_of st)) (ms_ctxs st)"

lemma fresh_slice:
  assumes "mem_inv live pool m" "own_step nil_slice m s m'"
  shows "mem_inv (s # live) pool m'" "t \<in> set live \<Longrightarrow> sl_read m' t = sl_read m t"
    "map (rec_of m') pool = map (rec_of m) pool"
proof -
  have "owns nil_slice live pool m" by (simp add: owns_def list_all_iff)
  note fr = owner_frame [OF assms(1) this assms(2)]
  show "mem_inv (s # live) pool m'" using fr(1,2) by (auto simp: mem_inv_def owns_def list_all_iff intro: apart_sym)
  show "t \<in> set live \<Longrightarrow> sl_read m' t = sl_read m t" by (rule fr(3))
  show "map (rec_of m') pool = map (rec_of m) pool" by (rule fr(4))
qed

lemma join_m_fresh:
  assumes "mem_inv live pool m" "a \<in> set live" "b \<in> set live" "join_m grow a b m = (s, m')"
  shows "own_step nil_slice m s m'" "sl_read m' s = sl_read m a @ sl_read m b"
proof -
  obtain s0 m0 where 0: "sl_make (sl_len a + sl_len b) m = (s0, m0)" by fastforce
  obtain s1 m1 where 1: "sl_append grow s0 (sl_read m0 a) m0 = (s1, m1)" by fastforce
  have 2: "sl_append grow s1 (sl_read m1 b) m1 = (s, m')" using assms(4) 0 1 by (simp add: join_m_def)
  note mk = sl_make_facts [OF 0]
  have o0: "own_step nil_slice m s0 m0" using mk by blast
  have o1: "own_step nil_slice m s1 m1" using own_step_trans [OF o0 sl_append_own [OF own_step_ok [OF o0] 1]] .
  show o2: "own_step nil_slice m s m'" using own_step_trans [OF o1 sl_append_own [OF own_step_ok [OF o1] 2]] .
  show "sl_read m' s = sl_read m a @ sl_read m b"
    using sl_append_read [OF own_step_ok [OF o1] 2] sl_append_read [OF own_step_ok [OF o0] 1] mk
      fresh_slice(2) [OF assms(1) o0 assms(2)] fresh_slice(2) [OF assms(1) o1 assms(3)] by simp
qed

lemma mem_inv_live: "mem_inv live pool m \<Longrightarrow> set live' \<subseteq> set live \<Longrightarrow> mem_inv live' pool m"
  by (auto simp: mem_inv_def list_all_iff)

text \<open>Adding a slice of a new array changes nothing a session has.\<close>

lemma session_grow:
  assumes "session_inv st" "own_step nil_slice (mem_of st) s m'"
  shows "session_of (set_mem m' st) = session_of st" "mem_inv (s # live_of st) (mw_pool (ms_world st)) m'"
    "list_all (ctx_live (s # live_of st) m') (ms_ctxs st)" "t \<in> set (live_of st) \<Longrightarrow> sl_read m' t = sl_read (mem_of st) t"
proof -
  note fr = fresh_slice [OF _ assms(2), of "live_of st" "mw_pool (ms_world st)"]
  have inv: "mem_inv (live_of st) (mw_pool (ms_world st)) (mem_of st)" using assms(1) by (simp add: session_inv_def)
  show "mem_inv (s # live_of st) (mw_pool (ms_world st)) m'" by (rule fr(1) [OF inv])
  show "t \<in> set (live_of st) \<Longrightarrow> sl_read m' t = sl_read (mem_of st) t" by (rule fr(2) [OF inv])
  show "list_all (ctx_live (s # live_of st) m') (ms_ctxs st)"
    using assms(1) fr(2) [OF inv] by (auto simp: session_inv_def ctx_live_def list_all_iff)
  show "session_of (set_mem m' st) = session_of st"
    using fr(2,3) [OF inv] by (auto simp: session_of_def set_mem_def world_of_def logger_of_def live_of_def)
qed

lemma live_nth:
  "k < length (ms_loggers st) \<Longrightarrow> snd (ms_loggers st ! k) \<in> set (live_of st)"
  "k < length (ms_ctxs st) \<Longrightarrow> snd (ms_ctxs st ! k) \<in> set (live_of st)"
  "k < length (ms_args st) \<Longrightarrow> ms_args st ! k \<in> set (live_of st)"
  by (auto simp: live_of_def)

lemma session_memD: "session_inv st \<Longrightarrow> mem_inv (live_of st) (mw_pool (ms_world st)) (mem_of st)"
  by (simp add: session_inv_def)

text \<open>A step of a program in memory is the step on values and changes no slice that the program has.\<close>

definition step_ok :: "(nat \<Rightarrow> nat \<Rightarrow> nat) \<Rightarrow> golib \<Rightarrow> prog_op \<Rightarrow> 'h msession \<Rightarrow> bool" where
  "step_ok grow lib x st \<longleftrightarrow>
     session_inv (step_m grow lib x st) \<and> session_of (step_m grow lib x st) = step_v lib x (session_of st) \<and>
     (\<forall>t \<in> set (live_of st). t \<in> set (live_of (step_m grow lib x st)) \<and>
        sl_read (mem_of (step_m grow lib x st)) t = sl_read (mem_of st) t)"

lemma step_args:
  assumes "session_inv st"
  shows "step_ok grow lib (OpArgs xs) st"
proof -
  let ?s = "\<lparr>sl_arr = Some (length (mem_of st)), sl_len = length xs\<rparr>" and ?m = "mem_of st @ [xs]"
  have "own_step nil_slice (mem_of st) ?s ?m" by (simp add: own_step_def nil_slice_def sl_ok_def nth_append)
  note g = session_grow [OF assms this]
  have "session_inv (step_m grow lib (OpArgs xs) st)"
    using g(2,3) unfolding session_inv_def
    by (auto simp: live_of_def set_mem_def ctx_live_def list_all_iff elim!: mem_inv_live)
  then show ?thesis using g(1,4) by (simp add: step_ok_def session_of_def set_mem_def sl_read_def live_of_def)
qed

lemma step_with:
  assumes "session_inv st"
  shows "step_ok grow lib (OpWith k j) st"
proof (cases "k < length (ms_loggers st) \<and> j < length (ms_args st)")
  case True
  obtain s m where j: "join_m grow (snd (ms_loggers st ! k)) (ms_args st ! j) (mem_of st) = (s, m)" by fastforce
  note f = join_m_fresh [OF session_memD [OF assms] live_nth(1) live_nth(3) j] and g = session_grow [OF assms]
  have st': "step_m grow lib (OpWith k j) st = (set_mem m st)\<lparr>ms_loggers := ms_loggers st @ [(fst (ms_loggers st ! k), s)]\<rparr>"
    using True j by (simp add: With_m_def split_beta)
  have "session_inv (step_m grow lib (OpWith k j) st)"
    using g(2,3) [OF f(1)] True unfolding session_inv_def st'
    by (auto simp: live_of_def set_mem_def ctx_live_def list_all_iff elim!: mem_inv_live)
  moreover have "session_of (step_m grow lib (OpWith k j) st) = step_v lib (OpWith k j) (session_of st)"
    using g(1) [OF f(1)] f(2) True unfolding st'
    by (simp add: session_of_def set_mem_def logger_of_def With_def)
  ultimately show ?thesis using g(4) [OF f(1)] True unfolding step_ok_def st' by (auto simp: set_mem_def live_of_def)
qed (use assms in \<open>auto simp: step_ok_def session_of_def\<close>)

lemma step_context:
  assumes "session_inv st"
  shows "step_ok grow lib (OpContextWith k j) st"
proof (cases "k < length (ms_ctxs st) \<and> j < length (ms_args st)")
  case True
  obtain s m where j: "join_m grow (snd (ms_ctxs st ! k)) (ms_args st ! j) (mem_of st) = (s, m)" by fastforce
  note f = join_m_fresh [OF session_memD [OF assms] live_nth(2) live_nth(3) j] and g = session_grow [OF assms]
  let ?c = "(WithValue (fst (ms_ctxs st ! k)) ctxFieldsKey (CVfields (sl_read m s)), s)"
  have st': "step_m grow lib (OpContextWith k j) st = (set_mem m st)\<lparr>ms_ctxs := ms_ctxs st @ [?c]\<rparr>"
    using True j by (simp add: ContextWith_m_def split_beta)
  have b: "sl_read (mem_of st) (snd (ms_ctxs st ! k)) = bound_fields (fst (ms_ctxs st ! k))"
    using assms True by (auto simp: session_inv_def ctx_live_def list_all_length)
  have "session_inv (step_m grow lib (OpContextWith k j) st)"
    using g(2,3) [OF f(1)] True unfolding session_inv_def st'
    by (auto simp: live_of_def set_mem_def ctx_live_def list_all_iff bound_fields_def elim!: mem_inv_live)
  moreover have "session_of (step_m grow lib (OpContextWith k j) st) = step_v lib (OpContextWith k j) (session_of st)"
    using g(1) [OF f(1)] f(2) b True unfolding st'
    by (simp add: session_of_def set_mem_def ContextWith_def)
  ultimately show ?thesis using g(4) [OF f(1)] True unfolding step_ok_def st' by (auto simp: set_mem_def live_of_def)
qed (use assms in \<open>auto simp: step_ok_def session_of_def\<close>)

lemma session_world:
  assumes "session_inv st" "refined (live_of st) (ms_world st) mw w"
  shows "session_inv (st\<lparr>ms_world := mw\<rparr>)" "session_of (st\<lparr>ms_world := mw\<rparr>) = (session_of st)\<lparr>vs_world := w\<rparr>"
proof -
  have live: "live_of (st\<lparr>ms_world := mw\<rparr>) = live_of st" by (simp add: live_of_def)
  have rd: "sl_read (mw_mem mw) t = sl_read (mem_of st) t" if "t \<in> set (live_of st)" for t
    using assms(2) that by (simp add: refined_def)
  show "session_inv (st\<lparr>ms_world := mw\<rparr>)"
    using assms rd by (auto simp: session_inv_def live refined_def ctx_live_def list_all_iff)
  show "session_of (st\<lparr>ms_world := mw\<rparr>) = (session_of st)\<lparr>vs_world := w\<rparr>"
    using assms(2) rd by (auto simp: session_of_def refined_def logger_of_def live_of_def)
qed

lemma step_emit:
  assumes "session_inv st"
  shows "step_ok grow lib (OpEmit e i k c level j) st"
proof (cases "k < length (ms_loggers st) \<and> j < length (ms_args st) \<and> (\<forall>n \<in> set_option c. n < length (ms_ctxs st))")
  case True
  let ?c = "map_option (nth (ms_ctxs st)) c"
  have "ctx_live (live_of st) (mem_of st) (mctxOr ?c)"
    using assms True by (cases c) (auto simp: session_inv_def mctxOr_def list_all_length)
  note r = emit_m_refines [OF session_memD [OF assms] live_nth(1) live_nth(3) this, of k j grow lib i level e]
  have "map_option fst ?c = map_option (nth (map fst (ms_ctxs st))) c" using True by (cases c) auto
  moreover have "\<forall>t \<in> set (live_of st). sl_read (mw_mem (emit_m grow lib i (ms_loggers st ! k) ?c level e (ms_args st ! j) (ms_world st))) t
      = sl_read (mem_of st) t" using r True by (simp add: refined_def)
  ultimately show ?thesis
    using session_world [OF assms r] True by (simp add: step_ok_def session_of_def live_of_def)
qed (use assms in \<open>auto simp: step_ok_def session_of_def\<close>)

lemma step_m_refines: "session_inv st \<Longrightarrow> step_ok grow lib x st"
  by (cases x) (simp_all add: step_args step_with step_context step_emit)

section \<open>Properties\<close>

text \<open>
  C1: Slices behave as values. For every program that builds argument slices, derives loggers with \<open>With\<close> and
  contexts with \<open>ContextWith\<close> and logs through any of the three paths, with any pipeline, any growth rule
  of \<open>append\<close> and any reuse of pooled records and their arrays: executing it in memory gives what the
  value-level operations give, and every slice of a logger, a context or the caller keeps its
  contents, although redaction overwrites arrays in place and \<open>append\<close> writes behind slices.
\<close>

theorem slices_are_values:
  assumes "session_inv st"
  shows "session_of (run_m grow lib ops st) = run_v lib ops (session_of st)
    \<and> (\<forall>t \<in> set (live_of st). sl_read (mem_of (run_m grow lib ops st)) t = sl_read (mem_of st) t)"
  using assms
proof (induction ops arbitrary: st)
  case (Cons x ops)
  have "step_ok grow lib x st" by (rule step_m_refines [OF Cons.prems])
  then show ?case using Cons.IH [of "step_m grow lib x st"] by (auto simp: run_m_def run_v_def step_ok_def)
qed (simp add: run_m_def run_v_def)

text \<open>
  Two children of one logger, whose slices would share an array had \<open>With\<close> appended in place, and an
  emission through a redacting pipeline.
\<close>

definition prog_session :: "Record list msession" where
  "prog_session =
     (let l = \<lparr>lg_leveler = staticLevel LevelTrace, lg_processors = 0,
            lg_transport = \<lparr>tr_Dispatch = (\<lambda>lv r h. h @ [r]), tr_Dropped = (\<lambda>h. 0), tr_Sync = (\<lambda>h. (None, h)), tr_Close = (\<lambda>h. (None, h))\<rparr>,
            lg_with = [], lg_addCaller = False, lg_callerSkip = 0, lg_metrics = None\<rparr>;
          w = \<lparr>wd_levels = (\<lambda>_. 0), wd_procs = [[PRedact (NewRedactProcessor [''k''])]], wd_metrics = [], wd_pool = [], wd_h = []\<rparr>
      in \<lparr>ms_loggers = [(l, nil_slice)], ms_ctxs = [], ms_args = [], ms_world = \<lparr>mw_w = w, mw_pool = [], mw_mem = []\<rparr>\<rparr>)"

abbreviation prog_field :: "string \<Rightarrow> Field" where
  "prog_field v \<equiv> FString ''k'' v"

definition prog_ops :: "prog_op list" where
  "prog_ops = [OpArgs [prog_field ''a''], OpArgs [prog_field ''b''], OpArgs [prog_field ''c''],
     OpWith 0 0, OpWith 1 1, OpWith 1 2, OpEmit (ByLog ''m'') (lc_in (demo_call 9)) 2 None 9 2]"

theorem slices_are_values_witness:
  "map lg_with (vs_loggers (session_of (run_m (\<lambda>c n. 2 * n) sample_lib prog_ops prog_session)))
   = [[], [prog_field ''a''], [prog_field ''a'', prog_field ''b''], [prog_field ''a'', prog_field ''c'']]"
proof -
  have "session_inv prog_session"
    by (simp add: session_inv_def prog_session_def mem_inv_def live_of_def)
  then have "session_of (run_m (\<lambda>c n. 2 * n) sample_lib prog_ops prog_session) = run_v sample_lib prog_ops (session_of prog_session)"
    using slices_are_values by blast
  then show ?thesis
    by (simp add: prog_ops_def run_v_def session_of_def prog_session_def logger_of_def With_def)
qed

end
