(* ===== verification/Slice_Sharing.thy ===== *)
theory Slice_Sharing
  imports Slice_Logger
begin

text \<open>
  Goroutines over one memory of field arrays and one record pool. Each may take a record, append to
  its fields, overwrite or cut them, clone the record for a transport, derive loggers and
  contexts, and give the record back, in any order and interleaving: the emission paths and the
  processors are among these behaviours. The theorem: an array that a goroutine may write is
  nobody else's, and what was kept stays as it was.
\<close>

section \<open>The system\<close>

text \<open>
  \<open>gx_held\<close> is the record each goroutine works on. \<open>gx_kept\<close> are the slices that outlive a call: those of
  clones, derived loggers, contexts and callers; with each, a history variable has its contents
  when it was made.
\<close>

record gx_sys =
  gx_mem :: fmem
  gx_pool :: "mRecord list"
  gx_held :: "mRecord option list"
  gx_kept :: "(slice \<times> Field list) list"

definition gx_start :: "nat \<Rightarrow> gx_sys" where
  "gx_start n = \<lparr>gx_mem = [], gx_pool = [], gx_held = replicate n None, gx_kept = []\<rparr>"

inductive gx_step :: "(nat \<Rightarrow> nat \<Rightarrow> nat) \<Rightarrow> gx_sys \<Rightarrow> gx_sys \<Rightarrow> bool" for grow where
  gx_acquire: "i < length (gx_held s) \<Longrightarrow> gx_held s ! i = None \<Longrightarrow> newRecord_m pick (gx_pool s) = (r, pool) \<Longrightarrow>
     gx_step grow s (s\<lparr>gx_held := (gx_held s)[i := Some r], gx_pool := pool\<rparr>)"
| gx_append: "i < length (gx_held s) \<Longrightarrow> gx_held s ! i = Some r \<Longrightarrow> append_fields grow xs (r, gx_mem s) = (r', m) \<Longrightarrow>
     gx_step grow s (s\<lparr>gx_held := (gx_held s)[i := Some r'], gx_mem := m\<rparr>)"
| gx_write: "i < length (gx_held s) \<Longrightarrow> gx_held s ! i = Some r \<Longrightarrow> k < sl_len (mFields r) \<Longrightarrow>
     gx_step grow s (s\<lparr>gx_mem := sl_modify (\<lambda>arr. arr[k := f]) (mFields r) (gx_mem s)\<rparr>)"
| gx_cut: "i < length (gx_held s) \<Longrightarrow> gx_held s ! i = Some r \<Longrightarrow>
     gx_step grow s (s\<lparr>gx_held := (gx_held s)[i := Some (r\<lparr>mFields := sl_trunc (mFields r)\<rparr>)]\<rparr>)"
| gx_clone: "i < length (gx_held s) \<Longrightarrow> gx_held s ! i = Some r \<Longrightarrow> Clone_m grow r (gx_mem s) = (c, m) \<Longrightarrow>
     gx_step grow s (s\<lparr>gx_mem := m, gx_kept := gx_kept s @ [(mFields c, sl_read (gx_mem s) (mFields r))]\<rparr>)"
| gx_join: "(a, xs) \<in> set (gx_kept s) \<Longrightarrow> (b, ys) \<in> set (gx_kept s) \<Longrightarrow> join_m grow a b (gx_mem s) = (t, m) \<Longrightarrow>
     gx_step grow s (s\<lparr>gx_mem := m, gx_kept := gx_kept s @ [(t, xs @ ys)]\<rparr>)"
| gx_args: "gx_step grow s (s\<lparr>gx_mem := gx_mem s @ [xs],
     gx_kept := gx_kept s @ [(\<lparr>sl_arr = Some (length (gx_mem s)), sl_len = length xs\<rparr>, xs)]\<rparr>)"
| gx_release: "i < length (gx_held s) \<Longrightarrow> gx_held s ! i = Some r \<Longrightarrow>
     gx_step grow s (s\<lparr>gx_held := (gx_held s)[i := None], gx_pool := release_m r (gx_pool s)\<rparr>)"

section \<open>Invariant\<close>

definition gx_inv :: "gx_sys \<Rightarrow> bool" where
  "gx_inv s \<longleftrightarrow> mem_inv (map fst (gx_kept s)) (gx_pool s) (gx_mem s) \<and>
     (\<forall>i < length (gx_held s). \<forall>r. gx_held s ! i = Some r \<longrightarrow>
        owns (mFields r) (map fst (gx_kept s)) (gx_pool s) (gx_mem s) \<and>
        (\<forall>j < length (gx_held s). \<forall>r'. j \<noteq> i \<longrightarrow> gx_held s ! j = Some r' \<longrightarrow> apart (mFields r) (mFields r'))) \<and>
     (\<forall>(t, xs) \<in> set (gx_kept s). sl_read (gx_mem s) t = xs)"

lemma gx_invD:
  assumes "gx_inv s"
  shows "mem_inv (map fst (gx_kept s)) (gx_pool s) (gx_mem s)"
    "i < length (gx_held s) \<Longrightarrow> gx_held s ! i = Some r \<Longrightarrow> owns (mFields r) (map fst (gx_kept s)) (gx_pool s) (gx_mem s)"
    "i < length (gx_held s) \<Longrightarrow> gx_held s ! i = Some r \<Longrightarrow> j < length (gx_held s) \<Longrightarrow> gx_held s ! j = Some r' \<Longrightarrow> j \<noteq> i \<Longrightarrow>
       apart (mFields r) (mFields r')"
    "(t, xs) \<in> set (gx_kept s) \<Longrightarrow> sl_read (gx_mem s) t = xs"
  using assms by (auto simp: gx_inv_def)

text \<open>A goroutine at work on its own record.\<close>

lemma gx_owner:
  assumes inv: "gx_inv s" and i: "i < length (gx_held s)" "gx_held s ! i = Some r"
    and st: "own_step (mFields r) (gx_mem s) (mFields r') m"
  shows "gx_inv (s\<lparr>gx_held := (gx_held s)[i := Some r'], gx_mem := m\<rparr>)"
proof -
  note D = gx_invD [OF inv] and fr = own_step_frame [OF st]
  note own = owner_frame [OF D(1) D(2) [OF i] st]
  have other: "owns (mFields q) (map fst (gx_kept s)) (gx_pool s) m \<and> apart (mFields q) (mFields r')"
    if "j < length (gx_held s)" "gx_held s ! j = Some q" "j \<noteq> i" for j q
    using D(2) [OF that(1,2)] D(3) [OF that(1,2) i] fr(1,3) that(3) by (simp add: owns_def)
  have kept: "sl_read m t = xs" if "(t, xs) \<in> set (gx_kept s)" for t xs
    using own(3) [of t] D(4) [OF that] that by force
  show ?thesis unfolding gx_inv_def
  proof (intro conjI allI impI)
    fix j q assume "j < length (gx_held (s\<lparr>gx_held := (gx_held s)[i := Some r'], gx_mem := m\<rparr>))"
      "gx_held (s\<lparr>gx_held := (gx_held s)[i := Some r'], gx_mem := m\<rparr>) ! j = Some q"
    then have j: "j < length (gx_held s)" "(gx_held s)[i := Some r'] ! j = Some q" by simp_all
    show "owns (mFields q) (map fst (gx_kept (s\<lparr>gx_held := (gx_held s)[i := Some r'], gx_mem := m\<rparr>)))
      (gx_pool (s\<lparr>gx_held := (gx_held s)[i := Some r'], gx_mem := m\<rparr>)) (gx_mem (s\<lparr>gx_held := (gx_held s)[i := Some r'], gx_mem := m\<rparr>))"
      using j own(2) other i by (cases "j = i") auto
    fix k p assume "k < length (gx_held (s\<lparr>gx_held := (gx_held s)[i := Some r'], gx_mem := m\<rparr>))" "k \<noteq> j"
      "gx_held (s\<lparr>gx_held := (gx_held s)[i := Some r'], gx_mem := m\<rparr>) ! k = Some p"
    then show "apart (mFields q) (mFields p)"
      using j i other D(3) by (cases "j = i"; cases "k = i") (auto intro: apart_sym)
  qed (use own(1) kept in auto)
qed

text \<open>A new array for something to keep.\<close>

lemma gx_keep:
  assumes inv: "gx_inv s" and st: "own_step nil_slice (gx_mem s) t m" "sl_read m t = xs"
  shows "gx_inv (s\<lparr>gx_mem := m, gx_kept := gx_kept s @ [(t, xs)]\<rparr>)"
proof -
  note D = gx_invD [OF inv] and f = fresh_slice [OF gx_invD(1) [OF inv] st(1)]
  have other: "owns (mFields q) (map fst (gx_kept s) @ [t]) (gx_pool s) m"
    if "j < length (gx_held s)" "gx_held s ! j = Some q" for j q
  proof -
    have "owns (mFields q) (map fst (gx_kept s)) (gx_pool s) (gx_mem s)" by (rule D(2) [OF that])
    then show ?thesis using own_step_frame [OF st(1), of "mFields q"] by (auto simp: owns_def intro: apart_sym)
  qed
  have "mem_inv (map fst (gx_kept s) @ [t]) (gx_pool s) m" using f(1) by (rule mem_inv_live) auto
  moreover have "sl_read m a = ys" if "(a, ys) \<in> set (gx_kept s)" for a ys
    using f(2) [of a] D(4) [OF that] that by force
  ultimately show ?thesis using other D(3) st(2) by (auto simp: gx_inv_def)
qed

lemma Clone_m_fresh:
  assumes "sl_ok m (mFields r)" "Clone_m grow r m = (c, m')"
  shows "own_step nil_slice m (mFields c) m'" "rec_of m' c = Clone (rec_of m r)"
proof -
  obtain s0 m0 where 0: "sl_make (sl_len (mFields r)) m = (s0, m0)" by fastforce
  obtain s1 where 1: "sl_append grow s0 (sl_read m0 (mFields r)) m0 = (s1, m')" "mFields c = s1"
    using assms(2) 0 by (auto simp: Clone_m_def split: prod.splits)
  have o0: "own_step nil_slice m s0 m0" and e: "sl_read m0 s0 = []" using sl_make_facts [OF 0] by blast+
  show "own_step nil_slice m (mFields c) m'"
    using own_step_trans [OF o0 sl_append_own [OF own_step_ok [OF o0] 1(1)]] 1(2) by simp
  have "sl_read m0 (mFields r) = sl_read m (mFields r)"
    using own_step_frame(2) [OF o0 assms(1)] by simp
  then have "sl_read m' (mFields c) = sl_read m (mFields r)"
    using sl_append_read [OF own_step_ok [OF o0] 1(1)] e 1(2) by simp
  moreover have "c = zero_m\<lparr>mTime := mTime r, mLevel := mLevel r, mMessage := mMessage r,
      mEventName := mEventName r, mPC := mPC r, mCtx := mCtx r, mFields := mFields c\<rparr>"
    using assms(2) 0 1 by (auto simp: Clone_m_def)
  ultimately show "rec_of m' c = Clone (rec_of m r)"
    by (cases c) (simp add: rec_of_def Clone_def zeroRecord_def zero_m_def)
qed

text \<open>From the pool and back.\<close>

lemma newRecord_m_pool:
  assumes "newRecord_m pick pool = (r, pool')"
  shows "set pool' \<subseteq> set pool" "mFields r = nil_slice \<or> mFields r \<in> mFields ` set pool"
  using assms
  by (auto simp: newRecord_m_def zero_m_def split: option.splits if_splits dest: in_set_takeD in_set_dropD)

lemma gx_take:
  assumes inv: "gx_inv s" and i: "i < length (gx_held s)" "gx_held s ! i = None"
    and new: "newRecord_m pick (gx_pool s) = (r, pool)"
  shows "gx_inv (s\<lparr>gx_held := (gx_held s)[i := Some r], gx_pool := pool\<rparr>)"
proof -
  note D = gx_invD [OF inv] and n = newRecord_m_owns [OF gx_invD(1) [OF inv] new] and p = newRecord_m_pool [OF new]
  have other: "owns (mFields q) (map fst (gx_kept s)) pool (gx_mem s) \<and> apart (mFields q) (mFields r)"
    if "j < length (gx_held s)" "gx_held s ! j = Some q" for j q
    using D(2) [OF that] p by (auto simp: owns_def list_all_iff intro: apart_sym)
  show ?thesis unfolding gx_inv_def
    using n(1,2) other D(3,4) i by (auto simp: nth_list_update split: if_splits intro: apart_sym)
qed

lemma release_m_set: "set (release_m r pool) \<subseteq> insert (reset_m r) (set pool)"
  by (auto simp: release_m_def)

lemma gx_give:
  assumes inv: "gx_inv s" and i: "i < length (gx_held s)" "gx_held s ! i = Some r"
  shows "gx_inv (s\<lparr>gx_held := (gx_held s)[i := None], gx_pool := release_m r (gx_pool s)\<rparr>)"
proof -
  note D = gx_invD [OF inv]
  have other: "owns (mFields q) (map fst (gx_kept s)) (release_m r (gx_pool s)) (gx_mem s)"
    if "j < length (gx_held s)" "gx_held s ! j = Some q" "j \<noteq> i" for j q
    using D(2) [OF that(1,2)] D(3) [OF i that(1,2)] that(3)
    by (auto simp: owns_def release_m_def reset_m_def sl_trunc_def apart_def)
  show ?thesis unfolding gx_inv_def
    using release_m_inv(1) [OF D(1) D(2) [OF i]] other D(3,4) i(1) by (auto simp: nth_list_update split: if_splits)
qed

lemma gx_inv_step:
  assumes "gx_step grow s s'" "gx_inv s"
  shows "gx_inv s'"
  using assms(1)
proof cases
  case (gx_acquire i pick r pool)
  then show ?thesis using gx_take [OF assms(2)] by simp
next
  case (gx_append i r xs r' m)
  have "sl_ok (gx_mem s) (mFields r)" using gx_invD(2) [OF assms(2) gx_append(2,3)] by (simp add: owns_def)
  from append_fields_implements [OF this gx_append(4)] gx_append show ?thesis
    using gx_owner [OF assms(2)] by (simp add: implements_def)
next
  case (gx_write i r k f)
  have "sl_ok (gx_mem s) (mFields r)" using gx_invD(2) [OF assms(2) gx_write(2,3)] by (simp add: owns_def)
  then have "own_step (mFields r) (gx_mem s) (mFields r) (sl_modify (\<lambda>arr. arr[k := f]) (mFields r) (gx_mem s))"
    by (rule sl_modify_own) simp
  from gx_owner [OF assms(2) gx_write(2,3) this] show ?thesis
    using gx_write list_update_id [of "gx_held s" i] by simp
next
  case (gx_cut i r)
  have "sl_ok (gx_mem s) (mFields r)" using gx_invD(2) [OF assms(2) gx_cut(2,3)] by (simp add: owns_def)
  from gx_owner [OF assms(2) gx_cut(2,3), of "r\<lparr>mFields := sl_trunc (mFields r)\<rparr>" "gx_mem s"] sl_trunc_own [OF this]
  show ?thesis using gx_cut by simp
next
  case (gx_clone i r c m)
  have "sl_ok (gx_mem s) (mFields r)" using gx_invD(2) [OF assms(2) gx_clone(2,3)] by (simp add: owns_def)
  note f = Clone_m_fresh [OF this gx_clone(4)]
  have "sl_read m (mFields c) = sl_read (gx_mem s) (mFields r)" using arg_cong [OF f(2), of rFields] by simp
  then show ?thesis using gx_keep [OF assms(2) f(1)] gx_clone(1) by simp
next
  case (gx_join a xs b ys t m)
  have ab: "a \<in> set (map fst (gx_kept s))" "b \<in> set (map fst (gx_kept s))" using gx_join(2,3) by force+
  note f = join_m_fresh [OF gx_invD(1) [OF assms(2)] ab gx_join(4)]
  have "sl_read m t = xs @ ys" using f(2) gx_invD(4) [OF assms(2)] gx_join(2,3) by simp
  then show ?thesis using gx_keep [OF assms(2) f(1)] gx_join(1) by simp
next
  case (gx_args xs)
  let ?t = "\<lparr>sl_arr = Some (length (gx_mem s)), sl_len = length xs\<rparr>"
  have "own_step nil_slice (gx_mem s) ?t (gx_mem s @ [xs])" by (simp add: own_step_def nil_slice_def sl_ok_def nth_append)
  then show ?thesis using gx_keep [OF assms(2)] gx_args by (simp add: sl_read_def)
next
  case (gx_release i r)
  then show ?thesis using gx_give [OF assms(2)] by simp
qed

interpretation sharing: invariant_system "\<lambda>s. s = gx_start n" "gx_step grow" gx_inv for n grow
  by unfold_locales (simp add: gx_inv_def gx_start_def mem_inv_def, blast intro: gx_inv_step)

section \<open>Properties\<close>

text \<open>
  C5: Pooling and cloning share nothing that is written. In every interleaving of any number of goroutines,
  for every growth rule of \<open>append\<close>: the fields of every clone, derived logger, context and argument
  slice are what they were when it was made, and the array a goroutine may write belongs to no
  kept slice, no pooled record and no other goroutine, so the plain accesses to fields cannot
  race.
\<close>

theorem slices_race_free:
  assumes "(gx_step grow)\<^sup>*\<^sup>* (gx_start n) s"
  shows "(\<forall>(t, xs) \<in> set (gx_kept s). sl_read (gx_mem s) t = xs)
    \<and> (\<forall>i < length (gx_held s). \<forall>r a. gx_held s ! i = Some r \<longrightarrow> sl_arr (mFields r) = Some a \<longrightarrow>
         (\<forall>(t, xs) \<in> set (gx_kept s). sl_arr t \<noteq> Some a) \<and> (\<forall>p \<in> set (gx_pool s). sl_arr (mFields p) \<noteq> Some a)
         \<and> (\<forall>j < length (gx_held s). \<forall>r'. j \<noteq> i \<longrightarrow> gx_held s ! j = Some r' \<longrightarrow> sl_arr (mFields r') \<noteq> Some a))"
proof (intro conjI allI impI)
  note D = gx_invD [OF sharing.reach_inv [OF refl assms]]
  show "\<forall>(t, xs) \<in> set (gx_kept s). sl_read (gx_mem s) t = xs" using D(4) by blast
  fix i r a assume i: "i < length (gx_held s)" "gx_held s ! i = Some r" and a: "sl_arr (mFields r) = Some a"
  have ne: "sl_arr t \<noteq> Some a" if "apart t (mFields r)" for t using that a by (auto simp: apart_def)
  have "apart t (mFields r)" if "t \<in> fst ` set (gx_kept s) \<union> mFields ` set (gx_pool s)" for t
    using D(2) [OF i] that by (auto simp: owns_def list_all_iff)
  from ne [OF this] show "\<forall>(t, xs) \<in> set (gx_kept s). sl_arr t \<noteq> Some a" "\<forall>p \<in> set (gx_pool s). sl_arr (mFields p) \<noteq> Some a"
    by force+
  fix j r' assume "j < length (gx_held s)" "j \<noteq> i" "gx_held s ! j = Some r'"
  then show "sl_arr (mFields r') \<noteq> Some a" using ne apart_sym [OF D(3) [OF i]] by blast
qed

text \<open>
  A clone taken of the first goroutine's record, whose array the second goroutine then gets from the
  pool and overwrites.
\<close>

abbreviation gx_field :: "string \<Rightarrow> Field" where
  "gx_field v \<equiv> FString ''k'' v"

abbreviation gx_tight :: "nat \<Rightarrow> nat \<Rightarrow> nat" where
  "gx_tight c n \<equiv> n"

definition gx_rec :: "nat \<Rightarrow> mRecord" where
  "gx_rec n = zero_m\<lparr>mPooled := True, mFields := \<lparr>sl_arr = Some 0, sl_len = n\<rparr>\<rparr>"

definition gx_kept_a :: "(slice \<times> Field list) list" where
  "gx_kept_a = [(\<lparr>sl_arr = Some 1, sl_len = 1\<rparr>, [gx_field ''a''])]"

definition gx_reused :: gx_sys where
  "gx_reused = \<lparr>gx_mem = [[gx_field ''b''], [gx_field ''a'']], gx_pool = [], gx_held = [None, Some (gx_rec 1)], gx_kept = gx_kept_a\<rparr>"

lemma gx_reused_reach: "(gx_step gx_tight)\<^sup>*\<^sup>* (gx_start 2) gx_reused"
proof -
  let ?r = "zero_m\<lparr>mPooled := True\<rparr>" and ?a = "[gx_field ''a'']" and ?b = "[gx_field ''b'']"
  let ?s1 = "\<lparr>gx_mem = [], gx_pool = [], gx_held = [Some ?r, None], gx_kept = []\<rparr>"
  let ?s2 = "\<lparr>gx_mem = [?a], gx_pool = [], gx_held = [Some (gx_rec 1), None], gx_kept = []\<rparr>"
  let ?s3 = "\<lparr>gx_mem = [?a, ?a], gx_pool = [], gx_held = [Some (gx_rec 1), None], gx_kept = gx_kept_a\<rparr>"
  let ?s4 = "\<lparr>gx_mem = [?a, ?a], gx_pool = [gx_rec 0], gx_held = [None, None], gx_kept = gx_kept_a\<rparr>"
  let ?s5 = "\<lparr>gx_mem = [?a, ?a], gx_pool = [], gx_held = [None, Some (gx_rec 0)], gx_kept = gx_kept_a\<rparr>"
  note defs = gx_rec_def append_fields_def sl_append_def slice_defs zero_m_def nil_slice_def numeral_2_eq_2
  have 1: "gx_step gx_tight (gx_start 2) ?s1"
    using gx_acquire [of 0 "gx_start 2" None ?r "[]" gx_tight] by (simp add: gx_start_def newRecord_m_def numeral_2_eq_2)
  have 2: "gx_step gx_tight ?s1 ?s2" using gx_append [of 0 ?s1 ?r gx_tight ?a "gx_rec 1" "[?a]"] by (simp add: defs)
  have 3: "gx_step gx_tight ?s2 ?s3"
    using gx_clone [of 0 ?s2 "gx_rec 1" gx_tight] by (simp add: defs Clone_m_def sl_make_def gx_kept_a_def)
  have 4: "gx_step gx_tight ?s3 ?s4"
    using gx_release [of 0 ?s3 "gx_rec 1" gx_tight] by (simp add: defs release_m_def reset_m_def)
  have 5: "gx_step gx_tight ?s4 ?s5"
    using gx_acquire [of 1 ?s4 "Some 0" "gx_rec 0" "[]" gx_tight] by (simp add: newRecord_m_def gx_rec_def)
  have 6: "gx_step gx_tight ?s5 gx_reused"
    using gx_append [of 1 ?s5 "gx_rec 0" gx_tight ?b "gx_rec 1" "[?b, ?a]"] by (simp add: defs gx_reused_def)
  show ?thesis using 1 2 3 4 5 6 by (meson converse_rtranclp_into_rtranclp rtranclp.rtrancl_refl)
qed

theorem slices_race_free_witness:
  "gx_mem gx_reused = [[gx_field ''b''], [gx_field ''a'']]
   \<and> map (\<lambda>k. sl_read (gx_mem gx_reused) (fst k)) (gx_kept gx_reused) = [[gx_field ''a'']]
   \<and> sl_arr (fst (hd (gx_kept gx_reused))) \<noteq> Some 0"
proof -
  have "gx_held gx_reused ! 1 = Some (gx_rec 1)" "sl_arr (mFields (gx_rec 1)) = Some 0" "1 < length (gx_held gx_reused)"
    by (simp_all add: gx_reused_def gx_rec_def)
  then have "\<forall>(t, xs) \<in> set (gx_kept gx_reused). sl_arr t \<noteq> Some 0"
    using slices_race_free [OF gx_reused_reach, THEN conjunct2] by blast
  moreover have "\<forall>(t, xs) \<in> set (gx_kept gx_reused). sl_read (gx_mem gx_reused) t = xs"
    by (rule slices_race_free [OF gx_reused_reach, THEN conjunct1])
  moreover have "gx_kept gx_reused = gx_kept_a" "gx_mem gx_reused = [[gx_field ''b''], [gx_field ''a'']]"
    by (simp_all add: gx_reused_def)
  ultimately show ?thesis by (simp add: gx_kept_a_def)
qed

end
