(* ===== verification/Spec2Isabelle.thy ===== *)
theory Spec2Isabelle
  imports Level Field_Value Log_Record Buffer_JSON Encoders Metrics Processors Transport_Spec
    Transport_Ring Transport_Channel MPMC_Queue Transport_Disruptor Fingers_Crossed Audit_Chain Sinks Logger
    Slog_Handler Message_Template Span_Tree Level_Control Logger_Shims File_Rotation HTTP_Batch Net_Sinks Bridges
    Delivery FC_Concurrent Secrecy Slices Slice_Logger Slice_Sharing
begin

text \<open>
  \<^bold>\<open>A verification of the structured logging library \<open>ubgo/logger\<close>\<close>

  The program. A call such as \<open>Info\<close> (\<open>logger.go\<close>) checks the level, takes a \<open>Record\<close> from a
  pool (\<open>record.go\<close>), fills it with the bound and the given \<open>Field\<close>s (\<open>field.go\<close>), runs it
  through the processors (\<open>processor.go\<close>, \<open>redact_path.go\<close>, \<open>dedup.go\<close>, \<open>enrich.go\<close>), counts it
  (\<open>metrics.go\<close>) and hands it to a transport (\<open>transport.go\<close>, \<open>transport_ring.go\<close>), which delivers
  it, inline or from a worker goroutine, to a tree of sinks (\<open>sink.go\<close>, \<open>fingerscrossed.go\<close>,
  \<open>audit.go\<close>). A writer sink encodes the record (\<open>encoder*.go\<close>, \<open>anyval.go\<close>, \<open>buffer.go\<close>) and
  makes one write. \<open>level.go\<close> and \<open>admin.go\<close> hold the severity scale and its runtime control.

  The theories, in the order of the code:

  \<^item> \<open>Prelude\<close> and \<open>Golib\<close>: bytes, 64-bit words, decimal numerals, string splitting, circular
    buffers, the locale \<open>invariant_system\<close> of transition systems with an invariant; and the standard
    library. What the code only passes on (time formatting, float
    formatting, \<open>json.Marshal\<close>, \<open>strconv.Quote\<close>, Unicode case folding, SHA-256, call frames) is
    the record \<open>golib\<close>, an argument of the definitions; what it relies on is stated as
    hypotheses (\<open>json_lib\<close>, \<open>line_lib\<close>, the output length of SHA-256), and \<open>sample_lib\<close> satisfies
    them.
  \<^item> \<open>Level\<close>: \<open>level.go\<close>, \<open>admin.go\<close>. Names and numbers of levels, the level variable in a store,
    the HTTP handler; what is set is what is reported.
  \<^item> \<open>Field_Value\<close>: \<open>field.go\<close>. Values of every Go integer type through the unboxed 64-bit word.
  \<^item> \<open>Log_Record\<close>: \<open>record.go\<close>, \<open>caller.go\<close>, the context helpers. Contexts are binding chains; the
    pool is a list from which an arbitrary element may be handed out, and its invariant says
    that every pooled record is blank.
  \<^item> \<open>Buffer_JSON\<close>: \<open>buffer.go\<close>. The escaping writer equals a byte-wise reference and a JSON
    reader inverts it. The JSON grammar is an inductive predicate.
  \<^item> \<open>Encoders\<close>: the three encoders. JSON lines are JSON objects, one per record; the locale
    \<open>line_encoder\<close> states the framing contract that audit logs rely on.
  \<^item> \<open>Metrics\<close>: \<open>metrics.go\<close>.
  \<^item> \<open>Processors\<close>: every built-in processor and the pipeline. The locales \<open>field_processor\<close> and
    \<open>lossless_processor\<close> state what the core may assume of a stage, and are interpreted on the
    code's \<open>Process\<close>.
  \<^item> \<open>Transport_Spec\<close>: the abstract bounded FIFO transport with its three overflow policies and
    counted losses, its invariants, and the locale \<open>transport\<close>: a simulation into the abstract
    machine gives accounting, order and losslessness.
  \<^item> \<open>Transport_Ring\<close>, \<open>Transport_Channel\<close>: the two worker-based transports as transition systems
    over all interleavings of producers, closers and the worker, at the granularity of
    critical sections (ring, with the parked and woken threads of the condition variables) and
    of channel operations and atomic updates (channel). Both interpret \<open>transport\<close>. For the
    channel, what becomes of the calls around \<open>Close\<close>: the panics, and that the worker still
    delivers what was accepted.
  \<^item> \<open>MPMC_Queue\<close>: the lock-free queue of \<open>transport_disruptor.go\<close>, one step per memory access, with a
    history of claimed positions: first-in first-out, free of data races, and its construction
    terminates exactly for sizes up to \<open>2\<^sup>6\<^sup>2\<close>. Fewer than \<open>2\<^sup>6\<^sup>2\<close> enqueues are assumed, since the
    64-bit positions are compared by signed difference; at a record per nanosecond that is more
    than a century.
  \<^item> \<open>Transport_Disruptor\<close>: producers, worker and \<open>Close\<close> around that queue. It interprets \<open>transport\<close>
    with the weaker configuration its behaviour after \<open>Close\<close> allows.
  \<^item> \<open>Fingers_Crossed\<close>: debug-on-error buffering. The circular buffer implements ``the last
    records''; a scope behaves as specified over whole runs and scopes do not interfere.
  \<^item> \<open>Audit_Chain\<close>: the hash-chained audit log and \<open>VerifyAudit\<close>, with the scanner's rules. The
    locale \<open>audit_encoder\<close> extends \<open>line_encoder\<close>. An accepted stream with the sink's head hash
    carries the sink's records, unless two inputs hashed at one position of the two chains collide.
  \<^item> \<open>Sinks\<close>: the tree of sinks over external writers (parameters) and one heap of mutable state.
    The locale \<open>preserving\<close> is what a decorator assumes of the sink it wraps.
  \<^item> \<open>File_Rotation\<close> (\<open>sink_file.go\<close>): the self-rotating file over an inode-level file system whose
    answers are inputs: size cap, exactly which segments retention removes, and, when it removes
    none and segment names differ, no byte lost or torn by rotation.
  \<^item> \<open>HTTP_Batch\<close> (\<open>sink_http.go\<close>): the batching sink as a transition system over emitters, timers,
    \<open>Sync\<close>, \<open>Close\<close> and completing requests, and the request bodies of the cloud sinks.
  \<^item> \<open>Net_Sinks\<close> (\<open>sink_net.go\<close>, \<open>sink_syslog_unix.go\<close>): the sinks over a connection; dialling, writing
    and closing are parameters.
  \<^item> \<open>Logger\<close>: construction, child loggers and the three emission paths over a world shared by
    the loggers.
  \<^item> \<open>Slog_Handler\<close> (\<open>handler.go\<close>), \<open>Message_Template\<close> (\<open>template.go\<close>), \<open>Span_Tree\<close> (\<open>span.go\<close>),
    \<open>Level_Control\<close> (\<open>config_reload.go\<close>, \<open>signal.go\<close>) and \<open>Logger_Shims\<close> (\<open>recover.go\<close>, \<open>shim_std.go\<close>,
    \<open>presets.go\<close>, \<open>tty.go\<close>, \<open>logtest/logtest.go\<close>): what is built on the core.
  \<^item> \<open>Bridges\<close> (\<open>contrib/\<close>): the adapters from and to seven other logging libraries, whose operations are
    parameters. The locales \<open>banded\<close> and \<open>faithful_bands\<close> state what a level map must satisfy and are
    interpreted on the outgoing maps, syslog's included, over the libraries' severities as linear
    orders; \<open>forwarding_sink\<close> is what the four outgoing
    sinks have in common.
  \<^item> \<open>Delivery\<close>: transport, sink, encoder and file together. The locale \<open>append_writer\<close> says what a sink
    assumes of its writer and is interpreted on the rotating file; \<open>sink_transport\<close> extends \<open>transport\<close>
    by the order of the calls the worker makes to the sink, for the ring, the channel and the
    lock-free transport. From \<open>Dispatch\<close> to the bytes on disk.
  \<^item> \<open>FC_Concurrent\<close>: goroutines sharing a debug-on-error sink. The critical sections serialise the
    decisions; the hand-over to the wrapped sink interleaves. What each call owes the sink is
    specified by the records logged before it in its scope, without buffers.
  \<^item> \<open>Slices\<close>, \<open>Slice_Logger\<close>, \<open>Slice_Sharing\<close>: the field slices as slices. Elsewhere fields are values; here
    they are arrays in a store, extended in place by \<open>append\<close>, overwritten by redaction and reused
    by the pool. The locale \<open>memory_stage\<close> says what a processor may do to memory and is interpreted on
    the code's processors; programs in memory behave as on values, and goroutines share no
    array that anyone writes. This justifies the values of the other theories.
  \<^item> \<open>Secrecy\<close>: redaction as noninterference over all emission paths, and \<open>example/main.go\<close>, whose
    password it protects.

  Conventions. Go strings are byte lists; \<open>uint64\<close> counters are 64-bit words, so their
  wrap-around is part of the statements; indices and lengths are naturals, bounded by the
  buffers they index. Errors are values: \<open>goerr option\<close> for a Go \<open>error\<close>, \<open>perr\<close> for the outcome
  of a processor, a sum for the verifier. Every function of the model is total; the loops of
  the code are structural recursions or have a termination measure, so there is no fuel. The
  waiting loops of the transports are program counters of the transition systems.

  Simplifications without a bearing on the statements: a \<open>Level\<close> and a file size are unbounded
  integers (they are compared and added to by lengths); \<open>OverflowPolicy\<close> has its three named
  values only; the panic of \<open>make\<close> for sizes beyond the memory is left out; the logger hands a
  transport the record's value, the slice behind it being the subject of \<open>Slice_Sharing\<close>.

  Not modelled: the internals of the libraries behind \<open>contrib/\<close>, and the build-tag and atomic aliases
  (\<open>atomic.go\<close>, \<open>race_on.go\<close>, \<open>race_off.go\<close>), which have no behaviour. Of the rest, only getters of counters
  that are fields of the model, methods that do nothing and empty key types have no definition. A logger's own fields are
  never written after its construction, and its bound fields are covered by \<open>Slice_Sharing\<close>; outside the transition
  systems above, a call of a sink or a processor is one step. The parameters standing for external
  code may be any functions.
\<close>

section \<open>Properties of the assembled logger\<close>

lemma New_default:
  assumes "New lib ev [WithProcessors ps] w = (l, w1)"
  shows "lg_transport l = NewSyncTransport lib ev (NewWriterSink 2 (EncJSON NewJSONEncoder) LevelTrace)"
    "lg_leveler l = staticLevel LevelInfo" "wd_procs w1 ! lg_processors l = ps" "wd_h w1 = wd_h w"
    "wd_pool w1 = wd_pool w"
  using assms by (auto simp: New_def Let_def)

text \<open>A record that the pipeline lets through is what the transport gets.\<close>

lemma dispatch_passed:
  assumes "runPipeline lib (li_clock i) ctx (wd_procs w ! lg_processors l) r = (ps', r1, None)"
  shows "wd_h (pipeline_dispatch lib i l ctx level r w) = tr_Dispatch (lg_transport l) (wd_levels w) r1 (wd_h w)"
  using assms by (simp add: pipeline_dispatch_def update_metrics_def Let_def split: option.split)

text \<open>
  C24: Errors are never lost on the way: a logger built with the defaults and any processors that spare
  errors (redactors, enrichers, samplers), from any state of the pools, answers every call at or
  above ERROR with exactly one write to the standard error stream, of one complete JSON line that
  encodes a record with the call's time, level, message and caller.
\<close>

theorem error_reaches_stderr:
  assumes "New lib ev [WithProcessors ps] w = (l, w1)" "list_all (spares_errors (ctxOr ctx)) ps"
    and "LevelError \<le> level" "pool_inv (wd_pool w)" "heap_inv (wd_h w)" "line_lib lib"
  shows "\<exists>r line. header r = header (call_record i l ctx level msg fs)
    \<and> JSON_Encode lib NewJSONEncoder r [] = line @ [NL] \<and> NL \<notin> set line
    \<and> hp_w (wd_h (log lib i l ctx level msg fs w1)) = snd (ev_Write ev 2 (line @ [NL]) (hp_w (wd_h w)))"
proof -
  let ?r = "call_record i l ctx level msg fs"
  note new = New_default [OF assms(1)]
  obtain ps' r e where run: "runPipeline lib (li_clock i) (ctxOr ctx) ps ?r = (ps', r, e)" by (metis prod_cases3)
  have "rLevel ?r = level" by (simp add: call_record_def)
  then have "e = None" "header r = header ?r"
    using assms(2,3) run sparing.stages_pass sparing.stages_header unfolding runPipeline_def by metis+
  moreover have "LevelInfo \<le> level" using assms(3) by (simp add: level_defs)
  ultimately have h: "wd_h (log lib i l ctx level msg fs w1)
      = tr_Dispatch (lg_transport l) (wd_levels w1) r (wd_h w)" and hd: "header r = header ?r"
    using new assms(4) run by (simp_all add: log_enabled dispatch_passed)
  have "rLevel r = level" using sparing.header_level [OF hd] by (simp add: call_record_def)
  then have "LevelTrace \<le> rLevel r" using assms(3) by (simp add: level_defs)
  moreover obtain line where line: "JSON_Encode lib NewJSONEncoder r [] = line @ [NL]" "NL \<notin> set line"
    using json_enc.enc_line [OF assms(6)] by metis
  ultimately have "hp_w (wd_h (log lib i l ctx level msg fs w1)) = snd (ev_Write ev 2 (line @ [NL]) (hp_w (wd_h w)))"
    using h new(1) assms(5) by (simp add: NewSyncTransport_def NewWriterSink_def WriterSink_world)
  with hd line show ?thesis by blast
qed

definition stderr_world :: "((nat \<Rightarrow> bytes) \<times> nat) heap world" where
  "stderr_world = \<lparr>wd_levels = (\<lambda>_. 0), wd_procs = [], wd_metrics = [], wd_pool = [], wd_h = empty_heap\<rparr>"

theorem error_reaches_stderr_witness:
  "let (l, w1) = New sample_lib flaky_env [WithProcessors [PSample (NewSampleProcessor 0 100)]] stderr_world
   in \<exists>line. fst (hp_w (wd_h (log sample_lib (lc_in (demo_call 17)) l None 17 ''down'' [] w1))) 2 = line @ [NL]"
proof -
  let ?ps = "[PSample (NewSampleProcessor 0 100)]"
  obtain l w1 where new: "New sample_lib flaky_env [WithProcessors ?ps] stderr_world = (l, w1)" by fastforce
  have "list_all (spares_errors (ctxOr None)) ?ps" by (simp add: NewSampleProcessor_def)
  moreover have "pool_inv (wd_pool stderr_world)" "heap_inv (wd_h stderr_world)"
    using empty_heap_inv by (simp_all add: stderr_world_def pool_inv_def)
  moreover have "LevelError \<le> 17" by (simp add: level_defs)
  ultimately obtain line where
    "hp_w (wd_h (log sample_lib (lc_in (demo_call 17)) l None 17 ''down'' [] w1))
      = snd (ev_Write flaky_env 2 (line @ [NL]) (hp_w (wd_h stderr_world)))"
    using error_reaches_stderr [OF new _ _ _ _ line_lib_sample, of None 17 "lc_in (demo_call 17)" "''down''" "[]"] by metis
  then show ?thesis using new by (simp add: flaky_env_def stderr_world_def empty_heap_def)
qed

end
